(* ===== verification/Prelude.thy ===== *)
theory Prelude
  imports Main "HOL-Library.Word" "HOL-Library.Sublist"
begin

text \<open>
  Shared vocabulary of the development: Go's machine integers and byte slices, the dynamic
  values an \<open>interface{}\<close> of the message protocol can hold, the error values of the program,
  the outcome of code that may panic, and labelled runs of a goroutine's select loop.
  The lemmas here are the generic ones the component theories share.
\<close>

unbundle bit_operations_syntax

named_theorems loop_simps "equations of the select loops and of the machines built on them"

section \<open>Machine integers, slices and strings\<close>

type_synonym byte = "8 word"
type_synonym bytes = "byte list"
type_synonym u64 = "64 word"
type_synonym u32 = "32 word"

text \<open>Signed integers are kept as their two's complement bit patterns; \<open>sint\<close> reads them.\<close>

type_synonym i64 = "64 word"
type_synonym i32 = "32 word"

text \<open>A \<open>[]byte\<close> can be nil, and the code distinguishes nil from empty.\<close>

type_synonym slice = "bytes option"

definition slice_bytes :: "slice \<Rightarrow> bytes" where
  "slice_bytes s = (case s of None \<Rightarrow> [] | Some bs \<Rightarrow> bs)"

text \<open>\<open>string(b)\<close> and \<open>[]byte(s)\<close>: a Go string is a sequence of bytes.\<close>

definition string_of_bytes :: "bytes \<Rightarrow> string" where
  "string_of_bytes bs = map (\<lambda>b. char_of (unat b)) bs"

definition bytes_of_string :: "string \<Rightarrow> bytes" where
  "bytes_of_string cs = map (\<lambda>c. word_of_nat (of_char c)) cs"

lemma slice_bytes_simps [simp]: "slice_bytes None = []" "slice_bytes (Some bs) = bs"
  by (simp_all add: slice_bytes_def)

lemma string_of_bytes_of_string [simp]: "string_of_bytes (bytes_of_string cs) = cs"
  by (simp add: string_of_bytes_def bytes_of_string_def comp_def unat_of_nat map_idI)

lemma unat_byte_mod [simp]: "unat (b::byte) mod 256 = unat b"
  using unsigned_less [of b, where ?'a = nat] by simp

lemma bytes_of_string_of_bytes [simp]: "bytes_of_string (string_of_bytes bs) = bs"
  by (simp add: string_of_bytes_def bytes_of_string_def comp_def map_idI)

lemma length_string_conversions [simp]:
  "length (string_of_bytes bs) = length bs" "length (bytes_of_string cs) = length cs"
  by (simp_all add: string_of_bytes_def bytes_of_string_def)

text \<open>Little-endian encoding of \<open>encoding/binary\<close>, one byte at a time.\<close>

fun le_bytes :: "nat \<Rightarrow> u64 \<Rightarrow> bytes" where
  "le_bytes 0 w = []"
| "le_bytes (Suc n) w = ucast w # le_bytes n (drop_bit 8 w)"

fun le_word :: "bytes \<Rightarrow> u64" where
  "le_word [] = 0"
| "le_word (b # bs) = ucast b OR push_bit 8 (le_word bs)"

lemma length_le_bytes [simp]: "length (le_bytes n w) = n"
  by (induction n arbitrary: w) auto

lemma le_word_le_bytes: "le_word (le_bytes n w) = take_bit (8 * n) w"
proof (induction n arbitrary: w)
  case 0
  then show ?case by simp
next
  case (Suc n)
  show ?case
    by (rule bit_eqI) (auto simp: Suc bit_simps not_less less_diff_conv)
qed

lemma le_word_le_bytes_8 [simp]: "le_word (le_bytes 8 w) = w"
  by (simp add: le_word_le_bytes take_bit_word_eq_self)

section \<open>Dynamic values of the wire protocol\<close>

text \<open>
  What an element of a payload or header (\<open>[]interface{}\<close>) can be: one constructor per
  dynamic type the code's type switches name, \<open>GIntPair\<close> for \<open>[2]int\<close>, and \<open>GOther\<close>
  (with the type's name) for every other type.
\<close>

datatype gval =
    GNil
  | GBool bool
  | GUint u64
  | GUint32 u32
  | GUint64 u64
  | GInt i64
  | GInt32 i32
  | GInt64 i64
  | GBytes slice
  | GString string
  | GSlice "gval list"
  | GIntPair i64 i64
  | GOther string

section \<open>Errors and panics\<close>

text \<open>
  The error values of the program. A sentinel variable is a constant constructor, an error
  type carries its fields, and an error made by \<open>fmt.Errorf\<close> carries the formatted arguments.
\<close>

datatype goerr =
    ErrInvalidHeaderLength
  | ErrInvalidHeaderType
  | ErrInvalidTraceType
  | ErrInvalidTraceNumber
  | ErrInvalidTraceValueType
  | ErrNotAllTracesPresent
  | EOF
  | ErrUnexpectedEOF
  | ErrNoMethod string
  | ErrStreamIsClosed
  | ErrBadPayload
  | ErrRequest string i64 i64 \<comment> \<open>message, category, code\<close>
  | ErrClosedPipe
  | EINVAL
  | ErrTxDone
  | CtxCanceled
  | CtxDeadlineExceeded
  | ErrCodec string
  | ErrNewSessionNotInvoke u64 u64
  | ErrInvalidMsgType u64
  | ErrInvalidUtilityType u64
  | ErrNoEventName
  | ErrUnsupportedProtocol i64
  | ErrHandshakeTimeout
  | ErrDisowned
  | ErrNoCocaineEndpoint
  | ErrConnectionLost
  | ErrZeroEndpoints
  | ErrDial string
  | ErrUnresolved string \<comment> \<open>no such service\<close>
  | ServiceError i64 string \<comment> \<open>code, message\<close>
  | ErrBodyNotAllowed
  | ErrContentLength
  | ErrBadRequest string
  | MultiConnectionError "(string \<times> u64 \<times> goerr) list"

text \<open>Run-time panics, and the outcome of code that may panic.\<close>

datatype panic = NilDeref | IndexOutOfRange | SliceBounds | CloseOfClosed | SendOnClosed | TypeAssertion | UserPanic string

datatype 'a go = Ret 'a | Panic panic

fun go_bind :: "'a go \<Rightarrow> ('a \<Rightarrow> 'b go) \<Rightarrow> 'b go" where
  "go_bind (Ret x) f = f x"
| "go_bind (Panic p) f = Panic p"

lemma go_bind_eq_Ret [simp]: "go_bind m f = Ret y \<longleftrightarrow> (\<exists>x. m = Ret x \<and> f x = Ret y)"
  by (cases m) auto

section \<open>Runs of labelled steps\<close>

text \<open>
  A goroutine that loops around a \<open>select\<close> is a partial step function: \<open>step s e = None\<close>
  when the case that the event \<open>e\<close> names is not ready in \<open>s\<close>. The scheduler's choices are
  the event list.
\<close>

fun run :: "('s \<Rightarrow> 'e \<Rightarrow> 's option) \<Rightarrow> 's \<Rightarrow> 'e list \<Rightarrow> 's option" where
  "run step s [] = Some s"
| "run step s (e # es) = (case step s e of None \<Rightarrow> None | Some t \<Rightarrow> run step t es)"

lemma run_append:
  "run step s (es @ fs) = (case run step s es of None \<Rightarrow> None | Some t \<Rightarrow> run step t fs)"
  by (induction es arbitrary: s) (auto split: option.splits)

lemma run_append_Some:
  "run step s (es @ fs) = Some u \<longleftrightarrow> (\<exists>t. run step s es = Some t \<and> run step t fs = Some u)"
  by (auto simp: run_append split: option.splits)

lemma run_invariant:
  assumes keep: "\<And>s e t. P s \<Longrightarrow> step s e = Some t \<Longrightarrow> P t"
  shows "run step s es = Some t \<Longrightarrow> P s \<Longrightarrow> P t"
  by (induction es arbitrary: s) (auto split: option.splits intro: keep)

lemma run_invariant_on:
  assumes keep: "\<And>s e t. e \<in> A \<Longrightarrow> P s \<Longrightarrow> step s e = Some t \<Longrightarrow> P t"
  shows "run step s es = Some t \<Longrightarrow> set es \<subseteq> A \<Longrightarrow> P s \<Longrightarrow> P t"
  by (induction es arbitrary: s) (auto split: option.splits intro: keep)

text \<open>Induction over a run from its start, with the events so far.\<close>

lemma run_induct [consumes 1, case_names start step]:
  assumes "run step s es = Some t" and "P [] s"
    and "\<And>es t e u. run step s es = Some t \<Longrightarrow> P es t \<Longrightarrow> step t e = Some u \<Longrightarrow> P (es @ [e]) u"
  shows "P es t"
  using assms(1)
proof (induction es arbitrary: t rule: rev_induct)
  case Nil
  with assms(2) show ?case by simp
next
  case (snoc e es)
  then obtain u where u: "run step s es = Some u" "step u e = Some t"
    by (auto simp: run_append_Some split: option.splits)
  with snoc.IH show ?case by (blast intro: assms(3))
qed

section \<open>Lists and association lists\<close>

text \<open>A Go map that is iterated over is an association list: its order is the iteration's.\<close>

definition alist_ok :: "('k \<times> 'v) list \<Rightarrow> bool" where
  "alist_ok m \<longleftrightarrow> distinct (map fst m)"

lemma map_filter_append:
  "List.map_filter f (xs @ ys) = List.map_filter f xs @ List.map_filter f ys"
  by (simp add: List.map_filter_def)

text \<open>The six orders of three different things.\<close>

lemma three_orders:
  assumes "set [f, g, h] = {a, b, c}" and "distinct [a, b, c]"
  shows "[f, g, h] \<in> {[a, b, c], [a, c, b], [b, a, c], [b, c, a], [c, a, b], [c, b, a]}"
proof -
  have "card (set [f, g, h]) = 3" using assms by (simp only: assms(1)) simp
  then have ne: "f \<noteq> g" "f \<noteq> h" "g \<noteq> h" by (auto simp: card_insert_if split: if_splits)
  have "f \<in> {a, b, c}" "g \<in> {a, b, c}" "h \<in> {a, b, c}" using assms(1) by auto
  with ne show ?thesis by auto
qed

lemma alist_ok_map_of: "alist_ok m \<Longrightarrow> (k, v) \<in> set m \<longleftrightarrow> map_of m k = Some v"
  by (auto simp: alist_ok_def)

end
