(* ===== verification/Relay.thy ===== *)
theory Relay
  imports Prelude
begin

text \<open>
  The contract the buffering goroutines of the framework share. Each of them takes messages
  from one channel, keeps them in a slice \<open>pending\<close>, and offers the first one on another
  channel. \<open>relay\<close> says that a step neither loses, invents nor reorders messages;
  \<open>lossless_relay\<close> adds when the goroutine may return; \<open>draining_relay\<close> adds that what is
  pending can always be delivered. The loops of \<open>asocket.go\<close>, \<open>handler.go\<close> and of the v0.11
  package are interpretations of these locales.
\<close>

locale relay =
  fixes step :: "'s \<Rightarrow> 'e \<Rightarrow> 's option"
    and pend :: "'s \<Rightarrow> 'm list"
    and recv :: "'e \<Rightarrow> 'm list"
    and sent :: "'e \<Rightarrow> 'm list"
  assumes conserve: "step s e = Some t \<Longrightarrow> pend s @ recv e = sent e @ pend t"
begin

lemma fifo:
  "run step s es = Some t \<Longrightarrow>
     pend s @ concat (map recv es) = concat (map sent es) @ pend t"
proof (induction es arbitrary: s)
  case Nil
  then show ?case by simp
next
  case (Cons e es)
  then obtain u where u: "step s e = Some u" and r: "run step u es = Some t"
    by (auto split: option.splits)
  have "pend s @ recv e @ concat (map recv es) = sent e @ pend u @ concat (map recv es)"
    using conserve [OF u] by (metis append.assoc)
  also have "\<dots> = sent e @ concat (map sent es) @ pend t"
    using Cons.IH [OF r] by simp
  finally show ?case by simp
qed

lemma delivered_prefix:
  assumes "run step s es = Some t" and "pend s = []"
  shows "prefix (concat (map sent es)) (concat (map recv es))"
  using fifo [OF assms(1)] assms(2) by (auto simp: prefix_def)

lemma nothing_invented:
  assumes "run step s es = Some t"
  shows "set (concat (map sent es)) \<subseteq> set (pend s) \<union> set (concat (map recv es))"
proof -
  have "set (concat (map sent es)) \<subseteq> set (pend s @ concat (map recv es))"
    unfolding fifo [OF assms] by simp
  then show ?thesis by simp
qed

end

locale lossless_relay = relay step pend recv sent
  for step :: "'s \<Rightarrow> 'e \<Rightarrow> 's option"
    and pend :: "'s \<Rightarrow> 'm list"
    and recv :: "'e \<Rightarrow> 'm list"
    and sent :: "'e \<Rightarrow> 'm list" +
  fixes returned :: "'s \<Rightarrow> bool"
    and abort :: "'e \<Rightarrow> bool"
  assumes returned_stuck: "returned s \<Longrightarrow> step s e = None"
    and return_drained:
      "step s e = Some t \<Longrightarrow> returned t \<Longrightarrow> \<not> abort e \<Longrightarrow> pend t = []"
begin

lemma run_return_drained:
  assumes "run step s es = Some t" and "\<not> returned s" and "returned t"
    and "list_all (\<lambda>e. \<not> abort e) es"
  shows "pend t = []"
proof (cases es rule: rev_cases)
  case Nil
  with assms show ?thesis by simp
next
  case (snoc fs e)
  then obtain u where "run step s fs = Some u" and u: "step u e = Some t"
    using assms(1) by (auto simp: run_append split: option.splits)
  have "\<not> abort e" using assms(4) snoc by simp
  with u assms(3) show ?thesis by (rule return_drained)
qed

lemma lossless:
  assumes "run step s es = Some t" and "\<not> returned s" and "pend s = []" and "returned t"
    and "list_all (\<lambda>e. \<not> abort e) es"
  shows "concat (map sent es) = concat (map recv es)"
  using fifo [OF assms(1)] assms(3) run_return_drained [OF assms(1,2,4,5)] by simp

end

locale draining_relay = lossless_relay step pend recv sent returned abort
  for step :: "'s \<Rightarrow> 'e \<Rightarrow> 's option"
    and pend :: "'s \<Rightarrow> 'm list"
    and recv :: "'e \<Rightarrow> 'm list"
    and sent :: "'e \<Rightarrow> 'm list"
    and returned :: "'s \<Rightarrow> bool"
    and abort :: "'e \<Rightarrow> bool" +
  fixes deliver :: "'m \<Rightarrow> 'e"
    and fin :: "'s \<Rightarrow> bool"
  assumes deliver_ready:
      "\<not> returned s \<Longrightarrow> pend s = m # ms \<Longrightarrow>
         \<exists>t. step s (deliver m) = Some t \<and> pend t = ms \<and> fin t = fin s
           \<and> (returned t \<longleftrightarrow> fin s \<and> ms = [])"
begin

lemma drain:
  "\<not> returned s \<Longrightarrow> fin s \<Longrightarrow> pend s \<noteq> [] \<Longrightarrow>
     \<exists>t. run step s (map deliver (pend s)) = Some t \<and> returned t"
proof (induction "pend s" arbitrary: s)
  case Nil
  then show ?case by simp
next
  case (Cons m ms)
  from deliver_ready [OF Cons.prems(1) Cons.hyps(2) [symmetric]]
  obtain u where u: "step s (deliver m) = Some u" "pend u = ms" "fin u"
    and ret: "returned u \<longleftrightarrow> ms = []"
    using Cons.prems(2) by blast
  show ?case
  proof (cases "ms = []")
    case True
    with u ret Cons.hyps(2) show ?thesis by (metis list.simps(8,9) option.case(2) run.simps)
  next
    case False
    with u ret Cons.hyps(1) [of u] obtain t where "run step u (map deliver ms) = Some t" "returned t"
      by auto
    with u Cons.hyps(2) [symmetric] show ?thesis by simp
  qed
qed

end

end
