(* ===== verification/Dispatch.thy ===== *)
theory Dispatch
  imports Prelude
begin

text \<open>
  Method tables and stream descriptions (\<open>cocaine12/dispatch.go\<close>) and the locator's built-in
  service description (\<open>cocaine12/apilocator.go\<close>). A stream description is the graph of a
  conversation: which message types a side may send, and under which description it continues.
\<close>

section \<open>Data\<close>

text \<open>
  A \<open>*streamDescription\<close> is nil (the state repeats) or points to a map from message types to
  items; the items are pointers, so an entry of the map may be nil. The association list is the
  map in its iteration order.
\<close>

datatype stream =
    NilStream
  | Stream "(u64 \<times> item option) list"
and item = Item (Name: string) (Description: stream)

record dispatchItem =
  di_Name :: string
  Downstream :: stream
  Upstream :: stream

type_synonym dispatchMap = "(u64 \<times> dispatchItem) list"

datatype dispatchType = recursiveDispatch | emptyDispatch | otherDispatch

section \<open>Operations\<close>

definition Methods :: "dispatchMap \<Rightarrow> string list" where
  "Methods d = map (\<lambda>(_, v). di_Name v) d"

fun dispatch_MethodByName :: "string \<Rightarrow> dispatchMap \<Rightarrow> goerr + u64" where
  "dispatch_MethodByName name [] = Inl (ErrNoMethod name)"
| "dispatch_MethodByName name ((i, v) # d) =
     (if di_Name v = name then Inr i else dispatch_MethodByName name d)"

fun items_MethodByName :: "string \<Rightarrow> (u64 \<times> item option) list \<Rightarrow> (goerr + u64) go" where
  "items_MethodByName name [] = Ret (Inl (ErrNoMethod name))"
| "items_MethodByName name ((i, v) # s) =
     (case v of
        None \<Rightarrow> Panic NilDeref
      | Some it \<Rightarrow> if Name it = name then Ret (Inr i) else items_MethodByName name s)"

text \<open>Ranging over a nil pointer's map dereferences it and panics.\<close>

fun stream_MethodByName :: "string \<Rightarrow> stream \<Rightarrow> (goerr + u64) go" where
  "stream_MethodByName name NilStream = Panic NilDeref"
| "stream_MethodByName name (Stream s) = items_MethodByName name s"

fun stream_Type :: "stream \<Rightarrow> dispatchType" where
  "stream_Type NilStream = recursiveDispatch"
| "stream_Type (Stream []) = emptyDispatch"
| "stream_Type (Stream _) = otherDispatch"

text \<open>
  \<open>treeMap := *tree; temp := treeMap[method]; temp.Description\<close>: a nil tree, a missing entry
  and a nil entry all end in a nil dereference.
\<close>

fun tree_item :: "stream \<Rightarrow> u64 \<Rightarrow> item go" where
  "tree_item NilStream method = Panic NilDeref"
| "tree_item (Stream s) method =
     (case map_of s method of
        Some (Some it) \<Rightarrow> Ret it
      | _ \<Rightarrow> Panic NilDeref)"

section \<open>The locator's description\<close>

definition emptyDescription :: stream where "emptyDescription = Stream []"
definition recursiveDescription :: stream where "recursiveDescription = NilStream"

definition value_error_stream :: stream where
  "value_error_stream = Stream [(0, Some (Item ''value'' emptyDescription)),
                               (1, Some (Item ''error'' emptyDescription))]"

definition locatorAPI :: dispatchMap where
  "locatorAPI =
     [(0, \<lparr>di_Name = ''resolve'', Downstream = emptyDescription, Upstream = value_error_stream\<rparr>),
      (1, \<lparr>di_Name = ''connect'', Downstream = emptyDescription,
           Upstream = Stream [(0, Some (Item ''write'' recursiveDescription)),
                              (1, Some (Item ''error'' emptyDescription)),
                              (2, Some (Item ''close'' emptyDescription))]\<rparr>),
      (2, \<lparr>di_Name = ''refresh'', Downstream = emptyDescription, Upstream = value_error_stream\<rparr>),
      (3, \<lparr>di_Name = ''cluster'', Downstream = emptyDescription, Upstream = value_error_stream\<rparr>)]"

section \<open>Following a conversation\<close>

text \<open>
  The state both ends of a channel keep: the description in force and whether the stream is
  finished. Taking a message type moves it by the item's description.
\<close>

definition advance :: "stream \<Rightarrow> item \<Rightarrow> stream \<times> bool" where
  "advance tree it =
     (case stream_Type (Description it) of
        emptyDispatch \<Rightarrow> (tree, True)
      | recursiveDispatch \<Rightarrow> (tree, False)
      | otherDispatch \<Rightarrow> (Description it, False))"

text \<open>The message types a conversation may carry, with the item each one follows.\<close>

inductive conversation :: "stream \<Rightarrow> u64 list \<Rightarrow> stream \<Rightarrow> bool \<Rightarrow> bool" where
  conv_start: "conversation tree [] tree False"
| conv_step: "conversation tree ms t False \<Longrightarrow> tree_item t m = Ret it \<Longrightarrow>
     advance t it = (u, d) \<Longrightarrow> conversation tree (ms @ [m]) u d"

inductive_simps conversation_Nil [simp]: "conversation tree [] t d"

section \<open>Lemmas\<close>

lemma dispatch_MethodByName_Inr:
  "dispatch_MethodByName name d = Inr i \<Longrightarrow> \<exists>v. (i, v) \<in> set d \<and> di_Name v = name"
  by (induction name d rule: dispatch_MethodByName.induct) (auto split: if_splits)

lemma dispatch_MethodByName_Inl:
  "dispatch_MethodByName name d = Inl e \<longleftrightarrow> name \<notin> set (Methods d) \<and> e = ErrNoMethod name"
  by (induction name d rule: dispatch_MethodByName.induct) (auto simp: Methods_def)

lemma conversation_finished:
  assumes "conversation tree ms t True"
  shows "\<exists>ns m s. ms = ns @ [m] \<and> conversation tree ns s False"
  using assms by (cases rule: conversation.cases) auto

lemma conversation_prefix:
  "conversation tree ms t d \<Longrightarrow> strict_prefix ns ms \<Longrightarrow> \<exists>s. conversation tree ns s False"
proof (induction arbitrary: ns rule: conversation.induct)
  case (conv_start tree)
  then show ?case by simp
next
  case (conv_step tree ms t m it u d)
  then show ?case by (cases "ns = ms") (auto simp: strict_prefix_def)
qed

end
