(* ===== verification/Protocol.thy ===== *)
theory Protocol
  imports Prelude
begin

text \<open>
  Messages and tracing headers (\<open>cocaine12/protocol.go\<close>). A message carries a session number,
  a message type, a payload and headers; three of the headers may carry a trace, a span and a
  parent identifier. \<open>getTraceData\<close> collects them, \<open>traceInfoToHeaders\<close> writes them.
\<close>

section \<open>Data\<close>

record message =
  Session :: u64
  MsgType :: u64
  Payload :: "gval list"
  Headers :: "gval list"

text \<open>The logger of a trace is a reference (nil when the context brought none).\<close>

record traceinfo =
  Trace :: u64
  Span :: u64
  Parent :: u64
  logger :: "nat option"

definition traceinfo0 :: traceinfo where
  "traceinfo0 = \<lparr>Trace = 0, Span = 0, Parent = 0, logger = None\<rparr>"

definition traceId :: u64 where "traceId = 80"
definition spanId :: u64 where "spanId = 81"
definition parentId :: u64 where "parentId = 82"

definition traceIdName :: bytes where "traceIdName = bytes_of_string ''trace_id''"
definition spanIdName :: bytes where "spanIdName = bytes_of_string ''span_id''"
definition parentIdName :: bytes where "parentIdName = bytes_of_string ''parent_id''"

definition traceValueMap :: "u64 list" where
  "traceValueMap = [traceId, spanId, parentId]"

lemmas trace_ids = traceId_def spanId_def parentId_def traceValueMap_def

section \<open>Reading one header\<close>

text \<open>The cases of the type switches that convert a number to \<open>uint64\<close>.\<close>

fun header_number :: "gval \<Rightarrow> u64 option" where
  "header_number (GUint n) = Some n"
| "header_number (GUint32 n) = Some (ucast n)"
| "header_number (GUint64 n) = Some n"
| "header_number (GInt n) = Some n"
| "header_number (GInt32 n) = Some (scast n)"
| "header_number (GInt64 n) = Some n"
| "header_number _ = None"

definition decodeRawTraceName :: "slice \<Rightarrow> goerr + u64" where
  "decodeRawTraceName name =
     (if slice_bytes name = traceIdName then Inr traceId
      else if slice_bytes name = spanIdName then Inr spanId
      else if slice_bytes name = parentIdName then Inr parentId
      else Inl ErrInvalidTraceType)"

definition tuple_number :: "gval \<Rightarrow> goerr + u64" where
  "tuple_number v =
     (case header_number v of
        Some n \<Rightarrow> Inr n
      | None \<Rightarrow> (case v of GBytes name \<Rightarrow> decodeRawTraceName name
                | _ \<Rightarrow> Inl ErrInvalidTraceType))"

fun tuple_value :: "gval \<Rightarrow> goerr + slice" where
  "tuple_value (GBytes val) = Inr val"
| "tuple_value (GString val) = Inr (Some (bytes_of_string val))"
| "tuple_value _ = Inl ErrInvalidTraceValueType"

definition getTrace :: "gval \<Rightarrow> goerr + u64 \<times> slice" where
  "getTrace header =
     (case header_number header of
        Some n \<Rightarrow> Inr (n, None)
      | None \<Rightarrow>
        (case header of
           GSlice t \<Rightarrow>
             (if length t \<noteq> 3 then Inl ErrInvalidHeaderLength
              else case tuple_number (t ! 1) of
                Inl e \<Rightarrow> Inl e
              | Inr traceNum \<Rightarrow>
                  if traceNum \<notin> set traceValueMap then Inl ErrInvalidTraceNumber
                  else (case tuple_value (t ! 2) of
                          Inl e \<Rightarrow> Inl e
                        | Inr traceVal \<Rightarrow> Inr (traceNum, traceVal)))
         | _ \<Rightarrow> Inl ErrInvalidHeaderType))"

text \<open>\<open>binary.Read\<close> of a \<open>uint64\<close>: it needs eight bytes and ignores what follows them.\<close>

definition decodeTracingId :: "slice \<Rightarrow> u64 \<times> goerr option" where
  "decodeTracingId b =
     (let bs = slice_bytes b in
      if bs = [] then (0, Some EOF)
      else if length bs < 8 then (0, Some ErrUnexpectedEOF)
      else (le_word (take 8 bs), None))"

section \<open>Collecting and writing the trace\<close>

fun getTraceData_loop :: "gval list \<Rightarrow> traceinfo \<Rightarrow> nat \<Rightarrow> traceinfo \<times> goerr option" where
  "getTraceData_loop [] ti i = (ti, Some ErrNotAllTracesPresent)"
| "getTraceData_loop (h # hs) ti i =
     (case getTrace h of
        Inl zerr \<Rightarrow> getTraceData_loop hs ti i
      | Inr (number, buffer) \<Rightarrow>
          if number = traceId then
            (case decodeTracingId buffer of (v, err) \<Rightarrow>
               if err \<noteq> None then (ti\<lparr>Trace := v\<rparr>, err)
               else if Suc i = 3 then (ti\<lparr>Trace := v\<rparr>, None)
               else getTraceData_loop hs (ti\<lparr>Trace := v\<rparr>) (Suc i))
          else if number = spanId then
            (case decodeTracingId buffer of (v, err) \<Rightarrow>
               if err \<noteq> None then (ti\<lparr>Span := v\<rparr>, err)
               else if Suc i = 3 then (ti\<lparr>Span := v\<rparr>, None)
               else getTraceData_loop hs (ti\<lparr>Span := v\<rparr>) (Suc i))
          else if number = parentId then
            (case (if buffer = None then (0, None) else decodeTracingId buffer) of (v, err) \<Rightarrow>
               if err \<noteq> None then (ti\<lparr>Parent := v\<rparr>, err)
               else if Suc i = 3 then (ti\<lparr>Parent := v\<rparr>, None)
               else getTraceData_loop hs (ti\<lparr>Parent := v\<rparr>) (Suc i))
          else getTraceData_loop hs ti i)"

definition getTraceData :: "gval list \<Rightarrow> traceinfo \<times> goerr option" where
  "getTraceData h = getTraceData_loop h traceinfo0 0"

text \<open>\<open>binary.Write\<close> into a \<open>bytes.Buffer\<close> does not fail; each header is the buffer's tail.\<close>

definition traceInfoToHeaders :: "traceinfo \<Rightarrow> gval list" where
  "traceInfoToHeaders info =
     (let buff1 = le_bytes 8 (Trace info); offset1 = length buff1;
          buff2 = buff1 @ le_bytes 8 (Span info); offset2 = length buff2;
          buff3 = buff2 @ le_bytes 8 (Parent info)
      in [GSlice [GBool False, GInt traceId, GBytes (Some (drop 0 buff1))],
          GSlice [GBool False, GInt spanId, GBytes (Some (drop offset1 buff2))],
          GSlice [GBool False, GInt parentId, GBytes (Some (drop offset2 buff3))]])"

section \<open>An abstract specification of the collection\<close>

text \<open>
  A header is recognised when \<open>getTrace\<close> accepts it and its number is one of the three. The
  specification takes the first three recognised headers and applies them in order.
\<close>

definition trace_field :: "gval \<Rightarrow> (u64 \<times> slice) option" where
  "trace_field h =
     (case getTrace h of
        Inl e \<Rightarrow> None
      | Inr (n, b) \<Rightarrow> if n \<in> set traceValueMap then Some (n, b) else None)"

definition field_value :: "u64 \<times> slice \<Rightarrow> u64 \<times> goerr option" where
  "field_value f = (if fst f = parentId \<and> snd f = None then (0, None) else decodeTracingId (snd f))"

definition set_field :: "u64 \<Rightarrow> u64 \<Rightarrow> traceinfo \<Rightarrow> traceinfo" where
  "set_field n v ti =
     (if n = traceId then ti\<lparr>Trace := v\<rparr> else if n = spanId then ti\<lparr>Span := v\<rparr>
      else ti\<lparr>Parent := v\<rparr>)"

fun apply_fields :: "(u64 \<times> slice) list \<Rightarrow> traceinfo \<Rightarrow> traceinfo \<times> goerr option" where
  "apply_fields [] ti = (ti, None)"
| "apply_fields (f # fs) ti =
     (case field_value f of (v, err) \<Rightarrow>
        if err \<noteq> None then (set_field (fst f) v ti, err)
        else apply_fields fs (set_field (fst f) v ti))"

definition traces_of :: "gval list \<Rightarrow> (u64 \<times> slice) list" where
  "traces_of hs = take 3 (List.map_filter trace_field hs)"

definition getTraceData_spec :: "gval list \<Rightarrow> traceinfo \<times> goerr option" where
  "getTraceData_spec hs =
     (case apply_fields (traces_of hs) traceinfo0 of (ti, err) \<Rightarrow>
        (ti, if err = None \<and> length (traces_of hs) < 3 then Some ErrNotAllTracesPresent else err))"

section \<open>Lemmas\<close>

lemma getTraceData_loop_Cons:
  "getTraceData_loop (h # hs) ti i =
     (case trace_field h of
        None \<Rightarrow> getTraceData_loop hs ti i
      | Some f \<Rightarrow> (case field_value f of (v, err) \<Rightarrow>
          if err \<noteq> None then (set_field (fst f) v ti, err)
          else if Suc i = 3 then (set_field (fst f) v ti, None)
          else getTraceData_loop hs (set_field (fst f) v ti) (Suc i)))"
  by (auto simp: trace_field_def field_value_def set_field_def trace_ids
      split: sum.splits prod.splits if_splits)

lemma getTraceData_loop_eq:
  "i < 3 \<Longrightarrow> getTraceData_loop hs ti i =
     (let fs = take (3 - i) (List.map_filter trace_field hs) in
      case apply_fields fs ti of (t, err) \<Rightarrow>
        (t, if err = None \<and> length fs < 3 - i then Some ErrNotAllTracesPresent else err))"
proof (induction hs arbitrary: ti i)
  case Nil
  then show ?case by (simp add: List.map_filter_def)
next
  case (Cons h hs)
  show ?case
  proof (cases "trace_field h")
    case None
    with Cons show ?thesis
      by (simp only: getTraceData_loop_Cons map_filter_simps option.case)
  next
    case (Some f)
    obtain v err where f: "field_value f = (v, err)" by (cases "field_value f")
    have d: "3 - i = Suc (3 - Suc i)" using Cons.prems by simp
    show ?thesis
    proof (cases "err \<noteq> None \<or> Suc i = 3")
      case True
      with Some f Cons.prems show ?thesis
        by (auto simp: getTraceData_loop_Cons map_filter_simps d simp del: getTraceData_loop.simps)
    next
      case False
      with Cons.prems have "Suc i < 3" by simp
      from Cons.IH [OF this] Some f False show ?thesis
        by (simp add: getTraceData_loop_Cons map_filter_simps d Let_def split: prod.splits
            del: getTraceData_loop.simps)
    qed
  qed
qed

lemma getTraceData_fields:
  "getTraceData hs =
     (case apply_fields (traces_of hs) traceinfo0 of (ti, err) \<Rightarrow>
        (ti, if err = None \<and> length (traces_of hs) < 3 then Some ErrNotAllTracesPresent else err))"
  using getTraceData_loop_eq [of 0 hs traceinfo0]
  by (simp only: getTraceData_def traces_of_def Let_def diff_zero zero_less_numeral simp_thms)

lemma decodeTracingId_le_bytes [simp]: "decodeTracingId (Some (le_bytes 8 w)) = (w, None)"
proof -
  have "le_bytes 8 w \<noteq> []" by (metis length_le_bytes list.size(3) zero_neq_numeral)
  then show ?thesis by (simp add: decodeTracingId_def)
qed

lemma trace_field_tuple [simp]:
  "n \<in> set traceValueMap \<Longrightarrow>
     trace_field (GSlice [x, GInt n, GBytes b]) = Some (n, b)"
  by (simp add: trace_field_def getTrace_def tuple_number_def)

lemma trace_fields_traceInfoToHeaders:
  "List.map_filter trace_field (traceInfoToHeaders ti) =
     [(traceId, Some (le_bytes 8 (Trace ti))), (spanId, Some (le_bytes 8 (Span ti))),
      (parentId, Some (le_bytes 8 (Parent ti)))]"
  by (simp add: traceInfoToHeaders_def map_filter_simps Let_def)
     (simp add: traceValueMap_def)

lemma apply_fields_permuted:
  assumes "set fs = {(traceId, a), (spanId, b), (parentId, c)}" and "length fs \<le> 3"
    and "decodeTracingId a = (x, None)" and "decodeTracingId b = (y, None)"
    and "field_value (parentId, c) = (z, None)"
  shows "apply_fields fs ti = (ti\<lparr>Trace := x, Span := y, Parent := z\<rparr>, None)"
proof -
  have three: "card (set fs) = 3" using assms(1) by (simp add: trace_ids)
  then have "length fs = 3" using assms(2) card_length [of fs] by simp
  then obtain f g h where fs: "fs = [f, g, h]"
    by (auto simp: numeral_3_eq_3 length_Suc_conv)
  have v: "field_value (traceId, a) = (x, None)" "field_value (spanId, b) = (y, None)"
    using assms(3,4) by (simp_all add: field_value_def trace_ids)
  have ids: "traceId \<noteq> spanId" "traceId \<noteq> parentId" "spanId \<noteq> parentId"
    by (simp_all add: trace_ids)
  have "[f, g, h] \<in> {[(traceId, a), (spanId, b), (parentId, c)],
      [(traceId, a), (parentId, c), (spanId, b)], [(spanId, b), (traceId, a), (parentId, c)],
      [(spanId, b), (parentId, c), (traceId, a)], [(parentId, c), (traceId, a), (spanId, b)],
      [(parentId, c), (spanId, b), (traceId, a)]}"
    by (rule three_orders) (use assms(1) fs ids in simp_all)
  then show ?thesis
    using fs v assms(5) ids by (auto simp: set_field_def)
qed

text \<open>Collecting what \<open>traceInfoToHeaders\<close> wrote, and skipping headers that are not recognised.\<close>

lemma collect_headers: "getTraceData (traceInfoToHeaders ti @ post) = (ti\<lparr>logger := None\<rparr>, None)"
proof -
  have "traces_of (traceInfoToHeaders ti @ post) =
      [(traceId, Some (le_bytes 8 (Trace ti))), (spanId, Some (le_bytes 8 (Span ti))),
       (parentId, Some (le_bytes 8 (Parent ti)))]"
    by (simp add: traces_of_def map_filter_append trace_fields_traceInfoToHeaders)
  then show ?thesis
    by (simp add: getTraceData_fields field_value_def set_field_def traceinfo0_def trace_ids)
qed

lemma collect_after:
  assumes "list_all (\<lambda>h. trace_field h = None) pre"
  shows "getTraceData (pre @ hs) = getTraceData hs"
proof -
  have "List.map_filter trace_field pre = []"
    using assms by (induction pre) (auto simp: map_filter_simps)
  then have "traces_of (pre @ hs) = traces_of hs" by (simp add: traces_of_def map_filter_append)
  then show ?thesis by (simp add: getTraceData_fields)
qed

section \<open>Properties\<close>

text \<open>The collection loop computes the specification: the first three recognised headers,
  applied in order, an error from a malformed identifier ending it, and
  \<open>ErrNotAllTracesPresent\<close> when fewer than three are recognised.\<close>

theorem getTraceData_refines: "getTraceData hs = getTraceData_spec hs"
  by (simp only: getTraceData_fields getTraceData_spec_def)

text \<open>Writing a trace into headers and collecting it gives the trace back (without its
  logger), wherever unrecognised headers stand before and whatever follows.\<close>

theorem traceinfo_roundtrip:
  assumes "list_all (\<lambda>h. trace_field h = None) pre"
  shows "getTraceData (pre @ traceInfoToHeaders ti @ post) = (ti\<lparr>logger := None\<rparr>, None)"
  using collect_after [of pre] collect_headers assms by simp

theorem traceinfo_roundtrip_witness:
  "list_all (\<lambda>h. trace_field h = None) [GUint64 7, GString ''x''] \<and>
   getTraceData ([GUint64 7, GString ''x''] @
     traceInfoToHeaders \<lparr>Trace = 100, Span = 200, Parent = 300, logger = Some 5\<rparr> @ []) =
     (\<lparr>Trace = 100, Span = 200, Parent = 300, logger = None\<rparr>, None)"
proof -
  have h: "list_all (\<lambda>h. trace_field h = None) [GUint64 7, GString ''x'']"
    by (simp add: trace_field_def getTrace_def trace_ids)
  show ?thesis
    using h traceinfo_roundtrip [OF h, of "\<lparr>Trace = 100, Span = 200, Parent = 300, logger = Some 5\<rparr>" "[]"]
    by simp
qed

text \<open>The order of the three headers, and headers of other kinds among them, do not matter.\<close>

theorem getTraceData_any_order:
  assumes "set (traces_of hs) = {(traceId, a), (spanId, b), (parentId, c)}"
    and "decodeTracingId a = (x, None)" and "decodeTracingId b = (y, None)"
    and "field_value (parentId, c) = (z, None)"
  shows "getTraceData hs = (\<lparr>Trace = x, Span = y, Parent = z, logger = None\<rparr>, None)"
proof -
  have len: "length (traces_of hs) \<le> 3" by (simp add: traces_of_def)
  have "card (set (traces_of hs)) = 3" using assms(1) by (simp add: trace_ids)
  then have "\<not> length (traces_of hs) < 3" using card_length [of "traces_of hs"] by simp
  with apply_fields_permuted [OF assms(1) len assms(2-4), of traceinfo0]
  show ?thesis by (simp add: getTraceData_fields traceinfo0_def)
qed

theorem getTraceData_any_order_witness:
  "getTraceData
     [GInt 82, GBool True,
      GSlice [GBool False, GBytes (Some spanIdName), GBytes (Some (le_bytes 8 99999))],
      GSlice [GBool False, GUint32 80, GString (string_of_bytes (le_bytes 8 124))]] =
     (\<lparr>Trace = 124, Span = 99999, Parent = 0, logger = None\<rparr>, None)"
  (is "getTraceData ?hs = _")
proof -
  have "traces_of ?hs = [(parentId, None), (spanId, Some (le_bytes 8 99999)),
          (traceId, Some (le_bytes 8 124))]"
    by (simp add: traces_of_def map_filter_simps trace_field_def getTrace_def tuple_number_def
        decodeRawTraceName_def trace_ids spanIdName_def traceIdName_def
        bytes_of_string_def [of "_ # _"])
  then have "set (traces_of ?hs) =
      {(traceId, Some (le_bytes 8 124)), (spanId, Some (le_bytes 8 99999)), (parentId, None)}"
    by auto
  from getTraceData_any_order [OF this decodeTracingId_le_bytes decodeTracingId_le_bytes, of 0]
  show ?thesis by (simp add: field_value_def)
qed

text \<open>The loop counts recognised headers and does not ask that they be the three different
  ones: a trace header repeated three times is accepted, with span and parent left zero.\<close>

theorem getTraceData_repeated_header:
  "getTraceData (replicate 3 (GSlice [GBool False, GInt traceId, GBytes (Some (le_bytes 8 w))])) =
     (traceinfo0\<lparr>Trace := w\<rparr>, None)"
proof -
  have "traces_of
      (replicate 3 (GSlice [GBool False, GInt traceId, GBytes (Some (le_bytes 8 w))])) =
      replicate 3 (traceId, Some (le_bytes 8 w))"
    by (simp add: traces_of_def numeral_3_eq_3 map_filter_simps) (simp add: traceValueMap_def)
  then show ?thesis
    by (simp add: getTraceData_fields) (simp add: numeral_3_eq_3 field_value_def set_field_def trace_ids)
qed

end
