(* ===== verification/Channel.thy ===== *)
theory Channel
  imports Relay Dispatch Protocol
begin

text \<open>
  A client's channel (\<open>cocaine12/channel.go\<close>): \<open>rx\<close>, where the service's loop pushes results and
  any number of goroutines call \<open>Get\<close>, and \<open>tx\<close>, which sends further messages of the session.
  \<open>push\<close> and \<open>Get\<close> meet in a channel of capacity one (\<open>rx_pushBuffer\<close>) with an overflow slice
  under a lock. A call of \<open>Get\<close> is a small program; its atomic pieces are events here, so that
  every interleaving of pushes and readers is a run. Results (\<open>serviceRes\<close>) are those of
  \<open>cocaine12/service.go\<close>.
\<close>

section \<open>Results\<close>

record serviceRes =
  sr_payload :: "gval list"
  sr_method :: u64
  sr_err :: "goerr option"

text \<open>
  \<open>convertPayload\<close> re-encodes the payload with the msgpack codec into the caller's target: a
  parameter, with the target's type as its result type.
\<close>

definition serviceRes_Extract :: "(gval list \<Rightarrow> goerr + 'a) \<Rightarrow> serviceRes \<Rightarrow> goerr + 'a" where
  "serviceRes_Extract convertPayload s =
     (case sr_err s of Some e \<Rightarrow> Inl e | None \<Rightarrow> convertPayload (sr_payload s))"

definition serviceRes_setError :: "goerr \<Rightarrow> serviceRes \<Rightarrow> serviceRes" where
  "serviceRes_setError e s = s\<lparr>sr_err := Some e\<rparr>"

text \<open>\<open>ExtractTuple\<close> extracts into the slice of its arguments.\<close>

definition serviceRes_ExtractTuple :: "(gval list \<Rightarrow> goerr + 'a list) \<Rightarrow> serviceRes \<Rightarrow> goerr + 'a list" where
  "serviceRes_ExtractTuple convertPayload s = serviceRes_Extract convertPayload s"

definition serviceRes_Result :: "serviceRes \<Rightarrow> u64 \<times> gval list \<times> goerr option" where
  "serviceRes_Result s = (sr_method s, sr_payload s, sr_err s)"

definition serviceRes_Error :: "(goerr \<Rightarrow> string) \<Rightarrow> serviceRes \<Rightarrow> string" where
  "serviceRes_Error Error s = (case sr_err s of None \<Rightarrow> ''<nil>'' | Some e \<Rightarrow> Error e)"

type_synonym errConvert = "gval list \<Rightarrow> goerr + i64 \<times> i64 \<times> string"

section \<open>The receiving half\<close>

text \<open>Where a goroutine inside \<open>Get\<close> is.\<close>

datatype getPc =
    Outside
  | Locking \<comment> \<open>the fast path found nothing\<close>
  | Waiting \<comment> \<open>blocked in the second \<open>select\<close>\<close>
  | Got serviceRes

record rx =
  rx_pushBuffer :: "serviceRes option"
  rx_tree :: stream
  rx_id :: u64
  rx_queue :: "serviceRes list"
  rx_done :: bool
  rx_pc :: "nat \<Rightarrow> getPc"
  rx_crash :: "panic option"

definition newRx :: "stream \<Rightarrow> u64 \<Rightarrow> rx" where
  "newRx tree i = \<lparr>rx_pushBuffer = None, rx_tree = tree, rx_id = i, rx_queue = [], rx_done = False,
     rx_pc = (\<lambda>_. Outside), rx_crash = None\<rparr>"

text \<open>The non-blocking send of the head of the queue, used by both sides under the lock.\<close>

definition rx_refill :: "rx \<Rightarrow> rx" where
  "rx_refill r =
     (case (rx_pushBuffer r, rx_queue r) of
        (None, first # rest) \<Rightarrow> r\<lparr>rx_pushBuffer := Some first, rx_queue := rest\<rparr>
      | _ \<Rightarrow> r)"

definition rx_push_locked :: "serviceRes \<Rightarrow> rx \<Rightarrow> rx" where
  "rx_push_locked res r = rx_refill (r\<lparr>rx_queue := rx_queue r @ [res]\<rparr>)"

text \<open>
  The second half of \<open>push\<close>: whether the session is to be detached, decided with the tree in
  force at that moment.
\<close>

definition rx_push_detaches :: "serviceRes \<Rightarrow> rx \<Rightarrow> bool go" where
  "rx_push_detaches res r =
     go_bind (tree_item (rx_tree r) (sr_method res)) (\<lambda>temp.
       Ret (stream_Type (Description temp) = emptyDispatch))"

text \<open>The tail of \<open>Get\<close>, once it holds a result.\<close>

definition rx_process :: "errConvert \<Rightarrow> serviceRes \<Rightarrow> rx \<Rightarrow> (rx \<times> serviceRes \<times> goerr option) go" where
  "rx_process convertPayload res r =
     go_bind (tree_item (rx_tree r) (sr_method res)) (\<lambda>temp.
       let r' = (case stream_Type (Description temp) of
                   emptyDispatch \<Rightarrow> r\<lparr>rx_done := True\<rparr>
                 | recursiveDispatch \<Rightarrow> r
                 | otherDispatch \<Rightarrow> r\<lparr>rx_tree := Description temp\<rparr>)
       in if Name temp = ''error'' then
            (case serviceRes_Extract convertPayload res of
               Inl err \<Rightarrow> Ret (r', res, Some err)
             | Inr (category, code, text) \<Rightarrow>
                 Ret (r', serviceRes_setError (ErrRequest text category code) res, None))
          else Ret (r', res, None))"

datatype rxevent =
    RxPush serviceRes
  | RxStart nat
  | RxFast nat serviceRes
  | RxLock nat
  | RxTake nat serviceRes
  | RxCtxDone nat
  | RxFinish nat

fun rx_step :: "errConvert \<Rightarrow> rx \<Rightarrow> rxevent \<Rightarrow> rx option" where
  "rx_step conv r (RxPush res) = (if rx_crash r = None then Some (rx_push_locked res r) else None)"
| "rx_step conv r (RxStart n) =
     (if rx_crash r = None \<and> rx_pc r n = Outside \<and> \<not> rx_done r \<and> rx_pushBuffer r = None
      then Some (r\<lparr>rx_pc := (rx_pc r)(n := Locking)\<rparr>) else None)"
| "rx_step conv r (RxFast n res) =
     (if rx_crash r = None \<and> rx_pc r n = Outside \<and> \<not> rx_done r \<and> rx_pushBuffer r = Some res
      then Some (r\<lparr>rx_pushBuffer := None, rx_pc := (rx_pc r)(n := Got res)\<rparr>) else None)"
| "rx_step conv r (RxLock n) =
     (if rx_crash r = None \<and> rx_pc r n = Locking
      then Some ((rx_refill r)\<lparr>rx_pc := (rx_pc r)(n := Waiting)\<rparr>) else None)"
| "rx_step conv r (RxTake n res) =
     (if rx_crash r = None \<and> rx_pc r n = Waiting \<and> rx_pushBuffer r = Some res
      then Some (r\<lparr>rx_pushBuffer := None, rx_pc := (rx_pc r)(n := Got res)\<rparr>) else None)"
| "rx_step conv r (RxCtxDone n) =
     (if rx_crash r = None \<and> rx_pc r n = Waiting
      then Some (r\<lparr>rx_pc := (rx_pc r)(n := Outside)\<rparr>) else None)"
| "rx_step conv r (RxFinish n) =
     (case rx_pc r n of
        Got res \<Rightarrow>
          if rx_crash r = None then
            (case rx_process conv res r of
               Panic p \<Rightarrow> Some (r\<lparr>rx_crash := Some p\<rparr>)
             | Ret (r', _, _) \<Rightarrow> Some (r'\<lparr>rx_pc := (rx_pc r')(n := Outside)\<rparr>))
          else None
      | _ \<Rightarrow> None)"

text \<open>
  \<open>Get\<close> called by one goroutine with nobody in between: None when it would wait for a push.
\<close>

definition rx_Get :: "errConvert \<Rightarrow> rx \<Rightarrow> (rx \<times> (goerr + serviceRes \<times> goerr option)) go option" where
  "rx_Get conv r =
     (if rx_done r then Some (Ret (r, Inl ErrStreamIsClosed))
      else let r' = rx_refill r in
        (case rx_pushBuffer r' of
           None \<Rightarrow> None
         | Some res \<Rightarrow> Some (go_bind (rx_process conv res (r'\<lparr>rx_pushBuffer := None\<rparr>))
               (\<lambda>(r'', res', err). Ret (r'', Inr (res', err))))))"

section \<open>The sending half\<close>

record tx =
  tx_tree :: stream
  tx_id :: u64
  tx_done :: bool
  tx_headers :: "gval list"

definition newTx :: "stream \<Rightarrow> u64 \<Rightarrow> gval list \<Rightarrow> tx" where
  "newTx tree i headers = \<lparr>tx_tree = tree, tx_id = i, tx_done = False, tx_headers = headers\<rparr>"

definition tx_Call :: "string \<Rightarrow> gval list \<Rightarrow> tx \<Rightarrow> (tx \<times> (goerr + message)) go" where
  "tx_Call name args t =
     (if tx_done t then Ret (t, Inl ErrTxDone)
      else go_bind (stream_MethodByName name (tx_tree t)) (\<lambda>r.
        case r of
          Inl err \<Rightarrow> Ret (t, Inl err)
        | Inr method \<Rightarrow>
            go_bind (tree_item (tx_tree t) method) (\<lambda>temp.
              let t' = (case stream_Type (Description temp) of
                          emptyDispatch \<Rightarrow> t\<lparr>tx_done := True\<rparr>
                        | recursiveDispatch \<Rightarrow> t
                        | otherDispatch \<Rightarrow> t\<lparr>tx_tree := Description temp\<rparr>)
              in Ret (t', Inr \<lparr>Session = tx_id t, MsgType = method, Payload = args,
                               Headers = tx_headers t\<rparr>))))"

section \<open>First in, first out\<close>

definition rx_pending :: "rx \<Rightarrow> serviceRes list" where
  "rx_pending r = (case rx_pushBuffer r of None \<Rightarrow> [] | Some res \<Rightarrow> [res]) @ rx_queue r"

fun rx_pushed :: "rxevent \<Rightarrow> serviceRes list" where
  "rx_pushed (RxPush res) = [res]"
| "rx_pushed _ = []"

fun rx_taken :: "rxevent \<Rightarrow> serviceRes list" where
  "rx_taken (RxFast n res) = [res]"
| "rx_taken (RxTake n res) = [res]"
| "rx_taken _ = []"

lemma rx_refill_simps [simp]:
  "rx_pending (rx_refill r) = rx_pending r" "rx_tree (rx_refill r) = rx_tree r"
  "rx_done (rx_refill r) = rx_done r" "rx_pc (rx_refill r) = rx_pc r" "rx_id (rx_refill r) = rx_id r"
  "rx_crash (rx_refill r) = rx_crash r"
  "rx_pushBuffer (rx_refill r) = None \<longleftrightarrow> rx_pending r = []"
  by (auto simp: rx_refill_def rx_pending_def split: option.splits list.splits)

lemma rx_push_simps [simp]:
  "rx_pending (rx_push_locked res r) = rx_pending r @ [res]" "rx_tree (rx_push_locked res r) = rx_tree r"
  "rx_done (rx_push_locked res r) = rx_done r" "rx_pc (rx_push_locked res r) = rx_pc r"
  "rx_crash (rx_push_locked res r) = rx_crash r" "rx_pushBuffer (rx_push_locked res r) \<noteq> None"
  "rx_id (rx_push_locked res r) = rx_id r"
  by (simp_all add: rx_push_locked_def) (simp_all add: rx_pending_def)

lemma rx_pending_frame:
  "rx_pushBuffer s = rx_pushBuffer r \<Longrightarrow> rx_queue s = rx_queue r \<Longrightarrow> rx_pending s = rx_pending r"
  by (simp add: rx_pending_def)

lemma rx_pending_pc [simp]: "rx_pending (r\<lparr>rx_pc := f\<rparr>) = rx_pending r"
  by (simp add: rx_pending_def)

lemma rx_process_frame:
  "rx_process conv res r = Ret (s, out) \<Longrightarrow> rx_pushBuffer s = rx_pushBuffer r \<and>
     rx_queue s = rx_queue r \<and> rx_pc s = rx_pc r \<and> rx_crash s = rx_crash r \<and> rx_id s = rx_id r \<and>
     (\<exists>it. tree_item (rx_tree r) (sr_method res) = Ret it \<and>
        (rx_tree s, rx_done s) = (fst (advance (rx_tree r) it), rx_done r \<or> snd (advance (rx_tree r) it)))"
  by (cases "tree_item (rx_tree r) (sr_method res)")
     (auto simp: rx_process_def advance_def Let_def split: sum.splits if_splits dispatchType.splits)

interpretation cx: relay "rx_step conv" rx_pending rx_pushed rx_taken
proof unfold_locales
  show "rx_pending r @ rx_pushed e = rx_taken e @ rx_pending s" if "rx_step conv r e = Some s" for r s e
  proof (cases e)
    case (RxFinish n)
    with that show ?thesis
      by (auto split: getPc.splits go.splits if_splits dest!: rx_process_frame intro!: rx_pending_frame)
  next
    case (RxLock n)
    with that show ?thesis by (auto split: if_splits)
  qed (use that in \<open>auto simp: rx_pending_def split: if_splits\<close>, auto simp: rx_pending_def [symmetric])
qed

section \<open>One reader\<close>

fun rx_reader :: "rxevent \<Rightarrow> nat set" where
  "rx_reader (RxPush res) = {}"
| "rx_reader (RxStart n) = {n}"
| "rx_reader (RxFast n res) = {n}"
| "rx_reader (RxLock n) = {n}"
| "rx_reader (RxTake n res) = {n}"
| "rx_reader (RxCtxDone n) = {n}"
| "rx_reader (RxFinish n) = {n}"

text \<open>While the reader waits, nothing sits in the queue behind an empty buffer.\<close>

definition no_lost_wakeup :: "nat \<Rightarrow> rx \<Rightarrow> bool" where
  "no_lost_wakeup n r \<longleftrightarrow> (rx_pc r n = Waiting \<longrightarrow> rx_pushBuffer r = None \<longrightarrow> rx_pending r = [])"

lemma rx_process_pc: "rx_process conv res r = Ret (s, out) \<Longrightarrow> rx_pc s = rx_pc r"
  by (auto dest: rx_process_frame)

lemma no_lost_wakeup_step:
  assumes "rx_step conv r e = Some s" and "no_lost_wakeup n r" and "rx_reader e \<subseteq> {n}"
  shows "no_lost_wakeup n s"
  using assms
  by (cases e) (auto simp: no_lost_wakeup_def rx_process_pc
      split: if_splits getPc.splits go.splits prod.splits)

lemma no_lost_wakeup_run:
  assumes "run (rx_step conv) (newRx tree i) es = Some r" and "\<forall>e \<in> set es. rx_reader e \<subseteq> {n}"
  shows "no_lost_wakeup n r"
  by (rule run_invariant_on [OF _ assms(1), where A = "{e. rx_reader e \<subseteq> {n}}"])
     (use assms(2) in \<open>auto intro: no_lost_wakeup_step\<close>, simp add: no_lost_wakeup_def newRx_def)

text \<open>The results a single reader has finished processing.\<close>

definition rx_inflight :: "nat \<Rightarrow> rx \<Rightarrow> serviceRes list" where
  "rx_inflight n r = (case rx_pc r n of Got res \<Rightarrow> [res] | _ \<Rightarrow> [])"

definition rx_follows :: "stream \<Rightarrow> nat \<Rightarrow> rxevent list \<Rightarrow> rx \<Rightarrow> bool" where
  "rx_follows tree n es r \<longleftrightarrow> (rx_crash r = None \<longrightarrow>
     (rx_done r \<longrightarrow> rx_pc r n = Outside) \<and>
     (\<exists>fin. concat (map rx_taken es) = fin @ rx_inflight n r \<and>
        conversation tree (map sr_method fin) (rx_tree r) (rx_done r)))"

lemma rx_follows_finish:
  assumes "rx_step conv r (RxFinish n) = Some s" and "rx_follows tree n es r"
  shows "rx_follows tree n (es @ [RxFinish n]) s"
proof -
  obtain res where res: "rx_pc r n = Got res" "rx_crash r = None"
    using assms(1) by (auto split: getPc.splits if_splits)
  show ?thesis
  proof (cases "rx_process conv res r")
    case (Panic p)
    with res assms(1) show ?thesis by (auto simp: rx_follows_def)
  next
    case (Ret out)
    obtain u x err where u: "rx_process conv res r = Ret (u, x, err)" using Ret by (cases out) auto
    note frame = rx_process_frame [OF u]
    from res u assms(1) have s: "s = u\<lparr>rx_pc := (rx_pc u)(n := Outside)\<rparr>" by simp
    obtain fin where fin: "concat (map rx_taken es) = fin @ [res]"
        "conversation tree (map sr_method fin) (rx_tree r) False" and nd: "\<not> rx_done r"
      using assms(2) res by (auto simp: rx_follows_def rx_inflight_def)
    obtain it where it: "tree_item (rx_tree r) (sr_method res) = Ret it"
        "advance (rx_tree r) it = (rx_tree u, rx_done u)"
      using frame nd by (auto simp: prod_eq_iff)
    have "conversation tree (map sr_method fin @ [sr_method res]) (rx_tree u) (rx_done u)"
      by (rule conv_step [OF fin(2) it])
    then show ?thesis
      unfolding rx_follows_def s rx_inflight_def using fin(1)
      by (intro impI conjI exI [of _ "fin @ [res]"]) simp_all
  qed
qed

lemma rx_follows_step:
  assumes "rx_step conv r e = Some s" and "rx_follows tree n es r" and "rx_reader e \<subseteq> {n}"
  shows "rx_follows tree n (es @ [e]) s"
proof (cases e)
  case (RxFinish m)
  then have "e = RxFinish n" using assms(3) by simp
  with assms(1,2) rx_follows_finish show ?thesis by blast
qed (use assms in \<open>auto simp: rx_follows_def rx_inflight_def split: if_splits\<close>)

lemma rx_follows_run:
  assumes "run (rx_step conv) (newRx tree i) es = Some r" and "\<forall>e \<in> set es. rx_reader e \<subseteq> {n}"
  shows "rx_follows tree n es r"
  using assms
proof (induction rule: run_induct)
  case start
  show ?case by (auto simp: rx_follows_def rx_inflight_def newRx_def)
next
  case (step es t e u)
  then show ?case by (auto intro: rx_follows_step)
qed

section \<open>Calls on the sending half\<close>

text \<open>A sequence of calls and the messages they sent; a call that returns an error sends none.\<close>

fun tx_Calls :: "(string \<times> gval list) list \<Rightarrow> tx \<Rightarrow> (tx \<times> message list) go" where
  "tx_Calls [] t = Ret (t, [])"
| "tx_Calls ((name, args) # cs) t =
     go_bind (tx_Call name args t) (\<lambda>(t', r).
       go_bind (tx_Calls cs t') (\<lambda>(t'', ms).
         Ret (t'', (case r of Inl err \<Rightarrow> ms | Inr m \<Rightarrow> m # ms))))"

lemma tx_Call_cases:
  assumes "tx_Call name args t = Ret (u, r)"
  obtains (finished) "tx_done t" "u = t" "r = Inl ErrTxDone"
  | (unknown) err where "\<not> tx_done t" "u = t" "r = Inl err" "stream_MethodByName name (tx_tree t) = Ret (Inl err)"
  | (sent) num it where "\<not> tx_done t" "stream_MethodByName name (tx_tree t) = Ret (Inr num)"
      "tree_item (tx_tree t) num = Ret it" "advance (tx_tree t) it = (tx_tree u, tx_done u)"
      "tx_id u = tx_id t" "tx_headers u = tx_headers t"
      "r = Inr \<lparr>Session = tx_id t, MsgType = num, Payload = args, Headers = tx_headers t\<rparr>"
proof (cases "tx_done t")
  case True
  with assms show ?thesis by (intro finished) (simp_all add: tx_Call_def)
next
  case False
  with assms obtain x where x: "stream_MethodByName name (tx_tree t) = Ret x"
    by (auto simp: tx_Call_def)
  show ?thesis
  proof (cases x)
    case (Inl err)
    with False x assms show ?thesis by (intro unknown) (simp_all add: tx_Call_def)
  next
    case (Inr num)
    with False x assms obtain it where "tree_item (tx_tree t) num = Ret it"
      by (auto simp: tx_Call_def)
    with Inr False x assms show ?thesis
      by (intro sent) (auto simp: tx_Call_def advance_def split: dispatchType.splits)
  qed
qed

lemma tx_Calls_conversation:
  "tx_Calls cs t = Ret (u, ms) \<Longrightarrow> conversation tree ps (tx_tree t) (tx_done t) \<Longrightarrow>
     conversation tree (ps @ map MsgType ms) (tx_tree u) (tx_done u) \<and>
     list_all (\<lambda>m. Session m = tx_id t \<and> Headers m = tx_headers t) ms"
proof (induction cs t arbitrary: ps ms rule: tx_Calls.induct)
  case (1 t)
  then show ?case by simp
next
  case (2 name args cs t)
  from "2.prems"(1) obtain v r ns where v: "tx_Call name args t = Ret (v, r)"
    and u: "tx_Calls cs v = Ret (u, ns)" and ms: "ms = (case r of Inl err \<Rightarrow> ns | Inr m \<Rightarrow> m # ns)"
    by auto
  note IH = "2.IH" [of v]
  from v show ?case
  proof (cases rule: tx_Call_cases)
    case (sent num it)
    then have "conversation tree (ps @ [num]) (tx_tree v) (tx_done v)"
      using "2.prems"(2) by (auto intro: conv_step)
    with IH [OF u, of "ps @ [num]"] sent ms show ?thesis by simp
  qed (use IH [OF u, of ps] "2.prems"(2) ms in auto)
qed

section \<open>Flat trees\<close>

text \<open>
  A description whose messages either repeat it or end the stream, which is the shape of the
  upstreams of \<open>apilocator.go\<close>.
\<close>

definition flat_stream :: "stream \<Rightarrow> bool" where
  "flat_stream tree =
     (case tree of
        NilStream \<Rightarrow> False
      | Stream s \<Rightarrow> list_all (\<lambda>(_, v). case v of None \<Rightarrow> False
          | Some it \<Rightarrow> stream_Type (Description it) \<noteq> otherDispatch) s)"

definition stream_methods :: "stream \<Rightarrow> u64 set" where
  "stream_methods tree = (case tree of NilStream \<Rightarrow> {} | Stream s \<Rightarrow> fst ` set s)"

definition stream_ends :: "stream \<Rightarrow> u64 \<Rightarrow> bool" where
  "stream_ends tree m \<longleftrightarrow> (case tree_item tree m of Ret it \<Rightarrow> stream_Type (Description it) = emptyDispatch
     | Panic p \<Rightarrow> False)"

lemma flat_item:
  assumes "flat_stream tree" and "m \<in> stream_methods tree"
  obtains it where "tree_item tree m = Ret it" "stream_Type (Description it) \<noteq> otherDispatch"
proof -
  obtain s where s: "tree = Stream s" using assms(1) by (cases tree) (auto simp: flat_stream_def)
  with assms(2) obtain v where v: "map_of s m = Some v"
    by (auto simp: stream_methods_def dest: weak_map_of_SomeI)
  then have "(m, v) \<in> set s" by (rule map_of_SomeD)
  with assms(1) s v that show ?thesis
    by (fastforce simp: flat_stream_def list_all_iff split: option.splits)
qed

lemma flat_advance:
  "tree_item tree m = Ret it \<Longrightarrow> stream_Type (Description it) \<noteq> otherDispatch \<Longrightarrow>
     advance tree it = (tree, stream_ends tree m)"
  by (auto simp: advance_def stream_ends_def split: dispatchType.splits)

definition rx_flat_inv :: "stream \<Rightarrow> rx \<Rightarrow> bool" where
  "rx_flat_inv tree r \<longleftrightarrow> rx_tree r = tree \<and> rx_crash r = None \<and>
     (\<forall>res \<in> set (rx_pending r). sr_method res \<in> stream_methods tree) \<and>
     (\<forall>n res. rx_pc r n = Got res \<longrightarrow> sr_method res \<in> stream_methods tree)"

lemma rx_process_flat:
  assumes "flat_stream (rx_tree r)" and "sr_method res \<in> stream_methods (rx_tree r)"
  shows "\<exists>s x err. rx_process conv res r = Ret (s, x, err) \<and> rx_tree s = rx_tree r \<and>
    (rx_done s \<longleftrightarrow> rx_done r \<or> stream_ends (rx_tree r) (sr_method res))"
proof -
  obtain it where it: "tree_item (rx_tree r) (sr_method res) = Ret it"
      "stream_Type (Description it) \<noteq> otherDispatch"
    by (rule flat_item [OF assms])
  have "\<exists>s x err. rx_process conv res r = Ret (s, x, err)"
    using it(1) by (auto simp: rx_process_def Let_def split: sum.splits)
  then obtain s x err where s: "rx_process conv res r = Ret (s, x, err)" by blast
  with rx_process_frame [OF s] flat_advance [OF it] it(1) show ?thesis by auto
qed

lemma rx_flat_step:
  assumes "rx_step conv r e = Some s" and "rx_flat_inv tree r" and "flat_stream tree"
    and "\<forall>res \<in> set (rx_pushed e). sr_method res \<in> stream_methods tree"
  shows "rx_flat_inv tree s"
proof (cases e)
  case (RxFinish n)
  with assms(1) obtain res where res: "rx_pc r n = Got res" by (auto split: getPc.splits)
  then have "sr_method res \<in> stream_methods (rx_tree r)" "flat_stream (rx_tree r)"
    using assms(2,3) by (auto simp: rx_flat_inv_def)
  from rx_process_flat [OF this(2,1), of conv] obtain u x err
    where u: "rx_process conv res r = Ret (u, x, err)" "rx_tree u = rx_tree r" by blast
  then have "s = u\<lparr>rx_pc := (rx_pc u)(n := Outside)\<rparr>" using RxFinish assms(1,2) res
    by (simp add: rx_flat_inv_def)
  moreover have "rx_pending u = rx_pending r"
    using rx_process_frame [OF u(1)] by (auto intro: rx_pending_frame)
  ultimately show ?thesis
    using rx_process_frame [OF u(1)] u(2) assms(2) by (auto simp: rx_flat_inv_def split: if_splits)
next
  case (RxPush res)
  with assms show ?thesis by (auto simp: rx_flat_inv_def split: if_splits)
next
  case (RxLock n)
  with assms show ?thesis by (auto simp: rx_flat_inv_def split: if_splits)
qed (use assms in \<open>auto simp: rx_flat_inv_def rx_pending_def split: if_splits\<close>)

text \<open>Pushes are takes followed by what is pending.\<close>

lemma rx_conserve:
  assumes "run (rx_step conv) (newRx tree i) es = Some r"
  shows "concat (map rx_pushed es) = concat (map rx_taken es) @ rx_pending r"
  using cx.fifo [OF assms] by (simp add: rx_pending_def newRx_def)

section \<open>Properties\<close>

text \<open>C7: a channel neither loses, duplicates nor reorders results. However pushes and any
  number of concurrent readers interleave, the results pushed are the results taken by readers,
  in order, followed by those in the buffer and the queue.\<close>

theorem rx_fifo:
  assumes "run (rx_step conv) (newRx tree i) es = Some r"
  shows "concat (map rx_pushed es) = concat (map rx_taken es) @ rx_pending r"
  by (rule rx_conserve [OF assms])

definition demo_res :: "u64 \<Rightarrow> serviceRes" where
  "demo_res m = \<lparr>sr_payload = [], sr_method = m, sr_err = None\<rparr>"

definition demo_stream :: stream where
  "demo_stream = Stream [(0, Some (Item ''write'' recursiveDescription)),
     (1, Some (Item ''error'' emptyDescription)), (2, Some (Item ''close'' emptyDescription))]"

definition demo_conv :: errConvert where
  "demo_conv p = Inl (ErrCodec ''bad'')"

lemmas rx_demo_simps = demo_res_def demo_stream_def newRx_def rx_push_locked_def rx_refill_def
  rx_process_def serviceRes_Extract_def recursiveDescription_def emptyDescription_def

theorem rx_fifo_witness:
  "concat (map rx_pushed [RxStart 0, RxPush (demo_res 0), RxPush (demo_res 2), RxLock 0, RxTake 0 (demo_res 0)]) =
     [demo_res 0, demo_res 2]"
proof -
  obtain r where r: "run (rx_step demo_conv) (newRx demo_stream 2)
      [RxStart 0, RxPush (demo_res 0), RxPush (demo_res 2), RxLock 0, RxTake 0 (demo_res 0)] = Some r"
      "rx_pending r = [demo_res 2]"
    by (simp add: rx_demo_simps rx_pending_def)
  from rx_fifo [OF r(1)] r(2) show ?thesis by simp
qed

text \<open>C20: a channel with one reader follows the protocol and never sleeps through a result. The
  results the reader has processed form a conversation of the service's description, and the
  channel is closed exactly when that conversation has ended; a reader that waits while a result
  is there can take it; and a reader that calls \<open>Get\<close> on an open channel with a result pending
  obtains the oldest one.\<close>

theorem rx_single_reader:
  assumes "run (rx_step conv) (newRx tree i) es = Some r" and "\<forall>e \<in> set es. rx_reader e \<subseteq> {n}"
    and "rx_crash r = None"
  shows "(\<exists>fin. concat (map rx_taken es) = fin @ rx_inflight n r \<and>
        conversation tree (map sr_method fin) (rx_tree r) (rx_done r)) \<and>
    (rx_pc r n = Waiting \<longrightarrow> rx_pending r \<noteq> [] \<longrightarrow> rx_step conv r (RxTake n (hd (rx_pending r))) \<noteq> None) \<and>
    (rx_pc r n = Outside \<longrightarrow> \<not> rx_done r \<longrightarrow> rx_pending r \<noteq> [] \<longrightarrow>
       (\<exists>fs s. run (rx_step conv) r fs = Some s \<and> rx_pc s n = Got (hd (rx_pending r))))"
proof (intro conjI impI)
  show "\<exists>fin. concat (map rx_taken es) = fin @ rx_inflight n r \<and>
        conversation tree (map sr_method fin) (rx_tree r) (rx_done r)"
    using rx_follows_run [OF assms(1,2)] assms(3) by (simp add: rx_follows_def)
  show "rx_step conv r (RxTake n (hd (rx_pending r))) \<noteq> None"
    if "rx_pc r n = Waiting" "rx_pending r \<noteq> []"
    using no_lost_wakeup_run [OF assms(1,2)] that assms(3)
    by (auto simp: no_lost_wakeup_def rx_pending_def)
  assume out: "rx_pc r n = Outside" "\<not> rx_done r" "rx_pending r \<noteq> []"
  show "\<exists>fs s. run (rx_step conv) r fs = Some s \<and> rx_pc s n = Got (hd (rx_pending r))"
  proof (cases "rx_pushBuffer r")
    case (Some res)
    then show ?thesis
      using out assms(3) by (intro exI [of _ "[RxFast n res]"]) (simp add: rx_pending_def)
  next
    case None
    with out obtain res rest where "rx_queue r = res # rest"
      by (auto simp: rx_pending_def neq_Nil_conv)
    with None out assms(3) show ?thesis
      by (intro exI [of _ "[RxStart n, RxLock n, RxTake n res]"]) (simp add: rx_pending_def rx_refill_def)
  qed
qed

theorem rx_single_reader_witness:
  "\<exists>r fin. run (rx_step demo_conv) (newRx demo_stream 2)
       [RxPush (demo_res 0), RxFast 0 (demo_res 0), RxFinish 0, RxPush (demo_res 2)] = Some r \<and>
     [demo_res 0] = fin @ rx_inflight 0 r \<and>
     conversation demo_stream (map sr_method fin) (rx_tree r) (rx_done r)"
proof -
  let ?es = "[RxPush (demo_res 0), RxFast 0 (demo_res 0), RxFinish 0, RxPush (demo_res 2)]"
  obtain r where r: "run (rx_step demo_conv) (newRx demo_stream 2) ?es = Some r" "rx_crash r = None"
    by (simp add: rx_demo_simps)
  have "\<forall>e \<in> set ?es. rx_reader e \<subseteq> {0}" by simp
  from rx_single_reader [OF r(1) this r(2)] r(1) show ?thesis by auto
qed

text \<open>With two readers a wakeup is lost. A reader waiting in \<open>Get\<close> stays blocked although a
  result is queued, because another reader took the buffered one and only \<open>push\<close> and the start
  of a \<open>Get\<close> move the queue forward: the waiting reader can only be cancelled.\<close>

theorem rx_lost_wakeup:
  "\<exists>r. run (rx_step demo_conv) (newRx demo_stream 2)
        [RxStart 0, RxLock 0, RxPush (demo_res 0), RxPush (demo_res 0), RxFast 1 (demo_res 0), RxFinish 1] = Some r \<and>
     rx_pc r 0 = Waiting \<and> rx_pending r = [demo_res 0] \<and> (\<forall>res. rx_step demo_conv r (RxTake 0 res) = None)"
  by (simp add: rx_demo_simps rx_pending_def)



text \<open>Flat protocols are safe under every interleaving. If the upstream description is flat
  and the service sends only message types it names, then no interleaving of pushes and readers
  panics, and \<open>push\<close> detaches the session exactly on a message that ends the stream, whether or
  not readers have kept up.\<close>

theorem rx_flat_safe:
  assumes "flat_stream tree" and "run (rx_step conv) (newRx tree i) es = Some r"
    and "\<forall>res \<in> set (concat (map rx_pushed es)). sr_method res \<in> stream_methods tree"
    and "sr_method x \<in> stream_methods tree"
  shows "rx_crash r = None \<and> rx_push_detaches x r = Ret (stream_ends tree (sr_method x))"
proof -
  have "rx_flat_inv tree r"
    by (rule run_invariant_on [OF _ assms(2),
          where A = "{e. \<forall>res \<in> set (rx_pushed e). sr_method res \<in> stream_methods tree}"])
       (use assms(1,3) in \<open>auto intro: rx_flat_step\<close>, simp add: rx_flat_inv_def newRx_def rx_pending_def)
  moreover obtain it where "tree_item tree (sr_method x) = Ret it" by (rule flat_item [OF assms(1,4)])
  ultimately show ?thesis by (simp add: rx_flat_inv_def rx_push_detaches_def stream_ends_def)
qed

theorem rx_flat_safe_witness:
  "\<exists>r. run (rx_step demo_conv) (newRx demo_stream 2) [RxPush (demo_res 0), RxPush (demo_res 2)] = Some r \<and>
     rx_push_detaches (demo_res 2) r = Ret True"
proof -
  have flat: "flat_stream demo_stream" "stream_ends demo_stream 2"
      "\<forall>m \<in> {0, 2}. sr_method (demo_res m) \<in> stream_methods demo_stream"
    by (simp_all add: flat_stream_def rx_demo_simps stream_ends_def stream_methods_def)
  obtain r where r: "run (rx_step demo_conv) (newRx demo_stream 2) [RxPush (demo_res 0), RxPush (demo_res 2)] = Some r"
    by (simp add: newRx_def)
  from rx_flat_safe [OF flat(1) r, of "demo_res 2"] r flat show ?thesis by (simp add: demo_res_def)
qed

text \<open>Nested protocols are not. With a description in which a message leads to another
  description, a service that sends the second message before the client has called \<open>Get\<close> for
  the first makes \<open>push\<close> look it up in the outdated tree: the service's loop panics on a nil
  pointer although the messages form a legal conversation.\<close>

theorem rx_nested_push_panics:
  "\<exists>tree r. conversation tree [0, 5] (Stream [(5, Some (Item ''b'' emptyDescription))]) True \<and>
     run (rx_step demo_conv) (newRx tree 2) [RxPush (demo_res 0), RxPush (demo_res 5)] = Some r \<and>
     rx_push_detaches (demo_res 5) r = Panic NilDeref"
proof -
  let ?u = "Stream [(5, Some (Item ''b'' emptyDescription))]"
  let ?tree = "Stream [(0, Some (Item ''a'' ?u))]"
  have "conversation ?tree ([] @ [0]) ?u False"
    by (rule conv_step [OF conv_start, where it = "Item ''a'' ?u"]) (simp_all add: advance_def)
  then have "conversation ?tree (([] @ [0]) @ [5]) ?u True"
    by (rule conv_step [where it = "Item ''b'' emptyDescription"])
       (simp_all add: advance_def emptyDescription_def)
  then have "conversation ?tree [0, 5] ?u True" by simp
  moreover have "\<exists>r. run (rx_step demo_conv) (newRx ?tree 2) [RxPush (demo_res 0), RxPush (demo_res 5)] = Some r \<and>
     rx_push_detaches (demo_res 5) r = Panic NilDeref"
    by (simp add: rx_demo_simps rx_push_detaches_def)
  ultimately show ?thesis by blast
qed

end
