(* ===== verification/Sessions.thy ===== *)
theory Sessions
  imports Prelude "HOL-Library.AList"
begin

text \<open>
  The session tables: \<open>cocaine12/sessions.go\<close> (session numbers are \<open>uint64\<close>, starting after 1)
  and \<open>cocaine/sessionkeeper.go\<close> (\<open>int64\<close>, starting after 0). Every operation runs under the
  table's lock, so it is one atomic function here. The locale \<open>session_table\<close> is what their
  clients rely on; both tables are interpretations of it.
\<close>

section \<open>The tables\<close>

record 'c sessions =
  links :: "(u64 \<times> 'c) list"
  counter :: u64

definition newSessions :: "'c sessions" where
  "newSessions = \<lparr>links = [], counter = 1\<rparr>"

definition sessions_Next :: "'c sessions \<Rightarrow> 'c sessions \<times> u64" where
  "sessions_Next s = (let i = counter s + 1 in (s\<lparr>counter := i\<rparr>, i))"

definition sessions_Attach :: "'c \<Rightarrow> 'c sessions \<Rightarrow> 'c sessions \<times> u64" where
  "sessions_Attach session s =
     (let current = counter s + 1 in
      (s\<lparr>counter := current, links := AList.update current session (links s)\<rparr>, current))"

definition sessions_Detach :: "u64 \<Rightarrow> 'c sessions \<Rightarrow> 'c sessions" where
  "sessions_Detach i s = s\<lparr>links := AList.delete i (links s)\<rparr>"

definition sessions_Get :: "'c sessions \<Rightarrow> u64 \<Rightarrow> 'c option" where
  "sessions_Get s i = map_of (links s) i"

definition sessions_Keys :: "'c sessions \<Rightarrow> u64 list" where
  "sessions_Keys s = map fst (links s)"

record 'c keeperStruct =
  klinks :: "(i64 \<times> 'c) list"
  kcounter :: i64

definition newKeeperStruct :: "'c keeperStruct" where
  "newKeeperStruct = \<lparr>klinks = [], kcounter = 0\<rparr>"

definition keeper_Attach :: "'c \<Rightarrow> 'c keeperStruct \<Rightarrow> 'c keeperStruct \<times> i64" where
  "keeper_Attach out k =
     (let c = kcounter k + 1 in
      (k\<lparr>kcounter := c, klinks := AList.update c out (klinks k)\<rparr>, c))"

definition keeper_Detach :: "i64 \<Rightarrow> 'c keeperStruct \<Rightarrow> 'c keeperStruct" where
  "keeper_Detach i k = k\<lparr>klinks := AList.delete i (klinks k)\<rparr>"

definition keeper_Get :: "'c keeperStruct \<Rightarrow> i64 \<Rightarrow> 'c option" where
  "keeper_Get k i = map_of (klinks k) i"

definition keeper_Keys :: "'c keeperStruct \<Rightarrow> i64 list" where
  "keeper_Keys k = map fst (klinks k)"

section \<open>The interface\<close>

datatype 'c table_op = TNext | TAttach 'c | TDetach "64 word"

text \<open>The clients' calls in the order the lock serialises them, with the identifiers handed out.\<close>

fun table_exec :: "('t \<Rightarrow> 't \<times> 64 word) \<Rightarrow> ('c \<Rightarrow> 't \<Rightarrow> 't \<times> 64 word) \<Rightarrow> (64 word \<Rightarrow> 't \<Rightarrow> 't)
    \<Rightarrow> 'c table_op list \<Rightarrow> 't \<Rightarrow> 't \<times> 64 word list" where
  "table_exec nxt att det [] t = (t, [])"
| "table_exec nxt att det (TNext # ops) t =
     (case nxt t of (t', i) \<Rightarrow> case table_exec nxt att det ops t' of (u, is) \<Rightarrow> (u, i # is))"
| "table_exec nxt att det (TAttach c # ops) t =
     (case att c t of (t', i) \<Rightarrow> case table_exec nxt att det ops t' of (u, is) \<Rightarrow> (u, i # is))"
| "table_exec nxt att det (TDetach i # ops) t = table_exec nxt att det ops (det i t)"

text \<open>The abstract table: a partial map and the last identifier handed out.\<close>

fun abs_exec :: "'c table_op list \<Rightarrow> (64 word \<rightharpoonup> 'c) \<times> 64 word \<Rightarrow> (64 word \<rightharpoonup> 'c) \<times> 64 word" where
  "abs_exec [] a = a"
| "abs_exec (TNext # ops) (m, n) = abs_exec ops (m, n + 1)"
| "abs_exec (TAttach c # ops) (m, n) = abs_exec ops (m(n + 1 \<mapsto> c), n + 1)"
| "abs_exec (TDetach i # ops) (m, n) = abs_exec ops (m(i := None), n)"

locale session_table =
  fixes attach :: "'c \<Rightarrow> 't \<Rightarrow> 't \<times> 64 word"
    and detach :: "64 word \<Rightarrow> 't \<Rightarrow> 't"
    and get :: "'t \<Rightarrow> 64 word \<Rightarrow> 'c option"
    and keys :: "'t \<Rightarrow> 64 word list"
    and count :: "'t \<Rightarrow> 64 word"
    and invar :: "'t \<Rightarrow> bool"
  assumes attach_id: "snd (attach c t) = count t + 1"
    and count_attach: "count (fst (attach c t)) = count t + 1"
    and get_attach: "get (fst (attach c t)) = (get t)(count t + 1 \<mapsto> c)"
    and count_detach: "count (detach i t) = count t"
    and get_detach: "invar t \<Longrightarrow> get (detach i t) = (get t)(i := None)"
    and set_keys: "set (keys t) = dom (get t)"
    and distinct_keys: "invar t \<Longrightarrow> distinct (keys t)"
    and invar_attach: "invar t \<Longrightarrow> invar (fst (attach c t))"
    and invar_detach: "invar t \<Longrightarrow> invar (detach i t)"
begin

lemma attached_found: "attach c t = (u, i) \<Longrightarrow> get u i = Some c"
  using attach_id [of c t] get_attach [of c t] by simp

lemma attach_keeps_others: "attach c t = (u, i) \<Longrightarrow> j \<noteq> i \<Longrightarrow> get u j = get t j"
  using attach_id [of c t] get_attach [of c t] by simp

lemma detached_gone: "invar t \<Longrightarrow> get (detach i t) i = None"
  by (simp add: get_detach)

lemma detach_keeps_others: "invar t \<Longrightarrow> j \<noteq> i \<Longrightarrow> get (detach i t) j = get t j"
  by (simp add: get_detach)

lemma keys_finite: "finite (dom (get t))"
  using set_keys [of t] by (metis List.finite_set)

end

locale session_table_next = session_table attach detach get keys count invar
  for attach :: "'c \<Rightarrow> 't \<Rightarrow> 't \<times> 64 word"
    and detach :: "64 word \<Rightarrow> 't \<Rightarrow> 't"
    and get :: "'t \<Rightarrow> 64 word \<Rightarrow> 'c option"
    and keys :: "'t \<Rightarrow> 64 word list"
    and count :: "'t \<Rightarrow> 64 word"
    and invar :: "'t \<Rightarrow> bool" +
  fixes nxt :: "'t \<Rightarrow> 't \<times> 64 word"
  assumes next_id: "snd (nxt t) = count t + 1"
    and count_next: "count (fst (nxt t)) = count t + 1"
    and get_next: "get (fst (nxt t)) = get t"
    and invar_next: "invar t \<Longrightarrow> invar (fst (nxt t))"
begin

lemma exec_ids:
  "snd (table_exec nxt attach detach ops t) =
     map (\<lambda>i. count t + word_of_nat (Suc i)) [0..<length (snd (table_exec nxt attach detach ops t))]"
proof (induction ops arbitrary: t)
  case Nil
  then show ?case by simp
next
  case (Cons op ops)
  have shift: "is = map (\<lambda>i. count u + word_of_nat (Suc i)) [0..<length is] \<Longrightarrow>
      count u = count t + 1 \<Longrightarrow>
      (count t + 1) # is = map (\<lambda>i. count t + word_of_nat (Suc i)) [0..<Suc (length is)]" for u "is"
    by (subst upt_conv_Cons)
       (simp_all add: map_Suc_upt [symmetric] del: upt_Suc, simp add: comp_def ac_simps)
  show ?case
  proof (cases op)
    case TNext
    with Cons.IH [of "fst (nxt t)"] shift [OF _ count_next] next_id [of t] show ?thesis
      by (simp add: case_prod_beta)
  next
    case (TAttach c)
    with Cons.IH [of "fst (attach c t)"] shift [OF _ count_attach] attach_id [of c t] show ?thesis
      by (simp add: case_prod_beta)
  next
    case (TDetach i)
    with Cons.IH [of "detach i t"] show ?thesis by (simp add: count_detach)
  qed
qed

lemma exec_refines:
  "invar t \<Longrightarrow> fst (table_exec nxt attach detach ops t) = u \<Longrightarrow>
     invar u \<and> (get u, count u) = abs_exec ops (get t, count t)"
proof (induction ops arbitrary: t)
  case Nil
  then show ?case by auto
next
  case (Cons op ops)
  show ?case
  proof (cases op)
    case TNext
    with Cons.IH [of "fst (nxt t)"] Cons.prems show ?thesis
      by (simp add: case_prod_beta invar_next get_next count_next)
  next
    case (TAttach c)
    with Cons.IH [of "fst (attach c t)"] Cons.prems show ?thesis
      by (simp add: case_prod_beta invar_attach get_attach count_attach fun_upd_def)
  next
    case (TDetach i)
    with Cons.IH [of "detach i t"] Cons.prems show ?thesis
      by (simp add: invar_detach get_detach count_detach fun_upd_def)
  qed
qed

end

section \<open>The tables provide the interface\<close>

definition sessions_inv :: "'c sessions \<Rightarrow> bool" where
  "sessions_inv s \<longleftrightarrow> alist_ok (links s)"

definition keeper_inv :: "'c keeperStruct \<Rightarrow> bool" where
  "keeper_inv k \<longleftrightarrow> alist_ok (klinks k)"

lemma sessions_Get_eq: "sessions_Get s = map_of (links s)"
  by (simp add: fun_eq_iff sessions_Get_def)

lemma keeper_Get_eq: "keeper_Get k = map_of (klinks k)"
  by (simp add: fun_eq_iff keeper_Get_def)

lemmas sessions_defs = sessions_Next_def sessions_Attach_def sessions_Detach_def sessions_Get_eq
  sessions_Keys_def sessions_inv_def

lemmas keeper_defs = keeper_Attach_def keeper_Detach_def keeper_Get_eq keeper_Keys_def keeper_inv_def

lemma sessions_inv_new [simp]: "sessions_inv newSessions"
  by (simp add: sessions_inv_def newSessions_def alist_ok_def)

lemma keeper_inv_new [simp]: "keeper_inv newKeeperStruct"
  by (simp add: keeper_inv_def newKeeperStruct_def alist_ok_def)

lemma alist_ok_update [simp]: "alist_ok m \<Longrightarrow> alist_ok (AList.update k v m)"
  by (simp add: alist_ok_def distinct_update)

lemma alist_ok_delete [simp]: "alist_ok m \<Longrightarrow> alist_ok (AList.delete k m)"
  by (simp add: alist_ok_def distinct_delete)

lemma map_of_update [simp]: "map_of (AList.update k v m) = (map_of m)(k \<mapsto> v)"
  by (simp add: update_conv')

lemma map_of_delete [simp]: "map_of (AList.delete k m) = (map_of m)(k := None)"
  by (simp add: delete_conv')

interpretation st: session_table_next sessions_Attach sessions_Detach sessions_Get sessions_Keys
  counter sessions_inv sessions_Next
  by unfold_locales
     (auto simp: sessions_defs Let_def dom_map_of_conv_image_fst alist_ok_def [symmetric])

interpretation kp: session_table keeper_Attach keeper_Detach keeper_Get keeper_Keys kcounter keeper_inv
  by unfold_locales
     (auto simp: keeper_defs Let_def dom_map_of_conv_image_fst alist_ok_def [symmetric])

abbreviation sessions_exec :: "'c table_op list \<Rightarrow> 'c sessions \<Rightarrow> 'c sessions \<times> u64 list" where
  "sessions_exec \<equiv> table_exec sessions_Next sessions_Attach sessions_Detach"

text \<open>Consecutive identifiers from 2 on stay in order until the counter wraps around.\<close>

lemma ids_increasing:
  assumes "n < 2 ^ 64 - 1"
  shows "sorted_wrt (<) (map (\<lambda>i. (1::u64) + word_of_nat (Suc i)) [0..<n])"
    and "i < n \<Longrightarrow> 2 \<le> (1::u64) + word_of_nat (Suc i)"
proof -
  have u: "unat ((1::u64) + word_of_nat (Suc i)) = i + 2" if "i < n" for i
  proof -
    have "(1::u64) + word_of_nat (Suc i) = word_of_nat (i + 2)" by (simp add: ac_simps)
    moreover have "unat (word_of_nat (i + 2) :: u64) = i + 2"
      using that assms by (simp only: unat_of_nat) simp
    ultimately show ?thesis by simp
  qed
  show "sorted_wrt (<) (map (\<lambda>i. (1::u64) + word_of_nat (Suc i)) [0..<n])"
    unfolding sorted_wrt_map
    by (rule sorted_wrt_mono_rel [of _ "(<)"]) (auto simp: word_less_nat_alt u [simplified])
  show "2 \<le> (1::u64) + word_of_nat (Suc i)" if "i < n"
    using u [OF that, simplified] by (simp add: word_le_nat_alt)
qed

section \<open>Properties\<close>

text \<open>Session numbers are unique. Whatever sequence of \<open>Next\<close>, \<open>Attach\<close> and \<open>Detach\<close> calls
  the clients make, the numbers handed out strictly increase, so no two are equal, and none is
  0 or the reserved session 1, as long as fewer than $2^{64} - 1$ numbers were taken.\<close>

theorem sessions_ids_unique:
  assumes "snd (sessions_exec ops newSessions) = ids" and "length ids < 2 ^ 64 - 1"
  shows "sorted_wrt (<) ids \<and> distinct ids \<and> list_all (\<lambda>i. 2 \<le> i) ids"
proof -
  have ids: "ids = map (\<lambda>i. (1::u64) + word_of_nat (Suc i)) [0..<length ids]"
    using st.exec_ids [of ops newSessions] assms(1) by (simp add: newSessions_def)
  have "sorted_wrt (<) ids" by (subst ids) (rule ids_increasing(1) [OF assms(2)])
  moreover have "list_all (\<lambda>i. 2 \<le> i) ids"
    by (subst ids) (auto simp: list_all_iff dest: ids_increasing(2) [OF assms(2), simplified])
  ultimately show ?thesis by (simp add: strict_sorted_iff)
qed

theorem sessions_ids_unique_witness:
  "snd (sessions_exec [TNext, TAttach CHR ''a'', TDetach 3, TAttach CHR ''b''] newSessions) = [2, 3, 4] \<and>
   sorted_wrt (<) [2::u64, 3, 4]"
proof -
  have e: "snd (sessions_exec [TNext, TAttach CHR ''a'', TDetach 3, TAttach CHR ''b''] newSessions) = [2, 3, 4]"
    by (simp add: sessions_defs newSessions_def)
  from sessions_ids_unique [OF e] e show ?thesis by simp
qed

text \<open>C17: the table implements a finite map. After any sequence of calls, \<open>Get\<close> is the abstract
  map the calls build (a channel is found under its number until that number is detached),
  and \<open>Keys\<close> lists each attached number once.\<close>

theorem sessions_refine_map:
  assumes "fst (sessions_exec ops newSessions) = s"
  shows "(sessions_Get s, counter s) = abs_exec ops (Map.empty, 1) \<and>
     set (sessions_Keys s) = dom (sessions_Get s) \<and> distinct (sessions_Keys s)"
proof -
  have "(sessions_Get (newSessions :: 'a sessions), counter (newSessions :: 'a sessions)) = (Map.empty, 1)"
    by (simp add: sessions_Get_eq newSessions_def)
  with st.exec_refines [OF sessions_inv_new assms] show ?thesis
    by (simp add: st.set_keys st.distinct_keys)
qed

theorem sessions_refine_map_witness:
  "sessions_Get \<lparr>links = [(3, CHR ''b'')], counter = 3\<rparr> = [3 \<mapsto> CHR ''b'']"
proof -
  have "fst (sessions_exec [TAttach CHR ''a'', TAttach CHR ''b'', TDetach 2] newSessions) =
      \<lparr>links = [(3, CHR ''b'')], counter = 3\<rparr>"
    by (simp add: sessions_defs newSessions_def)
  from sessions_refine_map [OF this] show ?thesis by (simp add: fun_eq_iff)
qed

end
