(* ===== verification/Endpoints.thy ===== *)
theory Endpoints
  imports Dispatch
begin

text \<open>
  Endpoints and connecting: \<open>EndpointItem\<close> of \<open>cocaine12/serviceinfo.go\<close>, \<open>serviceCreateIO\<close> and
  \<open>MultiConnectionError\<close> of \<open>cocaine12/service.go\<close>, and the connection loop of \<open>NewLocator\<close> in
  \<open>cocaine12/locator.go\<close>. Dialling an address is the operating system's: it is a parameter
  \<open>newAsyncConnection\<close> from the address to an error or a socket.
\<close>

section \<open>Printing\<close>

text \<open>\<open>%d\<close> of an unsigned number.\<close>

definition digit :: "nat \<Rightarrow> char" where "digit n = char_of (48 + n mod 10)"

fun decimal :: "nat \<Rightarrow> string" where
  "decimal n = (if n < 10 then [digit n] else decimal (n div 10) @ [digit n])"

declare decimal.simps [simp del]

text \<open>\<open>net.JoinHostPort\<close>: brackets around a host that contains a colon.\<close>

definition JoinHostPort :: "string \<Rightarrow> string \<Rightarrow> string" where
  "JoinHostPort host port =
     (if CHR '':'' \<in> set host then ''['' @ host @ '']:'' @ port else host @ '':'' @ port)"

record endpointItem =
  IP :: string
  Port :: u64

definition EndpointItem_String :: "endpointItem \<Rightarrow> string" where
  "EndpointItem_String e = JoinHostPort (IP e) (decimal (unat (Port e)))"

record serviceInfo =
  Endpoints :: "endpointItem list"
  Version :: u64
  API :: dispatchMap

definition newLocatorServiceInfo :: serviceInfo where
  "newLocatorServiceInfo = \<lparr>Endpoints = [], Version = 1, API = locatorAPI\<rparr>"

section \<open>Connecting\<close>

type_synonym 'e multiConnectionError = "(endpointItem \<times> 'e) list"

text \<open>The message of the error; \<open>err.Error()\<close> of the parts is a parameter.\<close>

definition MultiConnectionError_Error :: "('e \<Rightarrow> string) \<Rightarrow> 'e multiConnectionError \<Rightarrow> string" where
  "MultiConnectionError_Error Error m =
     concat (map (\<lambda>(e, err). EndpointItem_String e @ '': '' @ Error err @ '' '') m)"

datatype 'e createError = ZeroEndpoints | Multi "'e multiConnectionError"

fun createIO_loop :: "(string \<Rightarrow> 'e + 's) \<Rightarrow> endpointItem list \<Rightarrow> 'e multiConnectionError
    \<Rightarrow> 'e createError + 's" where
  "createIO_loop newAsyncConnection [] mErr = Inl (Multi mErr)"
| "createIO_loop newAsyncConnection (endpoint # endpoints) mErr =
     (case newAsyncConnection (EndpointItem_String endpoint) of
        Inl err \<Rightarrow> createIO_loop newAsyncConnection endpoints (mErr @ [(endpoint, err)])
      | Inr sock \<Rightarrow> Inr sock)"

definition serviceCreateIO :: "(string \<Rightarrow> 'e + 's) \<Rightarrow> endpointItem list \<Rightarrow> 'e createError + 's" where
  "serviceCreateIO newAsyncConnection endpoints =
     (if endpoints = [] then Inl ZeroEndpoints else createIO_loop newAsyncConnection endpoints [])"

text \<open>
  \<open>NewLocator\<close>'s loop carries \<open>sock\<close> and \<open>err\<close>; a failed attempt sets \<open>sock\<close> to nil. With no
  endpoint at all both stay nil.
\<close>

fun locator_dial :: "(string \<Rightarrow> 'e + 's) \<Rightarrow> string list \<Rightarrow> 's option \<times> 'e option \<Rightarrow> 's option \<times> 'e option" where
  "locator_dial newAsyncConnection [] se = se"
| "locator_dial newAsyncConnection (endpoint # endpoints) se =
     (case newAsyncConnection endpoint of
        Inl err \<Rightarrow> locator_dial newAsyncConnection endpoints (None, Some err)
      | Inr sock \<Rightarrow> (Some sock, None))"

text \<open>
  \<open>NewLocator\<close>: the default locators stand in for an empty argument. The result is an error or
  the socket the service is built on, which is nil when there was no endpoint to try.
\<close>

definition NewLocator_dial :: "string list \<Rightarrow> (string \<Rightarrow> 'e + 's) \<Rightarrow> string list \<Rightarrow> 'e + 's option" where
  "NewLocator_dial defaultLocators newAsyncConnection endpoints =
     (let endpoints' = (if endpoints = [] then defaultLocators else endpoints) in
      case locator_dial newAsyncConnection endpoints' (None, None) of
        (sock, Some err) \<Rightarrow> Inl err
      | (sock, None) \<Rightarrow> Inr sock)"

section \<open>Lemmas\<close>

lemma createIO_loop_spec:
  "createIO_loop dial es mErr =
     (case List.find (\<lambda>e. \<not> isl (dial (EndpointItem_String e))) es of
        Some e \<Rightarrow> Inr (projr (dial (EndpointItem_String e)))
      | None \<Rightarrow> Inl (Multi (mErr @ map (\<lambda>e. (e, projl (dial (EndpointItem_String e)))) es)))"
  by (induction dial es mErr rule: createIO_loop.induct) (auto split: sum.splits option.splits)

lemma locator_dial_spec:
  "es \<noteq> [] \<Longrightarrow> locator_dial dial es se =
     (case List.find (\<lambda>e. \<not> isl (dial e)) es of
        Some e \<Rightarrow> (Some (projr (dial e)), None)
      | None \<Rightarrow> (None, Some (projl (dial (last es)))))"
  by (induction dial es se rule: locator_dial.induct) (auto split: sum.splits option.splits)

text \<open>Reading a decimal back; its characters are digits.\<close>

definition undecimal :: "string \<Rightarrow> nat" where
  "undecimal s = foldl (\<lambda>a c. 10 * a + (of_char c - 48)) 0 s"

lemma of_char_digit [simp]: "(of_char (digit n) :: nat) = 48 + n mod 10"
proof -
  have "48 + n mod 10 < 256" by (simp add: less_trans [OF mod_less_divisor])
  then show ?thesis by (simp add: digit_def)
qed

lemma undecimal_decimal [simp]: "undecimal (decimal n) = n"
proof (induction n rule: decimal.induct)
  case (1 n)
  then show ?case by (subst decimal.simps) (auto simp: undecimal_def)
qed

lemma decimal_digits: "c \<in> set (decimal n) \<Longrightarrow> 48 \<le> (of_char c :: nat) \<and> (of_char c :: nat) < 58"
proof (induction n rule: decimal.induct)
  case (1 n)
  have "n mod 10 < 10" by simp
  with 1 show ?case
    by (subst (asm) (2) decimal.simps) (auto split: if_splits)
qed

lemma decimal_no_colon [simp]: "CHR '':'' \<notin> set (decimal n)"
  using decimal_digits [of "CHR '':''" n] by auto

lemma decimal_inj [simp]: "decimal m = decimal n \<longleftrightarrow> m = n"
  by (metis undecimal_decimal)

lemma split_last_eq:
  assumes "xs @ c # ys = xs' @ c # ys'" and "c \<notin> set ys" and "c \<notin> set ys'"
  shows "xs = xs' \<and> ys = ys'"
proof -
  have "takeWhile (\<lambda>x. x \<noteq> c) (rev (xs @ c # ys)) = rev ys"
    using assms(2) by (simp add: takeWhile_append takeWhile_eq_all_conv)
  moreover have "takeWhile (\<lambda>x. x \<noteq> c) (rev (xs' @ c # ys')) = rev ys'"
    using assms(3) by (simp add: takeWhile_append takeWhile_eq_all_conv)
  ultimately have "ys = ys'" using assms(1) by (metis rev_is_rev_conv)
  with assms(1) show ?thesis by simp
qed

lemma EndpointItem_String_split:
  "EndpointItem_String e = (if CHR '':'' \<in> set (IP e) then ''['' @ IP e @ '']'' else IP e) @
     CHR '':'' # decimal (unat (Port e))"
  by (simp add: EndpointItem_String_def JoinHostPort_def)

lemma EndpointItem_String_inj:
  fixes e f :: endpointItem
  assumes "EndpointItem_String e = EndpointItem_String f"
  shows "e = f"
proof -
  have "(if CHR '':'' \<in> set (IP e) then ''['' @ IP e @ '']'' else IP e) =
      (if CHR '':'' \<in> set (IP f) then ''['' @ IP f @ '']'' else IP f) \<and>
      decimal (unat (Port e)) = decimal (unat (Port f))"
    by (rule split_last_eq [of _ "CHR '':''"]) (use assms in \<open>simp_all only: EndpointItem_String_split decimal_no_colon not_False_eq_True\<close>)
  then have "IP e = IP f" "Port e = Port f" by (auto split: if_splits simp: word_unat_eq_iff dest!: sym [of _ "IP f"])
  then show ?thesis by simp
qed

section \<open>Properties\<close>

text \<open>Connecting tries the endpoints in order. \<open>serviceCreateIO\<close> returns the socket of the
  first endpoint that accepts; if none does, its error lists every endpoint with its own error,
  in order; and since different endpoints print as different addresses, each of them has really
  been dialled under its own address.\<close>

theorem serviceCreateIO_first:
  fixes es :: "endpointItem list"
  shows "serviceCreateIO dial es =
    (if es = [] then Inl ZeroEndpoints
     else case List.find (\<lambda>e. \<not> isl (dial (EndpointItem_String e))) es of
        Some e \<Rightarrow> Inr (projr (dial (EndpointItem_String e)))
      | None \<Rightarrow> Inl (Multi (map (\<lambda>e. (e, projl (dial (EndpointItem_String e)))) es))) \<and>
    inj EndpointItem_String"
proof
  show "inj (EndpointItem_String :: endpointItem \<Rightarrow> string)"
    by (rule injI) (rule EndpointItem_String_inj)
qed (simp add: serviceCreateIO_def createIO_loop_spec split: option.split)

end
