(* ===== verification/Service.thy ===== *)
theory Service
  imports Channel Sessions Endpoints
begin

text \<open>
  The client of a service (\<open>cocaine12/service.go\<close>, \<open>cocaine12/locator.go\<close>). Channels live in a
  store and are referred to by their position; the session table holds references. Every socket
  the service has ever used is kept with its state, because the loop of an earlier socket may
  still be running after a reconnection. The events of \<open>service_step\<close> are the atomic pieces of
  the goroutines: what runs under \<open>service.mutex\<close> held for writing or under
  \<open>muKeepSessionOrder\<close> is one event, and \<open>push\<close> is two, because readers of the channel may run
  between them.
\<close>

section \<open>State\<close>

record channel =
  ch_rx :: rx
  ch_tx :: tx

record svsock =
  so_closed :: bool \<comment> \<open>the broadcast channel of the socket is closed\<close>
  so_close_called :: bool \<comment> \<open>\<open>Close\<close> was called, so the buffers are stopped\<close>
  so_sent :: "message list" \<comment> \<open>messages the socket accepted\<close>

definition newSock :: svsock where
  "newSock = \<lparr>so_closed = False, so_close_called = False, so_sent = []\<rparr>"

datatype loopPc = LoopReading | LoopDetaching nat serviceRes | LoopEnded

record svloop =
  lp_epoch :: u64
  lp_sock :: nat
  lp_pc :: loopPc

record service =
  sv_API :: dispatchMap
  sv_sessions :: "nat sessions"
  sv_chans :: "channel list"
  sv_socks :: "svsock list"
  sv_sock :: nat \<comment> \<open>\<open>service.socketIO\<close>\<close>
  sv_stop_closed :: bool
  sv_epoch :: u64
  sv_spawned :: nat \<comment> \<open>loop goroutines started and not yet running\<close>
  sv_loops :: "svloop list"
  sv_crash :: "panic option"

definition newService :: "dispatchMap \<Rightarrow> service" where
  "newService api = \<lparr>sv_API = api, sv_sessions = newSessions, sv_chans = [], sv_socks = [newSock],
     sv_sock = 0, sv_stop_closed = False, sv_epoch = 0, sv_spawned = 1, sv_loops = [], sv_crash = None\<rparr>"

section \<open>Operations\<close>

definition disconnected :: "service \<Rightarrow> bool" where
  "disconnected s \<longleftrightarrow> so_closed (sv_socks s ! sv_sock s)"

text \<open>
  \<open>sendMsg\<close>: the current socket accepts the message, or drops it, which it does only when it is
  closed. None: dropping an open socket's message is not possible.
\<close>

definition sendMsg :: "bool \<Rightarrow> message \<Rightarrow> service \<Rightarrow> service option" where
  "sendMsg dropped msg s =
     (let k = sv_sock s; so = sv_socks s ! k in
      if dropped then (if so_closed so then Some s else None)
      else Some (s\<lparr>sv_socks := (sv_socks s)[k := so\<lparr>so_sent := so_sent so @ [msg]\<rparr>]\<rparr>))"

definition chan_push_locked :: "serviceRes \<Rightarrow> channel \<Rightarrow> channel" where
  "chan_push_locked res ch = ch\<lparr>ch_rx := rx_push_locked res (ch_rx ch)\<rparr>"

definition push_locked :: "nat \<Rightarrow> serviceRes \<Rightarrow> service \<Rightarrow> service" where
  "push_locked r res s = s\<lparr>sv_chans := (sv_chans s)[r := chan_push_locked res (sv_chans s ! r)]\<rparr>"

definition push_detach :: "nat \<Rightarrow> serviceRes \<Rightarrow> service \<Rightarrow> service go" where
  "push_detach r res s =
     go_bind (rx_push_detaches res (ch_rx (sv_chans s ! r))) (\<lambda>b.
       Ret (if b then s\<lparr>sv_sessions := sessions_Detach (rx_id (ch_rx (sv_chans s ! r))) (sv_sessions s)\<rparr>
            else s))"

definition ErrDisconnected :: i64 where "ErrDisconnected = - 100"

definition disconnectedRes :: serviceRes where
  "disconnectedRes = \<lparr>sr_payload = [], sr_method = 1,
     sr_err = Some (ServiceError ErrDisconnected ''Disconnected'')\<rparr>"

fun pushDisconnected_loop :: "u64 list \<Rightarrow> service \<Rightarrow> service go" where
  "pushDisconnected_loop [] s = Ret s"
| "pushDisconnected_loop (key # keys) s =
     (case sessions_Get (sv_sessions s) key of
        None \<Rightarrow> pushDisconnected_loop keys s
      | Some r \<Rightarrow> go_bind (push_detach r disconnectedRes (push_locked r disconnectedRes s))
                     (pushDisconnected_loop keys))"

definition pushDisconnectedError :: "service \<Rightarrow> service go" where
  "pushDisconnectedError s = pushDisconnected_loop (sessions_Keys (sv_sessions s)) s"

definition service_close :: "service \<Rightarrow> service go" where
  "service_close s =
     (if sv_stop_closed s then Panic CloseOfClosed
      else let k = sv_sock s; so = sv_socks s ! k in
        if so_close_called so then Panic CloseOfClosed
        else Ret (s\<lparr>sv_stop_closed := True,
                    sv_socks := (sv_socks s)[k := so\<lparr>so_closed := True, so_close_called := True\<rparr>]\<rparr>))"

text \<open>
  \<open>Reconnect\<close>, with the outcomes of resolving the name and of connecting (None: success). The
  description found by resolving is not used: the service keeps its \<open>API\<close>.
\<close>

text \<open>\<open>Close\<close> takes the read lock around \<open>close\<close>.\<close>

definition service_Close :: "service \<Rightarrow> service go" where [simp]: "service_Close s = service_close s"

definition Reconnect :: "bool \<Rightarrow> goerr option \<Rightarrow> goerr option \<Rightarrow> service \<Rightarrow> (service \<times> goerr option) go" where
  "Reconnect force resolveErr ioErr s =
     (if \<not> force \<and> \<not> disconnected s then Ret (s, None)
      else go_bind (pushDisconnectedError s) (\<lambda>s1.
        case resolveErr of
          Some err \<Rightarrow> Ret (s1, Some err)
        | None \<Rightarrow>
            (case ioErr of
               Some err \<Rightarrow> Ret (s1, Some err)
             | None \<Rightarrow> go_bind (service_close s1) (\<lambda>s2.
                 Ret (s2\<lparr>sv_stop_closed := False, sv_epoch := sv_epoch s2 + 1,
                         sv_socks := sv_socks s2 @ [newSock], sv_sock := length (sv_socks s2),
                         sv_spawned := sv_spawned s2 + 1\<rparr>, None)))))"

definition zeroDispatchItem :: dispatchItem where
  "zeroDispatchItem = \<lparr>di_Name = [], Downstream = NilStream, Upstream = NilStream\<rparr>"

definition call_headers :: "traceinfo option \<Rightarrow> gval list" where
  "call_headers ti = (case ti of None \<Rightarrow> [] | Some t \<Rightarrow> traceInfoToHeaders t)"

text \<open>\<open>call\<close>; \<open>ti\<close> is the trace of the call's span, if the context carries one.\<close>

definition service_call ::
  "string \<Rightarrow> gval list \<Rightarrow> traceinfo option \<Rightarrow> bool \<Rightarrow> service \<Rightarrow> (service \<times> (goerr + nat)) option" where
  "service_call name args ti dropped s =
     (case dispatch_MethodByName name (sv_API s) of
        Inl err \<Rightarrow> Some (s, Inl err)
      | Inr methodNum \<Rightarrow>
          (let it = (case map_of (sv_API s) methodNum of Some i \<Rightarrow> i | None \<Rightarrow> zeroDispatchItem);
               r = length (sv_chans s)
           in case sessions_Attach r (sv_sessions s) of (ss, i) \<Rightarrow>
             let ch = \<lparr>ch_rx = newRx (Upstream it) i, ch_tx = newTx (Downstream it) i (call_headers ti)\<rparr>
             in map_option (\<lambda>s'. (s', Inr r))
                  (sendMsg dropped \<lparr>Session = i, MsgType = methodNum, Payload = args, Headers = call_headers ti\<rparr>
                     (s\<lparr>sv_sessions := ss, sv_chans := sv_chans s @ [ch]\<rparr>))))"

definition service_Call :: "string \<Rightarrow> gval list \<Rightarrow> traceinfo option \<Rightarrow> bool \<Rightarrow> goerr option \<Rightarrow> goerr option
    \<Rightarrow> service \<Rightarrow> (service \<times> (goerr + nat)) go option" where
  "service_Call name args ti dropped resolveErr ioErr s =
     (if disconnected s then
        (case Reconnect False resolveErr ioErr s of
           Panic p \<Rightarrow> Some (Panic p)
         | Ret (s1, Some err) \<Rightarrow> Some (Ret (s1, Inl err))
         | Ret (s1, None) \<Rightarrow> map_option Ret (service_call name args ti dropped s1))
      else map_option Ret (service_call name args ti dropped s))"

text \<open>\<open>tx.Call\<close> through the service.\<close>

definition chan_Call :: "nat \<Rightarrow> string \<Rightarrow> gval list \<Rightarrow> bool \<Rightarrow> service \<Rightarrow> (service \<times> goerr option) go option" where
  "chan_Call r name args dropped s =
     (case tx_Call name args (ch_tx (sv_chans s ! r)) of
        Panic p \<Rightarrow> Some (Panic p)
      | Ret (t, Inl err) \<Rightarrow> Some (Ret (s, Some err))
      | Ret (t, Inr msg) \<Rightarrow> map_option (\<lambda>s'. Ret (s', None))
          (sendMsg dropped msg
             (s\<lparr>sv_chans := (sv_chans s)[r := (sv_chans s ! r)\<lparr>ch_tx := t\<rparr>]\<rparr>)))"

section \<open>The goroutines\<close>

definition res_of_msg :: "message \<Rightarrow> serviceRes" where
  "res_of_msg data = \<lparr>sr_payload = Payload data, sr_method = MsgType data, sr_err = None\<rparr>"

text \<open>One message of the range loop in \<open>loop\<close>: find the channel and push; then the rest of \<open>push\<close>.\<close>

definition loop_msg :: "nat \<Rightarrow> message \<Rightarrow> service \<Rightarrow> service option" where
  "loop_msg l data s =
     (let lp = sv_loops s ! l in
      if lp_pc lp = LoopReading then
        (case sessions_Get (sv_sessions s) (Session data) of
           None \<Rightarrow> Some s
         | Some r \<Rightarrow> Some ((push_locked r (res_of_msg data) s)
             \<lparr>sv_loops := (sv_loops s)[l := lp\<lparr>lp_pc := LoopDetaching r (res_of_msg data)\<rparr>]\<rparr>))
      else None)"

definition loop_detach :: "nat \<Rightarrow> service \<Rightarrow> service option" where
  "loop_detach l s =
     (let lp = sv_loops s ! l in
      case lp_pc lp of
        LoopDetaching r res \<Rightarrow>
          (case push_detach r res s of
             Panic p \<Rightarrow> Some (s\<lparr>sv_crash := Some p\<rparr>)
           | Ret s' \<Rightarrow> Some (s'\<lparr>sv_loops := (sv_loops s')[l := lp\<lparr>lp_pc := LoopReading\<rparr>]\<rparr>))
      | _ \<Rightarrow> None)"

text \<open>The end of \<open>loop\<close>, when its socket's read channel ends.\<close>

definition loop_end :: "nat \<Rightarrow> service \<Rightarrow> service option" where
  "loop_end l s =
     (let lp = sv_loops s ! l; s' = s\<lparr>sv_loops := (sv_loops s)[l := lp\<lparr>lp_pc := LoopEnded\<rparr>]\<rparr> in
      if lp_pc lp = LoopReading \<and> so_closed (sv_socks s ! lp_sock lp) then
        (if lp_epoch lp = sv_epoch s then
           (case pushDisconnectedError s' of Panic p \<Rightarrow> Some (s\<lparr>sv_crash := Some p\<rparr>) | Ret s'' \<Rightarrow> Some s'')
         else Some s')
      else None)"

definition loop_start :: "service \<Rightarrow> service option" where
  "loop_start s =
     (if 0 < sv_spawned s
      then Some (s\<lparr>sv_spawned := sv_spawned s - 1,
             sv_loops := sv_loops s @ [\<lparr>lp_epoch = sv_epoch s, lp_sock = sv_sock s, lp_pc = LoopReading\<rparr>]\<rparr>)
      else None)"

datatype svevent =
    SvCall string "gval list" "traceinfo option" bool "goerr option" "goerr option"
  | SvReconnect bool "goerr option" "goerr option"
  | SvClose
  | SvLost nat
  | SvLoopStart
  | SvMsg nat message
  | SvDetach nat
  | SvReadEnd nat
  | SvRx nat rxevent
  | SvTx nat string "gval list" bool

definition sv_panic :: "service \<Rightarrow> panic \<Rightarrow> service option" where
  "sv_panic s p = Some (s\<lparr>sv_crash := Some p\<rparr>)"

fun rx_by_reader :: "rxevent \<Rightarrow> bool" where
  "rx_by_reader (RxPush res) = False"
| "rx_by_reader _ = True"

definition reader_step :: "errConvert \<Rightarrow> nat \<Rightarrow> rxevent \<Rightarrow> service \<Rightarrow> service option" where
  "reader_step conv r e s =
     (if r < length (sv_chans s) \<and> rx_by_reader e then
        (case rx_step conv (ch_rx (sv_chans s ! r)) e of
           None \<Rightarrow> None
         | Some x \<Rightarrow> Some (s\<lparr>sv_chans := (sv_chans s)[r := (sv_chans s ! r)\<lparr>ch_rx := x\<rparr>],
                            sv_crash := rx_crash x\<rparr>))
      else None)"

fun service_events :: "errConvert \<Rightarrow> service \<Rightarrow> svevent \<Rightarrow> service option" where
  "service_events conv s (SvCall name args ti dropped e1 e2) =
     (case service_Call name args ti dropped e1 e2 s of
        None \<Rightarrow> None | Some (Panic p) \<Rightarrow> sv_panic s p | Some (Ret (s', r)) \<Rightarrow> Some s')"
| "service_events conv s (SvReconnect force e1 e2) =
     (case Reconnect force e1 e2 s of Panic p \<Rightarrow> sv_panic s p | Ret (s', err) \<Rightarrow> Some s')"
| "service_events conv s SvClose = (case service_Close s of Panic p \<Rightarrow> sv_panic s p | Ret s' \<Rightarrow> Some s')"
| "service_events conv s (SvLost k) =
     (if k < length (sv_socks s)
      then Some (s\<lparr>sv_socks := (sv_socks s)[k := (sv_socks s ! k)\<lparr>so_closed := True\<rparr>]\<rparr>) else None)"
| "service_events conv s SvLoopStart = loop_start s"
| "service_events conv s (SvMsg l data) = (if l < length (sv_loops s) then loop_msg l data s else None)"
| "service_events conv s (SvDetach l) = (if l < length (sv_loops s) then loop_detach l s else None)"
| "service_events conv s (SvReadEnd l) = (if l < length (sv_loops s) then loop_end l s else None)"
| "service_events conv s (SvRx r e) = reader_step conv r e s"
| "service_events conv s (SvTx r name args dropped) =
     (if r < length (sv_chans s) then
        (case chan_Call r name args dropped s of
           None \<Rightarrow> None | Some (Panic p) \<Rightarrow> sv_panic s p | Some (Ret (s', err)) \<Rightarrow> Some s')
      else None)"

definition service_step :: "errConvert \<Rightarrow> service \<Rightarrow> svevent \<Rightarrow> service option" where
  "service_step conv s e = (if sv_crash s = None then service_events conv s e else None)"

section \<open>Session numbers and references\<close>

definition chan_ids :: "service \<Rightarrow> (u64 \<times> u64) list" where
  "chan_ids s = map (\<lambda>c. (rx_id (ch_rx c), tx_id (ch_tx c))) (sv_chans s)"

definition id_of :: "nat \<Rightarrow> u64" where "id_of r = word_of_nat r + 2"

text \<open>
  The channel at position \<open>r\<close> has the session number \<open>id_of r\<close>, and the table maps a number only
  to the channel that has it.
\<close>

definition ids_inv :: "service \<Rightarrow> bool" where
  "ids_inv s \<longleftrightarrow> sessions_inv (sv_sessions s) \<and>
     counter (sv_sessions s) = 1 + word_of_nat (length (sv_chans s)) \<and>
     chan_ids s = map (\<lambda>r. (id_of r, id_of r)) [0..<length (sv_chans s)] \<and>
     (\<forall>i r. sessions_Get (sv_sessions s) i = Some r \<longrightarrow> r < length (sv_chans s) \<and> i = id_of r)"

text \<open>What the operations on existing channels keep.\<close>

definition svc_frame :: "service \<Rightarrow> service \<Rightarrow> bool" where
  "svc_frame s t \<longleftrightarrow> chan_ids t = chan_ids s \<and>
     counter (sv_sessions t) = counter (sv_sessions s) \<and>
     (sessions_inv (sv_sessions s) \<longrightarrow> sessions_inv (sv_sessions t) \<and>
        sessions_Get (sv_sessions t) \<subseteq>\<^sub>m sessions_Get (sv_sessions s))"

lemma svc_frame_refl [simp]: "svc_frame s s"
  by (simp add: svc_frame_def)

lemma svc_frame_trans: "svc_frame s t \<Longrightarrow> svc_frame t u \<Longrightarrow> svc_frame s u"
  by (auto simp: svc_frame_def intro: map_le_trans)

lemma chan_ids_length: "chan_ids t = chan_ids s \<Longrightarrow> length (sv_chans t) = length (sv_chans s)"
  unfolding chan_ids_def by (rule map_eq_imp_length_eq)

lemma ids_inv_frame:
  assumes "svc_frame s t" and "ids_inv s"
  shows "ids_inv t"
proof -
  have len: "length (sv_chans t) = length (sv_chans s)"
    using assms(1) by (auto simp: svc_frame_def intro: chan_ids_length)
  have "sessions_Get (sv_sessions t) \<subseteq>\<^sub>m sessions_Get (sv_sessions s)"
    using assms by (simp add: svc_frame_def ids_inv_def)
  then have "sessions_Get (sv_sessions s) i = Some r" if "sessions_Get (sv_sessions t) i = Some r" for i r
    using that by (metis map_le_def domI)
  with assms len show ?thesis by (auto simp: svc_frame_def ids_inv_def)
qed

lemma svc_frame_same:
  "sv_chans t = sv_chans s \<Longrightarrow> sv_sessions t = sv_sessions s \<Longrightarrow> svc_frame s t"
  by (simp add: svc_frame_def chan_ids_def)

lemma chan_ids_update:
  assumes "rx_id (ch_rx c) = rx_id (ch_rx (sv_chans s ! r))" and "tx_id (ch_tx c) = tx_id (ch_tx (sv_chans s ! r))"
  shows "map (\<lambda>c. (rx_id (ch_rx c), tx_id (ch_tx c))) ((sv_chans s)[r := c]) = chan_ids s"
proof (cases "r < length (sv_chans s)")
  case True
  with assms show ?thesis by (simp add: chan_ids_def map_update list_update_same_conv)
qed (simp add: chan_ids_def list_update_beyond)

lemma svc_frame_update:
  assumes "rx_id (ch_rx c) = rx_id (ch_rx (sv_chans s ! r))" and "tx_id (ch_tx c) = tx_id (ch_tx (sv_chans s ! r))"
    and "sv_chans t = (sv_chans s)[r := c]" and "sv_sessions t = sv_sessions s"
  shows "svc_frame s t"
  using chan_ids_update [OF assms(1,2)] assms(3,4) by (simp add: svc_frame_def) (simp add: chan_ids_def)

lemma svc_frame_push_locked: "svc_frame s (push_locked r res s)"
  by (rule svc_frame_update [where c = "chan_push_locked res (sv_chans s ! r)"])
     (simp_all add: push_locked_def chan_push_locked_def)

lemma svc_frame_push_detach: "push_detach r res s = Ret t \<Longrightarrow> svc_frame s t"
  by (auto simp: push_detach_def svc_frame_def chan_ids_def st.get_detach st.invar_detach
      st.count_detach map_le_def split: if_splits)

lemma svc_frame_pushDisconnected: "pushDisconnected_loop keys s = Ret t \<Longrightarrow> svc_frame s t"
proof (induction keys s rule: pushDisconnected_loop.induct)
  case (2 key keys s)
  show ?case
  proof (cases "sessions_Get (sv_sessions s) key")
    case None
    with 2 show ?thesis by simp
  next
    case (Some r)
    with 2 obtain u where u: "push_detach r disconnectedRes (push_locked r disconnectedRes s) = Ret u"
        "pushDisconnected_loop keys u = Ret t"
      by auto
    from "2.IH"(2) [OF Some u(2)] svc_frame_push_detach [OF u(1)] svc_frame_push_locked show ?thesis
      by (blast intro: svc_frame_trans)
  qed
qed simp

lemma svc_frame_close: "service_close s = Ret t \<Longrightarrow> svc_frame s t"
  by (auto simp: service_close_def Let_def split: if_splits intro: svc_frame_same)

lemma svc_frame_Reconnect:
  assumes "Reconnect force e1 e2 s = Ret (t, err)"
  shows "svc_frame s t"
proof (cases "\<not> force \<and> \<not> disconnected s")
  case True
  with assms show ?thesis by (auto simp: Reconnect_def)
next
  case False
  with assms obtain s1 where s1: "pushDisconnectedError s = Ret s1"
    and rest: "t = s1 \<or> (\<exists>s2. service_close s1 = Ret s2 \<and> sv_chans t = sv_chans s2 \<and>
        sv_sessions t = sv_sessions s2)"
    by (auto simp: Reconnect_def split: option.splits)
  have "svc_frame s s1"
    using s1 by (auto simp: pushDisconnectedError_def dest: svc_frame_pushDisconnected)
  moreover from rest have "svc_frame s1 t"
    by (auto intro: svc_frame_trans [OF svc_frame_close svc_frame_same])
  ultimately show ?thesis by (rule svc_frame_trans)
qed

lemma sendMsg_frame:
  "sendMsg dropped msg s = Some t \<Longrightarrow> sv_chans t = sv_chans s \<and> sv_sessions t = sv_sessions s"
  by (auto simp: sendMsg_def Let_def split: if_splits)

lemma ids_inv_call:
  assumes "service_call name args ti dropped s = Some (t, r)" and "ids_inv s"
  shows "ids_inv t"
proof (cases "dispatch_MethodByName name (sv_API s)")
  case (Inl err)
  with assms show ?thesis by (simp add: service_call_def)
next
  case (Inr m)
  let ?n = "length (sv_chans s)"
  have i: "counter (sv_sessions s) + 1 = id_of ?n" using assms(2) by (simp add: ids_inv_def id_of_def)
  obtain c where t: "sv_chans t = sv_chans s @ [c]" "rx_id (ch_rx c) = id_of ?n" "tx_id (ch_tx c) = id_of ?n"
      "sv_sessions t = fst (sessions_Attach ?n (sv_sessions s))"
    using assms(1) Inr i
    by (auto simp: service_call_def sessions_Attach_def newRx_def newTx_def Let_def dest!: sendMsg_frame)
  have "sessions_inv (sv_sessions t)" "counter (sv_sessions t) = 1 + word_of_nat (length (sv_chans t))"
    using t(1,4) assms(2) st.invar_attach [of "sv_sessions s"] st.count_attach [of ?n "sv_sessions s"]
    by (simp_all add: ids_inv_def)
  moreover have "chan_ids t = map (\<lambda>r. (id_of r, id_of r)) [0..<length (sv_chans t)]"
    using t assms(2) by (simp add: ids_inv_def chan_ids_def)
  moreover have "r < length (sv_chans t) \<and> j = id_of r"
    if "sessions_Get (sv_sessions t) j = Some r" for j r
  proof (cases "j = id_of ?n")
    case True
    with that t(1,4) i st.get_attach [of ?n "sv_sessions s"] show ?thesis by simp
  next
    case False
    with that t(4) i st.get_attach [of ?n "sv_sessions s"]
    have "sessions_Get (sv_sessions s) j = Some r" by simp
    with assms(2) t(1) show ?thesis by (simp add: ids_inv_def less_Suc_eq)
  qed
  ultimately show ?thesis by (simp add: ids_inv_def)
qed

lemma svc_frame_loop_msg: "loop_msg l data s = Some t \<Longrightarrow> svc_frame s t"
  by (auto simp: loop_msg_def Let_def split: if_splits option.splits
      intro: svc_frame_trans [OF svc_frame_push_locked svc_frame_same])

lemma svc_frame_loop_detach: "loop_detach l s = Some t \<Longrightarrow> svc_frame s t"
  by (auto simp: loop_detach_def Let_def split: loopPc.splits go.splits
      intro: svc_frame_trans [OF svc_frame_push_detach svc_frame_same] svc_frame_same)

lemma svc_frame_loop_end:
  assumes "loop_end l s = Some t"
  shows "svc_frame s t"
proof -
  let ?s = "s\<lparr>sv_loops := (sv_loops s)[l := (sv_loops s ! l)\<lparr>lp_pc := LoopEnded\<rparr>]\<rparr>"
  have "svc_frame s ?s" by (rule svc_frame_same) simp_all
  then show ?thesis
    using assms
    by (auto simp: loop_end_def Let_def pushDisconnectedError_def split: if_splits go.splits
        intro: svc_frame_trans [OF _ svc_frame_pushDisconnected] svc_frame_same)
qed

lemma rx_step_id: "rx_step conv x e = Some y \<Longrightarrow> rx_id y = rx_id x"
  by (cases e) (auto split: if_splits getPc.splits go.splits dest!: rx_process_frame)

lemma svc_frame_reader:
  assumes "reader_step conv r e s = Some t"
  shows "svc_frame s t"
proof -
  obtain x where x: "rx_step conv (ch_rx (sv_chans s ! r)) e = Some x"
      "sv_chans t = (sv_chans s)[r := (sv_chans s ! r)\<lparr>ch_rx := x\<rparr>]" "sv_sessions t = sv_sessions s"
    using assms by (auto simp: reader_step_def split: if_splits option.splits)
  from x(2,3) show ?thesis by (rule svc_frame_update [rotated 2]) (simp_all add: rx_step_id [OF x(1)])
qed

lemma tx_Call_id: "tx_Call name args t = Ret (u, r) \<Longrightarrow> tx_id u = tx_id t"
  by (elim tx_Call_cases) simp_all

lemma svc_frame_chan_Call:
  assumes "chan_Call r name args dropped s = Some (Ret (t, err))"
  shows "svc_frame s t"
proof (cases "tx_Call name args (ch_tx (sv_chans s ! r))")
  case (Panic p)
  with assms show ?thesis by (simp add: chan_Call_def)
next
  case (Ret x)
  obtain u res where x: "x = (u, res)" by (cases x)
  show ?thesis
  proof (cases res)
    case (Inl e)
    with Ret x assms show ?thesis by (simp add: chan_Call_def)
  next
    case (Inr msg)
    with Ret x assms have "sv_chans t = (sv_chans s)[r := (sv_chans s ! r)\<lparr>ch_tx := u\<rparr>]"
        "sv_sessions t = sv_sessions s"
      by (auto simp: chan_Call_def dest!: sendMsg_frame)
    then show ?thesis
      by (rule svc_frame_update [rotated 2]) (use tx_Call_id Ret x in auto)
  qed
qed

lemma ids_inv_Reconnect: "Reconnect force e1 e2 s = Ret (t, err) \<Longrightarrow> ids_inv s \<Longrightarrow> ids_inv t"
  by (rule ids_inv_frame [OF svc_frame_Reconnect])

lemma service_Call_cases:
  assumes "service_Call name args ti dropped e1 e2 s = Some (Ret (t, r))"
  obtains (failed) err where "Reconnect False e1 e2 s = Ret (t, Some err)" "r = Inl err"
  | (fresh) u where "Reconnect False e1 e2 s = Ret (u, None)" "service_call name args ti dropped u = Some (t, r)"
  | (plain) "service_call name args ti dropped s = Some (t, r)"
  using assms by (auto simp: service_Call_def split: if_splits go.splits option.splits)

lemma ids_inv_Call:
  assumes "service_Call name args ti dropped e1 e2 s = Some (Ret (t, r))" and "ids_inv s"
  shows "ids_inv t"
  using assms(1)
proof (cases rule: service_Call_cases)
  case (fresh u)
  with ids_inv_call ids_inv_Reconnect assms(2) show ?thesis by blast
qed (use ids_inv_call ids_inv_Reconnect assms(2) in blast)+

lemma ids_inv_step:
  assumes "service_step conv s e = Some t" and "ids_inv s"
  shows "ids_inv t"
proof -
  have e: "service_events conv s e = Some t" using assms(1) by (simp add: service_step_def split: if_splits)
  have crash: "ids_inv (s\<lparr>sv_crash := p\<rparr>)" for p
    by (rule ids_inv_frame [OF svc_frame_same assms(2)]) simp_all
  show ?thesis
  proof (cases e)
    case (SvCall name args ti dropped e1 e2)
    with e crash assms(2) show ?thesis
      by (auto simp: sv_panic_def split: option.splits go.splits intro: ids_inv_Call)
  next
    case (SvReconnect force e1 e2)
    with e crash assms(2) show ?thesis
      by (auto simp: sv_panic_def split: go.splits dest: svc_frame_Reconnect ids_inv_frame)
  next
    case SvClose
    with e crash assms(2) show ?thesis
      by (auto simp: sv_panic_def split: go.splits dest: svc_frame_close ids_inv_frame)
  next
    case (SvTx r name args dropped)
    with e crash assms(2) show ?thesis
      by (auto simp: sv_panic_def split: if_splits option.splits go.splits
          dest: svc_frame_chan_Call ids_inv_frame)
  qed (use e assms(2) in \<open>auto simp: loop_start_def split: if_splits
       intro: ids_inv_frame [OF svc_frame_same assms(2)]
       dest: svc_frame_loop_msg svc_frame_loop_detach svc_frame_loop_end svc_frame_reader ids_inv_frame\<close>)
qed

lemma ids_inv_new: "ids_inv (newService api)"
  by (simp add: ids_inv_def newService_def newSessions_def sessions_inv_def alist_ok_def chan_ids_def
      sessions_Get_def)

lemma ids_inv_run: "run (service_step conv) (newService api) es = Some s \<Longrightarrow> ids_inv s"
  using run_invariant [of ids_inv "service_step conv" "newService api" es s] ids_inv_step ids_inv_new
  by blast

section \<open>What has been sent\<close>

text \<open>Every message on any socket belongs to a session that was opened by this service.\<close>

definition sent_ok :: "nat \<Rightarrow> svsock \<Rightarrow> bool" where
  "sent_ok n so \<longleftrightarrow> (\<forall>m \<in> set (so_sent so). \<exists>r < n. Session m = id_of r)"

definition sent_inv :: "service \<Rightarrow> bool" where
  "sent_inv s \<longleftrightarrow> sv_sock s < length (sv_socks s) \<and>
     (\<forall>so \<in> set (sv_socks s). sent_ok (length (sv_chans s)) so)"

lemma sent_ok_mono: "sent_ok n so \<Longrightarrow> n \<le> m \<Longrightarrow> sent_ok m so"
  unfolding sent_ok_def by (meson less_le_trans)

lemma sent_inv_frame:
  assumes "sent_inv s" and "sv_sock t < length (sv_socks t)" and "length (sv_chans s) \<le> length (sv_chans t)"
    and "\<forall>so \<in> set (sv_socks t). so_sent so = [] \<or> (\<exists>so' \<in> set (sv_socks s). so_sent so = so_sent so')"
  shows "sent_inv t"
proof -
  have "sent_ok (length (sv_chans t)) so" if "so \<in> set (sv_socks t)" for so
    using assms(4) that
  proof (elim ballE disjE bexE)
    fix so' assume "so' \<in> set (sv_socks s)" "so_sent so = so_sent so'"
    with sent_ok_mono [OF _ assms(3), of so'] assms(1) show ?thesis by (simp add: sent_inv_def sent_ok_def)
  qed (auto simp: sent_ok_def)
  with assms(2) show ?thesis by (simp add: sent_inv_def)
qed

lemma sent_inv_same:
  "sent_inv s \<Longrightarrow> sv_socks t = sv_socks s \<Longrightarrow> sv_sock t = sv_sock s \<Longrightarrow>
     length (sv_chans s) \<le> length (sv_chans t) \<Longrightarrow> sent_inv t"
  by (rule sent_inv_frame) (auto simp: sent_inv_def)

lemma sent_inv_close_sock:
  assumes "sent_inv s" and "k < length (sv_socks s)" and "so_sent so = so_sent (sv_socks s ! k)"
    and "sv_socks t = (sv_socks s)[k := so]" and "sv_sock t = sv_sock s" and "sv_chans t = sv_chans s"
  shows "sent_inv t"
proof (rule sent_inv_frame [OF assms(1)])
  show "\<forall>so \<in> set (sv_socks t). so_sent so = [] \<or> (\<exists>so' \<in> set (sv_socks s). so_sent so = so_sent so')"
    using assms(2,3,4) set_update_subset_insert [of "sv_socks s" k so] by (auto intro: nth_mem)
qed (use assms in \<open>auto simp: sent_inv_def\<close>)

lemma sent_inv_close:
  assumes "service_close s = Ret t" and "sent_inv s"
  shows "sent_inv t"
proof -
  let ?so = "(sv_socks s ! sv_sock s)\<lparr>so_closed := True, so_close_called := True\<rparr>"
  have "sv_socks t = (sv_socks s)[sv_sock s := ?so]" "sv_sock t = sv_sock s" "sv_chans t = sv_chans s"
    using assms(1) by (auto simp: service_close_def Let_def split: if_splits)
  then show ?thesis
    by (rule sent_inv_close_sock [rotated 3]) (use assms(2) in \<open>simp_all add: sent_inv_def\<close>)
qed

lemma sent_inv_sendMsg:
  assumes "sendMsg dropped msg s = Some t" and "sent_inv s" and "r < length (sv_chans s)"
    and "Session msg = id_of r"
  shows "sent_inv t"
proof (cases dropped)
  case True
  with assms(1,2) show ?thesis by (auto simp: sendMsg_def Let_def split: if_splits)
next
  case False
  let ?k = "sv_sock s"
  let ?so = "(sv_socks s ! ?k)\<lparr>so_sent := so_sent (sv_socks s ! ?k) @ [msg]\<rparr>"
  have t: "sv_socks t = (sv_socks s)[?k := ?so]" "sv_sock t = ?k" "sv_chans t = sv_chans s"
    using assms(1) False by (auto simp: sendMsg_def Let_def)
  have k: "?k < length (sv_socks s)" "sent_ok (length (sv_chans s)) (sv_socks s ! ?k)"
    using assms(2) by (auto simp: sent_inv_def)
  then have "sent_ok (length (sv_chans s)) ?so" using assms(3,4) by (auto simp: sent_ok_def)
  then have "\<forall>so \<in> set (sv_socks t). sent_ok (length (sv_chans s)) so"
    using assms(2) set_update_subset_insert [of "sv_socks s" ?k ?so] t(1) by (auto simp: sent_inv_def)
  with t k show ?thesis by (simp add: sent_inv_def)
qed

lemma push_detach_socks:
  "push_detach r res s = Ret t \<Longrightarrow> sv_socks t = sv_socks s \<and> sv_sock t = sv_sock s \<and>
     sv_chans t = sv_chans s \<and> sv_stop_closed t = sv_stop_closed s"
  by (auto simp: push_detach_def split: if_splits)

lemma pushDisconnected_socks:
  "pushDisconnected_loop keys s = Ret t \<Longrightarrow> sv_socks t = sv_socks s \<and> sv_sock t = sv_sock s \<and>
     length (sv_chans t) = length (sv_chans s) \<and> sv_stop_closed t = sv_stop_closed s"
proof (induction keys s rule: pushDisconnected_loop.induct)
  case (2 key keys s)
  then show ?case
    by (auto split: option.splits dest!: push_detach_socks simp: push_locked_def)
qed simp

lemma sent_inv_Reconnect:
  assumes "Reconnect force e1 e2 s = Ret (t, err)" and "sent_inv s"
  shows "sent_inv t"
proof (cases "\<not> force \<and> \<not> disconnected s")
  case True
  with assms show ?thesis by (auto simp: Reconnect_def)
next
  case False
  with assms(1) obtain s1 where s1: "pushDisconnectedError s = Ret s1"
    and rest: "t = s1 \<or> (\<exists>s2. service_close s1 = Ret s2 \<and> sv_chans t = sv_chans s2 \<and>
        sv_socks t = sv_socks s2 @ [newSock] \<and> sv_sock t = length (sv_socks s2))"
    by (auto simp: Reconnect_def split: option.splits)
  have inv1: "sent_inv s1"
    using pushDisconnected_socks s1 assms(2) by (auto simp: pushDisconnectedError_def intro: sent_inv_same)
  show ?thesis
    using rest
  proof (elim disjE exE conjE)
    fix s2 assume s2: "service_close s1 = Ret s2" and t: "sv_chans t = sv_chans s2"
        "sv_socks t = sv_socks s2 @ [newSock]" "sv_sock t = length (sv_socks s2)"
    from sent_inv_close [OF s2 inv1] t show ?thesis by (auto simp: sent_inv_def sent_ok_def newSock_def)
  qed (simp add: inv1)
qed

lemma service_call_Inr:
  assumes "service_call name args ti dropped s = Some (t, Inr r)"
  obtains u m where "sendMsg dropped m u = Some t" "Session m = counter (sv_sessions s) + 1"
    "r = length (sv_chans s)" "sv_socks u = sv_socks s" "sv_sock u = sv_sock s"
    "length (sv_chans u) = Suc (length (sv_chans s))"
    "sv_sessions u = fst (sessions_Attach (length (sv_chans s)) (sv_sessions s))"
proof (cases "dispatch_MethodByName name (sv_API s)")
  case (Inl err)
  with assms show ?thesis by (simp add: service_call_def)
next
  case (Inr num)
  then show ?thesis
    using assms by (auto simp: service_call_def Let_def case_prod_beta st.attach_id intro: that)
qed

lemma sent_inv_call:
  assumes "service_call name args ti dropped s = Some (t, r)" and "sent_inv s" and "ids_inv s"
  shows "sent_inv t"
proof (cases "dispatch_MethodByName name (sv_API s)")
  case (Inl err)
  with assms show ?thesis by (simp add: service_call_def)
next
  case (Inr m)
  let ?n = "length (sv_chans s)"
  have i: "counter (sv_sessions s) + 1 = id_of ?n" using assms(3) by (simp add: ids_inv_def id_of_def)
  obtain u msg where u: "sendMsg dropped msg u = Some t" "Session msg = id_of ?n"
      "length (sv_chans u) = Suc ?n" "sv_socks u = sv_socks s" "sv_sock u = sv_sock s"
    using assms(1) Inr i by (auto simp: service_call_def sessions_Attach_def Let_def)
  have "sent_inv u" by (rule sent_inv_same [OF assms(2)]) (simp_all add: u)
  with u show ?thesis by (auto intro: sent_inv_sendMsg)
qed

lemma sent_inv_chan_Call:
  assumes "chan_Call r name args dropped s = Some (Ret (t, err))" and "r < length (sv_chans s)"
    and "sent_inv s" and "ids_inv s"
  shows "sent_inv t"
proof -
  let ?x = "ch_tx (sv_chans s ! r)"
  obtain u res where x: "tx_Call name args ?x = Ret (u, res)"
    using assms(1) by (auto simp: chan_Call_def split: go.splits)
  have "chan_ids s ! r = (id_of r, id_of r)" using assms(2,4) by (simp add: ids_inv_def)
  then have i: "tx_id ?x = id_of r" using assms(2) by (simp add: chan_ids_def)
  show ?thesis
  proof (cases res)
    case (Inl e)
    with x assms show ?thesis by (simp add: chan_Call_def)
  next
    case (Inr msg)
    with x i have "Session msg = id_of r" by (auto elim!: tx_Call_cases)
    moreover have "sent_inv (s\<lparr>sv_chans := (sv_chans s)[r := (sv_chans s ! r)\<lparr>ch_tx := u\<rparr>]\<rparr>)"
      by (rule sent_inv_same [OF assms(3)]) simp_all
    moreover have "sendMsg dropped msg (s\<lparr>sv_chans := (sv_chans s)[r := (sv_chans s ! r)\<lparr>ch_tx := u\<rparr>]\<rparr>) = Some t"
      using assms(1) x Inr by (auto simp: chan_Call_def)
    ultimately show ?thesis using assms(2) by (auto intro: sent_inv_sendMsg)
  qed
qed

lemma sent_inv_loops:
  assumes "sent_inv s"
  shows "loop_msg l data s = Some t \<Longrightarrow> sent_inv t" and "loop_detach l s = Some t \<Longrightarrow> sent_inv t"
    and "loop_end l s = Some t \<Longrightarrow> sent_inv t" and "reader_step conv r e s = Some t \<Longrightarrow> sent_inv t"
  by (auto simp: loop_msg_def loop_detach_def loop_end_def reader_step_def push_locked_def Let_def
      pushDisconnectedError_def split: if_splits option.splits loopPc.splits go.splits
      dest!: push_detach_socks pushDisconnected_socks intro!: sent_inv_same [OF assms])

lemma sent_inv_step:
  assumes "service_step conv s e = Some t" and "sent_inv s" and "ids_inv s"
  shows "sent_inv t"
proof -
  have e: "service_events conv s e = Some t" using assms(1) by (simp add: service_step_def split: if_splits)
  have crash: "sent_inv (s\<lparr>sv_crash := p\<rparr>)" for p
    by (rule sent_inv_same [OF assms(2)]) simp_all
  show ?thesis
  proof (cases e)
    case (SvCall name args ti dropped e1 e2)
    with e consider "t = s\<lparr>sv_crash := sv_crash t\<rparr>"
      | r where "service_Call name args ti dropped e1 e2 s = Some (Ret (t, r))"
      by (auto simp: sv_panic_def split: option.splits go.splits)
    then show ?thesis
    proof cases
      case 1
      with crash show ?thesis by metis
    next
      case 2
      then show ?thesis
      proof (cases rule: service_Call_cases)
        case (fresh u)
        with sent_inv_Reconnect ids_inv_Reconnect assms(2,3) have "sent_inv u" "ids_inv u" by blast+
        with fresh(2) show ?thesis by (rule sent_inv_call)
      qed (use sent_inv_call sent_inv_Reconnect assms(2,3) in blast)+
    qed
  next
    case (SvReconnect force e1 e2)
    with e crash assms(2) show ?thesis
      by (auto simp: sv_panic_def split: go.splits intro: sent_inv_Reconnect)
  next
    case SvClose
    with e crash assms(2) show ?thesis
      by (auto simp: sv_panic_def split: go.splits intro: sent_inv_close)
  next
    case (SvTx r name args dropped)
    with e crash assms(2,3) show ?thesis
      by (auto simp: sv_panic_def split: if_splits option.splits go.splits intro: sent_inv_chan_Call)
  next
    case (SvLost k)
    with e assms(2) show ?thesis
      by (auto split: if_splits
          intro!: sent_inv_close_sock [OF assms(2), of k "(sv_socks s ! k)\<lparr>so_closed := True\<rparr>"])
  next
    case SvLoopStart
    with e show ?thesis
      by (auto simp: loop_start_def split: if_splits intro!: sent_inv_same [OF assms(2)])
  qed (use e sent_inv_loops [OF assms(2)] in \<open>auto split: if_splits\<close>)
qed

lemma service_inv_run:
  assumes "run (service_step conv) (newService api) es = Some s"
  shows "ids_inv s \<and> sent_inv s"
proof (rule run_invariant [OF _ assms])
  show "ids_inv (newService api) \<and> sent_inv (newService api)"
    using ids_inv_new by (simp add: sent_inv_def newService_def newSock_def sent_ok_def)
qed (auto intro: ids_inv_step sent_inv_step)

section \<open>Disconnection\<close>

text \<open>The channels attached under some of the given numbers.\<close>

definition attached :: "u64 list \<Rightarrow> service \<Rightarrow> nat set" where
  "attached keys s = {r. \<exists>key \<in> set keys. sessions_Get (sv_sessions s) key = Some r}"

text \<open>Every attached channel's current upstream description has a message type 1.\<close>

definition can_disconnect :: "service \<Rightarrow> bool" where
  "can_disconnect s \<longleftrightarrow> (\<forall>i r. sessions_Get (sv_sessions s) i = Some r \<longrightarrow>
     (\<exists>it. tree_item (rx_tree (ch_rx (sv_chans s ! r))) 1 = Ret it))"

definition told :: "nat set \<Rightarrow> channel list \<Rightarrow> channel list" where
  "told rs cs = map (\<lambda>r. if r \<in> rs then chan_push_locked disconnectedRes (cs ! r) else cs ! r) [0..<length cs]"

lemma told_nth: "r < length cs \<Longrightarrow>
    told rs cs ! r = (if r \<in> rs then chan_push_locked disconnectedRes (cs ! r) else cs ! r)"
  by (simp add: told_def)

lemma told_length [simp]: "length (told rs cs) = length cs"
  by (simp add: told_def)

lemma told_empty [simp]: "told {} cs = cs"
  by (simp add: told_def map_nth)

lemma told_insert:
  "r < length cs \<Longrightarrow> r \<notin> rs \<Longrightarrow>
     told rs (cs[r := chan_push_locked disconnectedRes (cs ! r)]) = told (insert r rs) cs"
  by (rule nth_equalityI) (auto simp: told_nth nth_list_update)

lemma chan_push_tree [simp]: "rx_tree (ch_rx (chan_push_locked res c)) = rx_tree (ch_rx c)"
  "rx_id (ch_rx (chan_push_locked res c)) = rx_id (ch_rx c)"
  by (simp_all add: chan_push_locked_def)

lemma ids_inv_rx_id: "ids_inv s \<Longrightarrow> r < length (sv_chans s) \<Longrightarrow> rx_id (ch_rx (sv_chans s ! r)) = id_of r"
proof -
  assume "ids_inv s" "r < length (sv_chans s)"
  moreover from this have "chan_ids s ! r = (id_of r, id_of r)" by (simp add: ids_inv_def)
  ultimately show ?thesis by (simp add: chan_ids_def)
qed

text \<open>One round of the loop: the channel is told, and detached if message type 1 ends its stream.\<close>

lemma disconnect_one:
  assumes "ids_inv s" and "can_disconnect s" and key: "sessions_Get (sv_sessions s) key = Some r"
  obtains u where "push_detach r disconnectedRes (push_locked r disconnectedRes s) = Ret u"
    "sv_chans u = (sv_chans s)[r := chan_push_locked disconnectedRes (sv_chans s ! r)]"
    "\<And>i. i \<noteq> key \<Longrightarrow> sessions_Get (sv_sessions u) i = sessions_Get (sv_sessions s) i"
    "sessions_Get (sv_sessions u) key =
       (if stream_ends (rx_tree (ch_rx (sv_chans s ! r))) 1 then None else Some r)"
    "ids_inv u" "can_disconnect u"
proof -
  let ?s = "push_locked r disconnectedRes s"
  let ?c = "chan_push_locked disconnectedRes (sv_chans s ! r)"
  have r: "r < length (sv_chans s)" "key = id_of r" using assms(1) key by (auto simp: ids_inv_def)
  obtain it where it: "tree_item (rx_tree (ch_rx (sv_chans s ! r))) 1 = Ret it"
    using assms(2) key by (auto simp: can_disconnect_def)
  have chan: "sv_chans ?s ! r = ?c" "sv_sessions ?s = sv_sessions s" using r(1) by (simp_all add: push_locked_def)
  have id: "rx_id (ch_rx ?c) = key" using ids_inv_rx_id [OF assms(1) r(1)] r(2) by simp
  define u where "u = (if stream_ends (rx_tree (ch_rx (sv_chans s ! r))) 1
      then ?s\<lparr>sv_sessions := sessions_Detach key (sv_sessions s)\<rparr> else ?s)"
  have u: "push_detach r disconnectedRes ?s = Ret u"
    using it chan id by (simp add: push_detach_def rx_push_detaches_def disconnectedRes_def u_def stream_ends_def)
  have inv: "sessions_inv (sv_sessions s)" using assms(1) by (simp add: ids_inv_def)
  have chans: "sv_chans u = (sv_chans s)[r := ?c]" by (simp add: u_def push_locked_def)
  have get: "sessions_Get (sv_sessions u) i =
      (if i = key \<and> stream_ends (rx_tree (ch_rx (sv_chans s ! r))) 1 then None else sessions_Get (sv_sessions s) i)" for i
    using st.get_detach [OF inv, of key] by (simp add: u_def chan)
  have "ids_inv u"
    using ids_inv_frame [OF svc_frame_trans [OF svc_frame_push_locked svc_frame_push_detach [OF u]] assms(1)] .
  moreover have "can_disconnect u"
    using assms(2) chans get r(1)
    by (auto simp: can_disconnect_def nth_list_update split: if_splits)
  ultimately show ?thesis
    using that u chans get key by auto
qed

lemma pushDisconnected_spec:
  "ids_inv s \<Longrightarrow> can_disconnect s \<Longrightarrow> distinct keys \<Longrightarrow>
     \<exists>t. pushDisconnected_loop keys s = Ret t \<and> sv_chans t = told (attached keys s) (sv_chans s) \<and>
       (\<forall>i. sessions_Get (sv_sessions t) i =
         (case sessions_Get (sv_sessions s) i of
            Some r \<Rightarrow> if i \<in> set keys \<and> stream_ends (rx_tree (ch_rx (sv_chans s ! r))) 1 then None else Some r
          | None \<Rightarrow> None))"
proof (induction keys arbitrary: s)
  case Nil
  then show ?case by (auto simp: attached_def split: option.splits)
next
  case (Cons key keys)
  show ?case
  proof (cases "sessions_Get (sv_sessions s) key")
    case None
    then have "attached (key # keys) s = attached keys s" by (auto simp: attached_def)
    with None Cons show ?thesis
      by (fastforce split: option.splits)
  next
    case (Some r)
    obtain u where u: "push_detach r disconnectedRes (push_locked r disconnectedRes s) = Ret u"
        "sv_chans u = (sv_chans s)[r := chan_push_locked disconnectedRes (sv_chans s ! r)]"
        "\<And>i. i \<noteq> key \<Longrightarrow> sessions_Get (sv_sessions u) i = sessions_Get (sv_sessions s) i"
        "sessions_Get (sv_sessions u) key =
           (if stream_ends (rx_tree (ch_rx (sv_chans s ! r))) 1 then None else Some r)"
        "ids_inv u" "can_disconnect u"
      using disconnect_one [OF Cons.prems(1,2) Some] by blast
    obtain t where t: "pushDisconnected_loop keys u = Ret t" "sv_chans t = told (attached keys u) (sv_chans u)"
        "\<And>i. sessions_Get (sv_sessions t) i =
         (case sessions_Get (sv_sessions u) i of
            Some r \<Rightarrow> if i \<in> set keys \<and> stream_ends (rx_tree (ch_rx (sv_chans u ! r))) 1 then None else Some r
          | None \<Rightarrow> None)"
      using Cons.IH [OF u(5,6)] Cons.prems(3) by auto
    have r: "r < length (sv_chans s)" "key = id_of r" using Cons.prems(1) Some by (auto simp: ids_inv_def)
    have ne: "key \<notin> set keys" using Cons.prems(3) by simp
    have "sessions_Get (sv_sessions u) i = sessions_Get (sv_sessions s) i" if "i \<in> set keys" for i
      using that ne u(3) [of i] by auto
    then have att: "attached keys u = attached keys s" by (auto simp: attached_def)
    moreover have "r \<notin> attached keys s"
      using Cons.prems(1) Some ne by (auto simp: attached_def ids_inv_def)
    moreover have "attached (key # keys) s = insert r (attached keys s)" using Some by (auto simp: attached_def)
    ultimately have chans: "sv_chans t = told (attached (key # keys) s) (sv_chans s)"
      using t(2) u(2) told_insert [OF r(1)] by simp
    have tree: "rx_tree (ch_rx (sv_chans u ! q)) = rx_tree (ch_rx (sv_chans s ! q))" for q
      using r(1) by (simp add: u(2) nth_list_update)
    have "sessions_Get (sv_sessions t) i =
         (case sessions_Get (sv_sessions s) i of
            Some r \<Rightarrow> if i \<in> set (key # keys) \<and> stream_ends (rx_tree (ch_rx (sv_chans s ! r))) 1 then None else Some r
          | None \<Rightarrow> None)" for i
      using t(3) [of i] u(3) [of i] u(4) Some ne tree by (cases "i = key") (auto split: option.splits)
    with Some u(1) t(1) chans show ?thesis by simp
  qed
qed

section \<open>Properties\<close>

lemma id_of_unat: "r < 2 ^ 64 - 2 \<Longrightarrow> unat (id_of r) = r + 2"
proof -
  assume r: "r < 2 ^ 64 - 2"
  have "id_of r = word_of_nat (r + 2)" by (simp add: id_of_def)
  moreover have "unat (word_of_nat (r + 2) :: u64) = r + 2" using r by (simp only: unat_of_nat) simp
  ultimately show ?thesis by simp
qed


text \<open>Sessions are opened in order. In every reachable state, a successful call sends a
  message whose session number is above every session number that has been sent on any
  connection of the service so far, and it registers the new channel under that number.\<close>

theorem service_session_order:
  assumes "run (service_step conv) (newService api) es = Some s"
    and "service_call name args ti False s = Some (t, Inr r)" and "length (sv_chans s) < 2 ^ 64 - 2"
  shows "\<exists>m. so_sent (sv_socks t ! sv_sock t) = so_sent (sv_socks s ! sv_sock s) @ [m] \<and>
    (\<forall>so \<in> set (sv_socks s). \<forall>m' \<in> set (so_sent so). Session m' < Session m) \<and>
    sessions_Get (sv_sessions t) (Session m) = Some r \<and> rx_id (ch_rx (sv_chans t ! r)) = Session m"
proof -
  have inv: "ids_inv s" "sent_inv s" using service_inv_run [OF assms(1)] by simp_all
  let ?n = "length (sv_chans s)"
  have i: "counter (sv_sessions s) + 1 = id_of ?n" using inv(1) by (simp add: ids_inv_def id_of_def)
  obtain u m where u: "sendMsg False m u = Some t" "Session m = id_of ?n" "r = ?n"
      "sv_socks u = sv_socks s" "sv_sock u = sv_sock s" "length (sv_chans u) = Suc ?n"
      "sv_sessions u = fst (sessions_Attach ?n (sv_sessions s))"
    using assms(2) i by (elim service_call_Inr) auto
  have "so_sent (sv_socks t ! sv_sock t) = so_sent (sv_socks s ! sv_sock s) @ [m]"
    using u(1,4,5) inv(2) by (auto simp: sendMsg_def Let_def sent_inv_def)
  moreover have "Session m' < Session m" if "so \<in> set (sv_socks s)" "m' \<in> set (so_sent so)" for so m'
  proof -
    obtain q where "q < ?n" "Session m' = id_of q" using inv(2) \<open>so \<in> _\<close> \<open>m' \<in> _\<close>
      by (auto simp: sent_inv_def sent_ok_def)
    with u(2) assms(3) show ?thesis by (simp add: word_less_nat_alt id_of_unat)
  qed
  moreover have "sessions_Get (sv_sessions t) (Session m) = Some r"
    using u sendMsg_frame [OF u(1)] st.get_attach [of ?n "sv_sessions s"] i by simp
  moreover have "rx_id (ch_rx (sv_chans t ! r)) = Session m"
    using ids_inv_rx_id [OF ids_inv_call [OF assms(2) inv(1)], of r] u sendMsg_frame [OF u(1)] by simp
  ultimately show ?thesis by blast
qed

definition demo_api :: dispatchMap where
  "demo_api = [(0, \<lparr>di_Name = ''enqueue'', Downstream = demo_stream, Upstream = demo_stream\<rparr>),
     (1, \<lparr>di_Name = ''emit'', Downstream = emptyDescription, Upstream = emptyDescription\<rparr>)]"

definition demo_call :: "string \<Rightarrow> svevent" where
  "demo_call name = SvCall name [] None False None None"

lemmas service_demo_simps = demo_api_def demo_call_def service_step_def service_Call_def service_call_def
  disconnected_def newService_def newSock_def sendMsg_def sessions_defs newSessions_def call_headers_def
  loop_start_def loop_msg_def loop_end_def push_locked_def chan_push_locked_def res_of_msg_def
  pushDisconnectedError_def push_detach_def rx_push_detaches_def disconnectedRes_def sv_panic_def
  Reconnect_def service_close_def newTx_def rx_demo_simps


theorem service_session_order_witness:
  "\<exists>s t m. run (service_step demo_conv) (newService demo_api) [demo_call ''enqueue''] = Some s \<and>
     service_call ''emit'' [] None False s = Some (t, Inr 1) \<and>
     so_sent (sv_socks t ! sv_sock t) = so_sent (sv_socks s ! sv_sock s) @ [m]"
proof -
  obtain s t where s: "run (service_step demo_conv) (newService demo_api) [demo_call ''enqueue''] = Some s"
      "service_call ''emit'' [] None False s = Some (t, Inr 1)" "length (sv_chans s) < 2 ^ 64 - 2"
    by (simp add: service_demo_simps)
  from service_session_order [OF s] s show ?thesis by blast
qed



text \<open>Without such a message type a lost connection crashes the client. A method whose
  upstream description is empty leaves its session attached; when the connection ends, the loop
  pushes the \<open>Disconnected\<close> result to it, looks up message type 1 in the empty description and
  dereferences a nil pointer.\<close>

theorem service_disconnect_panics:
  "\<exists>s. run (service_step demo_conv) (newService demo_api)
        [SvLoopStart, demo_call ''emit'', SvLost 0, SvReadEnd 0] = Some s \<and> sv_crash s = Some NilDeref"
  by (simp add: service_demo_simps)

text \<open>A closed service cannot be called again. \<open>Close\<close> closes the channel \<open>stop\<close> and the
  socket; a later \<open>Call\<close> finds the service disconnected and reconnects, and when that succeeds it
  closes \<open>stop\<close> a second time, which panics.\<close>

theorem service_call_after_close_panics:
  "\<exists>s. run (service_step demo_conv) (newService demo_api) [SvClose, demo_call ''emit''] = Some s \<and>
     sv_crash s = Some CloseOfClosed"
  by (simp add: service_demo_simps)

end
