(* ===== verification/Calls.thy ===== *)
theory Calls
  imports Service
begin

text \<open>
  A call inside the running service: the channel that \<open>call\<close> returned, among all the other
  channels, loops and calls of the service machine, behaves as a channel on its own. While the
  connection stays, a run of the service projects to a run of \<open>rx_step\<close> in which the pushes are
  exactly the messages that arrived with the session's number.
\<close>

section \<open>Projections of a run\<close>

text \<open>The messages that arrive for a session, and the steps of the readers of a channel.\<close>

fun msg_for :: "u64 \<Rightarrow> svevent \<Rightarrow> message list" where
  "msg_for i (SvMsg l data) = (if Session data = i then [data] else [])"
| "msg_for i _ = []"

definition msgs_for :: "u64 \<Rightarrow> svevent list \<Rightarrow> message list" where
  "msgs_for i es = concat (map (msg_for i) es)"

fun reading_on :: "nat \<Rightarrow> svevent \<Rightarrow> rxevent list" where
  "reading_on r (SvRx q e) = (if q = r then [e] else [])"
| "reading_on r _ = []"

definition readings_on :: "nat \<Rightarrow> svevent list \<Rightarrow> rxevent list" where
  "readings_on r es = concat (map (reading_on r) es)"

text \<open>Events in which the connection is neither lost nor replaced.\<close>

fun steady :: "svevent \<Rightarrow> bool" where
  "steady (SvReconnect force e1 e2) = False"
| "steady SvClose = False"
| "steady (SvLost k) = False"
| "steady (SvReadEnd l) = False"
| "steady _ = True"

lemma projections_snoc [simp]:
  "msgs_for i [] = []" "msgs_for i (es @ [e]) = msgs_for i es @ msg_for i e"
  "readings_on r [] = []" "readings_on r (es @ [e]) = readings_on r es @ reading_on r e"
  by (simp_all add: msgs_for_def readings_on_def)

lemma id_of_inj: "q < 2 ^ 64 - 2 \<Longrightarrow> r < 2 ^ 64 - 2 \<Longrightarrow> id_of q = id_of r \<longleftrightarrow> q = r"
  by (metis id_of_unat add_right_cancel)

section \<open>Loops between the two halves of a push\<close>

definition loops_ok :: "service \<Rightarrow> bool" where
  "loops_ok s \<longleftrightarrow> (\<forall>lp \<in> set (sv_loops s). \<forall>q res. lp_pc lp = LoopDetaching q res \<longrightarrow> q < length (sv_chans s))"

lemma loops_ok_mono:
  "loops_ok s \<Longrightarrow> sv_loops t = sv_loops s \<Longrightarrow> length (sv_chans s) \<le> length (sv_chans t) \<Longrightarrow> loops_ok t"
  by (fastforce simp: loops_ok_def)

lemma loops_ok_update:
  "loops_ok s \<Longrightarrow> sv_loops t = (sv_loops s)[l := lp] \<Longrightarrow> length (sv_chans t) = length (sv_chans s) \<Longrightarrow>
     (\<And>q res. lp_pc lp = LoopDetaching q res \<Longrightarrow> q < length (sv_chans s)) \<Longrightarrow> loops_ok t"
  using set_update_subset_insert [of "sv_loops s" l lp] by (fastforce simp: loops_ok_def)

lemma svc_frame_length: "svc_frame s t \<Longrightarrow> length (sv_chans t) = length (sv_chans s)"
  by (auto simp: svc_frame_def intro: chan_ids_length)

lemma push_detach_loops: "push_detach r res s = Ret t \<Longrightarrow> sv_loops t = sv_loops s"
  by (auto simp: push_detach_def)

lemma pushDisconnected_loops: "pushDisconnected_loop keys s = Ret t \<Longrightarrow> sv_loops t = sv_loops s"
proof (induction keys arbitrary: s)
  case Nil
  then show ?case by simp
next
  case (Cons key keys)
  then show ?case
    by (auto split: option.splits dest!: push_detach_loops) (simp add: push_locked_def)
qed

lemma service_call_shape:
  assumes "service_call name args ti dropped s = Some (t, r)"
  shows "sv_loops t = sv_loops s \<and> length (sv_chans s) \<le> length (sv_chans t)"
proof (cases "dispatch_MethodByName name (sv_API s)")
  case (Inl err)
  with assms show ?thesis by (simp add: service_call_def)
next
  case (Inr num)
  with assms show ?thesis
    by (auto simp: service_call_def sessions_Attach_def sendMsg_def Let_def split: if_splits)
qed

lemma Reconnect_shape:
  assumes "Reconnect force e1 e2 s = Ret (t, err)"
  shows "sv_loops t = sv_loops s \<and> length (sv_chans t) = length (sv_chans s)"
  using assms svc_frame_length [OF svc_frame_Reconnect [OF assms]]
  by (auto simp: Reconnect_def service_close_def pushDisconnectedError_def Let_def
      split: if_splits option.splits dest!: pushDisconnected_loops)

lemma service_Call_shape:
  assumes "service_Call name args ti dropped e1 e2 s = Some (Ret (t, r))"
  shows "sv_loops t = sv_loops s \<and> length (sv_chans s) \<le> length (sv_chans t)"
  using assms
proof (cases rule: service_Call_cases)
  case (failed err)
  with Reconnect_shape [OF failed(1)] show ?thesis by simp
next
  case (fresh u)
  with Reconnect_shape [OF fresh(1)] service_call_shape [OF fresh(2)] show ?thesis by simp
next
  case plain
  with service_call_shape show ?thesis by blast
qed

lemma loop_msg_shape:
  assumes "loop_msg l data s = Some t" and "ids_inv s"
  shows "t = s \<or> (\<exists>q. sessions_Get (sv_sessions s) (Session data) = Some q \<and> q < length (sv_chans s) \<and>
    Session data = id_of q \<and>
    t = (push_locked q (res_of_msg data) s)
      \<lparr>sv_loops := (sv_loops s)[l := (sv_loops s ! l)\<lparr>lp_pc := LoopDetaching q (res_of_msg data)\<rparr>]\<rparr>)"
  using assms by (auto simp: loop_msg_def Let_def ids_inv_def split: if_splits option.splits)

lemma loop_detach_shape:
  assumes "loop_detach l s = Some t"
  obtains q res where "lp_pc (sv_loops s ! l) = LoopDetaching q res"
    "sv_loops t = sv_loops s \<or> sv_loops t = (sv_loops s)[l := (sv_loops s ! l)\<lparr>lp_pc := LoopReading\<rparr>]"
    "sv_chans t = sv_chans s" "sv_socks t = sv_socks s" "sv_sock t = sv_sock s"
    "sv_sessions t = sv_sessions s \<or>
      rx_push_detaches res (ch_rx (sv_chans s ! q)) = Ret True \<and>
      sv_sessions t = sessions_Detach (rx_id (ch_rx (sv_chans s ! q))) (sv_sessions s)"
proof -
  from assms obtain q res where q: "lp_pc (sv_loops s ! l) = LoopDetaching q res"
    by (auto simp: loop_detach_def Let_def split: loopPc.splits)
  with assms show ?thesis
    by (cases "rx_push_detaches res (ch_rx (sv_chans s ! q))")
       (auto simp: loop_detach_def push_detach_def Let_def split: if_splits intro: that [OF q])
qed

lemma ch_rx_tx_update [simp]: "ch_rx (cs[r := (cs ! r)\<lparr>ch_tx := a\<rparr>] ! q) = ch_rx (cs ! q)"
  by (cases "r < length cs") (simp_all add: nth_list_update list_update_beyond)

lemma chan_Call_shape:
  assumes "chan_Call r name args dropped s = Some (Ret (t, err))"
  shows "sv_loops t = sv_loops s \<and> sv_sessions t = sv_sessions s \<and> length (sv_chans t) = length (sv_chans s) \<and>
    ch_rx (sv_chans t ! q) = ch_rx (sv_chans s ! q) \<and>
    (sv_sock s < length (sv_socks s) \<longrightarrow> so_closed (sv_socks t ! sv_sock t) = so_closed (sv_socks s ! sv_sock s))"
  using assms by (auto simp: chan_Call_def sendMsg_def Let_def
      split: if_splits option.splits go.splits sum.splits)

lemma loops_ok_step:
  assumes "service_step conv s e = Some t" and "loops_ok s" and "ids_inv s"
  shows "loops_ok t"
proof -
  have e: "service_events conv s e = Some t" using assms(1) by (simp add: service_step_def split: if_splits)
  note keep = loops_ok_mono [OF assms(2)]
  show ?thesis
  proof (cases e)
    case (SvCall name args ti dropped e1 e2)
    with e show ?thesis
      by (auto simp: sv_panic_def split: option.splits go.splits dest!: service_Call_shape intro: keep)
  next
    case (SvReconnect force e1 e2)
    with e show ?thesis
      by (auto simp: sv_panic_def split: go.splits dest!: Reconnect_shape intro: keep)
  next
    case SvClose
    with e show ?thesis
      by (auto simp: sv_panic_def service_close_def Let_def split: if_splits go.splits intro: keep)
  next
    case (SvMsg l data)
    with e have "loop_msg l data s = Some t" by (auto split: if_splits)
    from loop_msg_shape [OF this assms(3)] assms(2) show ?thesis
      by (auto simp: push_locked_def intro: loops_ok_update [OF assms(2)])
  next
    case (SvDetach l)
    with e have t: "loop_detach l s = Some t" by (auto split: if_splits)
    then show ?thesis
      by (rule loop_detach_shape) (auto intro: keep loops_ok_update [OF assms(2)])
  next
    case (SvReadEnd l)
    with e have t: "loop_end l s = Some t" by (auto split: if_splits)
    then have "sv_loops t = sv_loops s \<or> (\<exists>lp. sv_loops t = (sv_loops s)[l := lp] \<and> lp_pc lp = LoopEnded)"
      by (auto simp: loop_end_def Let_def pushDisconnectedError_def split: if_splits go.splits
          dest!: pushDisconnected_loops)
    with svc_frame_length [OF svc_frame_loop_end [OF t]] show ?thesis
      by (auto intro: keep loops_ok_update [OF assms(2)])
  next
    case (SvRx r x)
    with e show ?thesis
      by (auto simp: reader_step_def split: if_splits option.splits intro: keep)
  next
    case (SvTx r name args dropped)
    with e show ?thesis
      by (auto simp: sv_panic_def split: if_splits option.splits go.splits intro: keep dest!: chan_Call_shape)
  next
    case SvLoopStart
    with e assms(2) show ?thesis by (auto simp: loop_start_def loops_ok_def split: if_splits)
  qed (use e in \<open>auto split: if_splits intro: keep\<close>)
qed

lemma loops_ok_run:
  assumes "run (service_step conv) (newService api) es = Some s"
  shows "loops_ok s"
proof -
  have "ids_inv s \<and> loops_ok s"
    by (rule run_invariant [OF _ assms]) (auto intro: ids_inv_step loops_ok_step ids_inv_new,
        simp add: loops_ok_def newService_def)
  then show ?thesis by simp
qed

section \<open>One call\<close>

text \<open>The receiving half of the channel \<open>r\<close> was driven by the messages \<open>ms\<close> and the readers' steps \<open>xs\<close>.\<close>

definition chan_run :: "errConvert \<Rightarrow> stream \<Rightarrow> nat \<Rightarrow> message list \<Rightarrow> rxevent list \<Rightarrow> service \<Rightarrow> bool" where
  "chan_run conv tree r ms xs s \<longleftrightarrow> r < length (sv_chans s) \<and>
     (\<exists>ces. run (rx_step conv) (newRx tree (id_of r)) ces = Some (ch_rx (sv_chans s ! r)) \<and>
        concat (map rx_pushed ces) = map res_of_msg ms \<and> filter rx_by_reader ces = xs)"

text \<open>A loop that has pushed to the channel holds one of its messages.\<close>

definition pushing :: "nat \<Rightarrow> message list \<Rightarrow> service \<Rightarrow> bool" where
  "pushing r ms s \<longleftrightarrow> (\<forall>lp \<in> set (sv_loops s). \<forall>res. lp_pc lp = LoopDetaching r res \<longrightarrow> res \<in> res_of_msg ` set ms)"

text \<open>The session stays in the table until a message ends its stream.\<close>

definition registered :: "stream \<Rightarrow> nat \<Rightarrow> message list \<Rightarrow> service \<Rightarrow> bool" where
  "registered tree r ms s \<longleftrightarrow> (\<forall>m \<in> set ms. \<not> stream_ends tree (MsgType m)) \<longrightarrow>
     sessions_Get (sv_sessions s) (id_of r) = Some r"

definition call_inv :: "errConvert \<Rightarrow> stream \<Rightarrow> nat \<Rightarrow> message list \<Rightarrow> rxevent list \<Rightarrow> service \<Rightarrow> bool" where
  "call_inv conv tree r ms xs s \<longleftrightarrow> ids_inv s \<and> loops_ok s \<and> \<not> disconnected s \<and>
     chan_run conv tree r ms xs s \<and> pushing r ms s \<and> registered tree r ms s"

text \<open>The messages of an answer: of the stream's types, and only the last may end it.\<close>

definition answer_types :: "stream \<Rightarrow> message list \<Rightarrow> bool" where
  "answer_types tree ms \<longleftrightarrow> list_all (\<lambda>m. MsgType m \<in> stream_methods tree) ms \<and>
     list_all (\<lambda>m. \<not> stream_ends tree (MsgType m)) (butlast ms)"

lemma answer_types_prefix: "answer_types tree (ms @ ns) \<Longrightarrow> answer_types tree ms"
  by (cases ns rule: rev_cases) (auto simp: answer_types_def list_all_iff butlast_append dest: in_set_butlastD)

lemma answer_types_open:
  "answer_types tree (ms @ [m]) \<Longrightarrow> \<forall>m' \<in> set ms. \<not> stream_ends tree (MsgType m')"
  by (auto simp: answer_types_def list_all_iff)

lemma call_inv_frame:
  assumes "call_inv conv tree r ms xs s" and "ids_inv t" and "loops_ok t"
    and "length (sv_chans s) \<le> length (sv_chans t)" and "ch_rx (sv_chans t ! r) = ch_rx (sv_chans s ! r)"
    and "so_closed (sv_socks t ! sv_sock t) = so_closed (sv_socks s ! sv_sock s)"
    and "\<forall>lp \<in> set (sv_loops t). lp \<in> set (sv_loops s) \<or> (\<forall>res. lp_pc lp \<noteq> LoopDetaching r res)"
    and "sessions_Get (sv_sessions s) (id_of r) = Some r \<Longrightarrow> sessions_Get (sv_sessions t) (id_of r) = Some r"
  shows "call_inv conv tree r ms xs t"
proof -
  note s = assms(1) [unfolded call_inv_def]
  have "chan_run conv tree r ms xs t" using s assms(4,5) by (simp add: chan_run_def)
  moreover have "pushing r ms t" using s assms(7) unfolding pushing_def by blast
  moreover have "registered tree r ms t" using s assms(8) by (simp add: registered_def)
  ultimately show ?thesis using s assms(2,3,6) by (simp add: call_inv_def disconnected_def)
qed

lemma rx_flat_run:
  assumes "run (rx_step conv) (newRx tree i) ces = Some x" and "flat_stream tree"
    and "\<forall>res \<in> set (concat (map rx_pushed ces)). sr_method res \<in> stream_methods tree"
  shows "rx_flat_inv tree x"
proof (rule run_invariant_on [OF _ assms(1), where A = "{e. \<forall>res \<in> set (rx_pushed e). sr_method res \<in> stream_methods tree}"])
  show "rx_flat_inv tree (newRx tree i)" by (simp add: rx_flat_inv_def newRx_def rx_pending_def)
qed (use assms(2,3) in \<open>auto intro: rx_flat_step\<close>)

lemma call_inv_flat:
  assumes "call_inv conv tree r ms xs s" and "flat_stream tree" and "answer_types tree ms"
  shows "rx_flat_inv tree (ch_rx (sv_chans s ! r))"
proof -
  obtain ces where ces: "run (rx_step conv) (newRx tree (id_of r)) ces = Some (ch_rx (sv_chans s ! r))"
      "concat (map rx_pushed ces) = map res_of_msg ms"
    using assms(1) by (auto simp: call_inv_def chan_run_def)
  from ces(1) assms(2) show ?thesis
    by (rule rx_flat_run) (unfold ces(2), use assms(3) in \<open>auto simp: answer_types_def list_all_iff res_of_msg_def\<close>)
qed

lemma sock_current: "sent_inv s \<Longrightarrow> sv_sock s < length (sv_socks s)"
  by (simp add: sent_inv_def)

lemma call_inv_call:
  assumes "call_inv conv tree r ms xs s" and "service_call name args ti dropped s = Some (t, q)"
    and "sent_inv s" and "length (sv_chans t) < 2 ^ 64 - 2"
  shows "call_inv conv tree r ms xs t"
proof (cases "dispatch_MethodByName name (sv_API s)")
  case (Inl err)
  with assms(1,2) show ?thesis by (simp add: service_call_def)
next
  case (Inr num)
  let ?n = "length (sv_chans s)"
  have s: "ids_inv s" "loops_ok s" "r < ?n" using assms(1) by (simp_all add: call_inv_def chan_run_def)
  then have i: "counter (sv_sessions s) + 1 = id_of ?n" by (simp add: ids_inv_def id_of_def)
  obtain c where t: "sv_chans t = sv_chans s @ [c]" "sv_loops t = sv_loops s"
      "sv_sessions t = fst (sessions_Attach ?n (sv_sessions s))"
      "so_closed (sv_socks t ! sv_sock t) = so_closed (sv_socks s ! sv_sock s)"
    using assms(2) Inr sock_current [OF assms(3)]
    by (auto simp: service_call_def sessions_Attach_def sendMsg_def Let_def split: if_splits)
  have "id_of r \<noteq> id_of ?n" using assms(4) t(1) s(3) id_of_inj [of r ?n] by simp
  then show ?thesis
    using t s i st.get_attach [of ?n "sv_sessions s"] service_call_shape [OF assms(2)]
    by (intro call_inv_frame [OF assms(1)] ids_inv_call [OF assms(2)] loops_ok_mono [OF s(2)])
       (simp_all add: nth_append)
qed

lemma loops_update_other:
  "ls' = ls[l := lp] \<Longrightarrow> (\<And>res. lp_pc lp \<noteq> LoopDetaching r res) \<Longrightarrow>
     \<forall>lp' \<in> set ls'. lp' \<in> set ls \<or> (\<forall>res. lp_pc lp' \<noteq> LoopDetaching r res)"
  using set_update_subset_insert [of ls l lp] by blast

lemma call_inv_msg:
  assumes "call_inv conv tree r ms xs s" and "loop_msg l data s = Some t" and "ids_inv t" and "loops_ok t"
    and "length (sv_chans t) < 2 ^ 64 - 2" and "sv_crash s = None"
    and "answer_types tree (ms @ msg_for (id_of r) (SvMsg l data))" and "flat_stream tree"
  shows "call_inv conv tree r (ms @ msg_for (id_of r) (SvMsg l data)) xs t"
proof -
  have s: "ids_inv s" "loops_ok s" "r < length (sv_chans s)" using assms(1) by (simp_all add: call_inv_def chan_run_def)
  have flat: "rx_flat_inv tree (ch_rx (sv_chans s ! r))"
    using call_inv_flat [OF assms(1,8)] answer_types_prefix [OF assms(7)] by blast
  show ?thesis
  proof (cases "Session data = id_of r")
    case True
    then have "sessions_Get (sv_sessions s) (id_of r) = Some r"
      using assms(1,7) answer_types_open [of tree ms data] by (simp add: call_inv_def registered_def)
    with True assms(2) have t: "t = (push_locked r (res_of_msg data) s)
        \<lparr>sv_loops := (sv_loops s)[l := (sv_loops s ! l)\<lparr>lp_pc := LoopDetaching r (res_of_msg data)\<rparr>]\<rparr>"
      by (auto simp: loop_msg_def Let_def split: if_splits)
    obtain ces where ces: "run (rx_step conv) (newRx tree (id_of r)) ces = Some (ch_rx (sv_chans s ! r))"
        "concat (map rx_pushed ces) = map res_of_msg ms" "filter rx_by_reader ces = xs"
      using assms(1) by (auto simp: call_inv_def chan_run_def)
    have "chan_run conv tree r (ms @ [data]) xs t"
      unfolding chan_run_def using ces s(3) flat
      by (intro conjI exI [of _ "ces @ [RxPush (res_of_msg data)]"])
         (simp_all add: t push_locked_def chan_push_locked_def run_append rx_flat_inv_def)
    moreover have "pushing r (ms @ [data]) t"
      using assms(1) set_update_subset_insert
      by (fastforce simp: t call_inv_def pushing_def push_locked_def)
    moreover have "registered tree r (ms @ [data]) t"
      using assms(1) by (simp add: t call_inv_def registered_def push_locked_def)
    moreover have "\<not> disconnected t" using assms(1) by (simp add: t call_inv_def disconnected_def push_locked_def)
    ultimately show ?thesis using True assms(3,4) by (simp add: call_inv_def)
  next
    case False
    from loop_msg_shape [OF assms(2) s(1)] show ?thesis
    proof
      assume "t = s"
      with assms(1) False show ?thesis by simp
    next
      assume "\<exists>q. sessions_Get (sv_sessions s) (Session data) = Some q \<and> q < length (sv_chans s) \<and>
        Session data = id_of q \<and> t = (push_locked q (res_of_msg data) s)
          \<lparr>sv_loops := (sv_loops s)[l := (sv_loops s ! l)\<lparr>lp_pc := LoopDetaching q (res_of_msg data)\<rparr>]\<rparr>"
      then obtain q where q: "Session data = id_of q" and t: "t = (push_locked q (res_of_msg data) s)
          \<lparr>sv_loops := (sv_loops s)[l := (sv_loops s ! l)\<lparr>lp_pc := LoopDetaching q (res_of_msg data)\<rparr>]\<rparr>" by blast
      with False have "q \<noteq> r" by blast
      then have "\<forall>lp \<in> set (sv_loops t). lp \<in> set (sv_loops s) \<or> (\<forall>res. lp_pc lp \<noteq> LoopDetaching r res)"
        by (intro loops_update_other
            [where l = l and lp = "(sv_loops s ! l)\<lparr>lp_pc := LoopDetaching q (res_of_msg data)\<rparr>"]) (simp_all add: t)
      with False \<open>q \<noteq> r\<close> assms(3,4) show ?thesis
        by (simp add: call_inv_frame [OF assms(1)] t push_locked_def)
    qed
  qed
qed

lemma call_inv_detach:
  assumes "call_inv conv tree r ms xs s" and "loop_detach l s = Some t" and "ids_inv t" and "loops_ok t"
    and "length (sv_chans t) < 2 ^ 64 - 2" and "l < length (sv_loops s)"
    and "answer_types tree ms" and "flat_stream tree"
  shows "call_inv conv tree r ms xs t"
proof -
  have s: "ids_inv s" "loops_ok s" "r < length (sv_chans s)" using assms(1) by (simp_all add: call_inv_def chan_run_def)
  obtain q res where q: "lp_pc (sv_loops s ! l) = LoopDetaching q res"
      "sv_loops t = sv_loops s \<or> sv_loops t = (sv_loops s)[l := (sv_loops s ! l)\<lparr>lp_pc := LoopReading\<rparr>]"
      "sv_chans t = sv_chans s" "sv_socks t = sv_socks s" "sv_sock t = sv_sock s"
      "sv_sessions t = sv_sessions s \<or> rx_push_detaches res (ch_rx (sv_chans s ! q)) = Ret True \<and>
        sv_sessions t = sessions_Detach (rx_id (ch_rx (sv_chans s ! q))) (sv_sessions s)"
    using assms(2) by (rule loop_detach_shape)
  have lp: "sv_loops s ! l \<in> set (sv_loops s)" using assms(6) by simp
  have loops: "\<forall>lp \<in> set (sv_loops t). lp \<in> set (sv_loops s) \<or> (\<forall>res. lp_pc lp \<noteq> LoopDetaching r res)"
    by (rule disjE [OF q(2)]) (simp, erule loops_update_other, simp)
  show ?thesis
  proof (cases "q = r")
    case False
    have qn: "q < length (sv_chans s)" using s(2) lp q(1) by (auto simp: loops_ok_def)
    then have "rx_id (ch_rx (sv_chans s ! q)) \<noteq> id_of r"
      using ids_inv_rx_id [OF s(1)] id_of_inj [of q r] False assms(5) q(3) s(3) by simp
    moreover have "sessions_inv (sv_sessions s)" using s(1) by (simp add: ids_inv_def)
    ultimately have "sessions_Get (sv_sessions t) (id_of r) = sessions_Get (sv_sessions s) (id_of r)"
      using q(6) by (auto simp: st.get_detach)
    with q loops assms(3,4) show ?thesis by (intro call_inv_frame [OF assms(1)]) auto
  next
    case True
    obtain m where m: "m \<in> set ms" "res = res_of_msg m"
      using assms(1) lp q(1) True by (auto simp: call_inv_def pushing_def)
    have "rx_tree (ch_rx (sv_chans s ! r)) = tree"
      using call_inv_flat [OF assms(1,8,7)] by (simp add: rx_flat_inv_def)
    then have "stream_ends tree (MsgType m)" if "rx_push_detaches res (ch_rx (sv_chans s ! q)) = Ret True"
      using that m(2) True by (auto simp: rx_push_detaches_def stream_ends_def res_of_msg_def)
    with q(6) m(1) assms(1) have "registered tree r ms t" by (auto simp: call_inv_def registered_def)
    with q loops assms(1,3,4) show ?thesis
      unfolding call_inv_def chan_run_def pushing_def disconnected_def by metis
  qed
qed

lemma call_inv_reader:
  assumes "call_inv conv tree r ms xs s" and "reader_step conv q e s = Some t" and "ids_inv t" and "loops_ok t"
  shows "call_inv conv tree r ms (xs @ reading_on r (SvRx q e)) t"
proof -
  obtain x where x: "rx_step conv (ch_rx (sv_chans s ! q)) e = Some x" "rx_by_reader e" "q < length (sv_chans s)"
      "t = s\<lparr>sv_chans := (sv_chans s)[q := (sv_chans s ! q)\<lparr>ch_rx := x\<rparr>], sv_crash := rx_crash x\<rparr>"
    using assms(2) by (auto simp: reader_step_def split: if_splits option.splits)
  show ?thesis
  proof (cases "q = r")
    case False
    with x assms(3,4) show ?thesis by (auto intro!: call_inv_frame [OF assms(1)])
  next
    case True
    obtain ces where ces: "run (rx_step conv) (newRx tree (id_of r)) ces = Some (ch_rx (sv_chans s ! r))"
        "concat (map rx_pushed ces) = map res_of_msg ms" "filter rx_by_reader ces = xs"
      using assms(1) by (auto simp: call_inv_def chan_run_def)
    have "rx_pushed e = []" using x(2) by (cases e) simp_all
    with ces x True have "chan_run conv tree r ms (xs @ [e]) t"
      unfolding chan_run_def by (intro conjI exI [of _ "ces @ [e]"]) (simp_all add: run_append)
    with True assms(1,3,4) x(4) show ?thesis
      by (simp add: call_inv_def pushing_def registered_def disconnected_def)
  qed
qed

lemma call_inv_step:
  assumes "call_inv conv tree r ms xs s" and "service_step conv s e = Some t" and "steady e" and "sent_inv s"
    and "length (sv_chans t) < 2 ^ 64 - 2" and "answer_types tree (ms @ msg_for (id_of r) e)" and "flat_stream tree"
  shows "call_inv conv tree r (ms @ msg_for (id_of r) e) (xs @ reading_on r e) t"
proof -
  have s: "ids_inv s" "loops_ok s" "\<not> disconnected s" using assms(1) by (simp_all add: call_inv_def)
  have t: "ids_inv t" "loops_ok t" using ids_inv_step loops_ok_step assms(2) s by blast+
  have e: "service_events conv s e = Some t" "sv_crash s = None"
    using assms(2) by (simp_all add: service_step_def split: if_splits)
  have crash: "call_inv conv tree r ms xs (s\<lparr>sv_crash := p\<rparr>)" if "t = s\<lparr>sv_crash := p\<rparr>" for p
    using t that by (intro call_inv_frame [OF assms(1)]) simp_all
  show ?thesis
  proof (cases e)
    case (SvCall name args ti dropped e1 e2)
    with e s(3) obtain q where "service_call name args ti dropped s = Some (t, q)"
      by (auto simp: service_Call_def split: option.splits)
    from call_inv_call [OF assms(1) this assms(4,5)] SvCall show ?thesis by simp
  next
    case (SvMsg l data)
    with e have "loop_msg l data s = Some t" by (simp split: if_splits)
    from call_inv_msg [OF assms(1) this t assms(5) e(2) assms(6) [unfolded SvMsg] assms(7)] SvMsg
    show ?thesis by simp
  next
    case (SvDetach l)
    with e have "loop_detach l s = Some t" "l < length (sv_loops s)" by (simp_all split: if_splits)
    with call_inv_detach [OF assms(1) _ t assms(5)] assms(6,7) SvDetach show ?thesis by simp
  next
    case (SvRx q x)
    with e call_inv_reader [OF assms(1) _ t] show ?thesis by simp
  next
    case SvLoopStart
    with e t show ?thesis
      by (auto simp: loop_start_def split: if_splits intro!: call_inv_frame [OF assms(1)])
  next
    case (SvTx q name args dropped)
    show ?thesis
    proof (cases "chan_Call q name args dropped s")
      case None
      with e SvTx show ?thesis by (simp split: if_splits)
    next
      case (Some res)
      show ?thesis
      proof (cases res)
        case (Panic p)
        with Some e SvTx crash show ?thesis by (auto simp: sv_panic_def split: if_splits)
      next
        case (Ret out)
        with Some e SvTx obtain err where "chan_Call q name args dropped s = Some (Ret (t, err))"
          by (cases out) (auto split: if_splits)
        from chan_Call_shape [OF this] sock_current [OF assms(4)] t SvTx show ?thesis
          by (auto intro!: call_inv_frame [OF assms(1)])
      qed
    qed
  qed (use assms(3) in simp_all)
qed

lemma service_step_grows:
  assumes "service_step conv s e = Some t"
  shows "length (sv_chans s) \<le> length (sv_chans t)"
proof -
  have e: "service_events conv s e = Some t" using assms by (simp add: service_step_def split: if_splits)
  show ?thesis
  proof (cases e)
    case (SvCall name args ti dropped e1 e2)
    with e show ?thesis by (auto simp: sv_panic_def split: option.splits go.splits dest!: service_Call_shape)
  qed (use e in \<open>auto simp: sv_panic_def service_close_def loop_start_def Let_def split: if_splits go.splits option.splits
      dest!: Reconnect_shape chan_Call_shape svc_frame_loop_msg svc_frame_loop_detach svc_frame_loop_end
        svc_frame_reader svc_frame_length\<close>)
qed

lemma call_inv_started:
  assumes "run (service_step conv) (newService api) es = Some c0"
    and "service_call name args ti dropped c0 = Some (c1, Inr r)" and "\<not> disconnected c1"
    and "rx_tree (ch_rx (sv_chans c1 ! r)) = tree"
  shows "call_inv conv tree r [] [] c1 \<and> sent_inv c1"
proof (cases "dispatch_MethodByName name (sv_API c0)")
  case (Inl err)
  with assms(2) show ?thesis by (simp add: service_call_def)
next
  case (Inr num)
  let ?n = "length (sv_chans c0)"
  have s: "ids_inv c0" "sent_inv c0" "loops_ok c0" using service_inv_run [OF assms(1)] loops_ok_run [OF assms(1)] by simp_all
  have i: "counter (sv_sessions c0) + 1 = id_of ?n" using s(1) by (simp add: ids_inv_def id_of_def)
  obtain tr where t: "r = ?n" "length (sv_chans c1) = Suc ?n" "ch_rx (sv_chans c1 ! r) = newRx tr (id_of r)"
      "sv_sessions c1 = fst (sessions_Attach ?n (sv_sessions c0))" "sv_loops c1 = sv_loops c0"
    using assms(2) Inr i
    by (auto simp: service_call_def sessions_Attach_def sendMsg_def Let_def split: if_splits)
  have "tr = tree" using assms(4) t(3) by (simp add: newRx_def)
  then have "chan_run conv tree r [] [] c1"
    unfolding chan_run_def using t(1-3) by (intro conjI exI [of _ "[]"]) simp_all
  moreover have "pushing r [] c1" using s(3) t(1,5) by (fastforce simp: pushing_def loops_ok_def)
  moreover have "registered tree r [] c1" using t(1,4) i st.get_attach [of ?n "sv_sessions c0"] by (simp add: registered_def)
  moreover have "loops_ok c1" using loops_ok_mono [OF s(3) t(5)] t(2) by simp
  ultimately show ?thesis
    using ids_inv_call [OF assms(2) s(1)] sent_inv_call [OF assms(2) s(2,1)] assms(3) by (simp add: call_inv_def)
qed

lemma call_inv_run:
  assumes "run (service_step conv) c1 fs = Some c2" and "call_inv conv tree r [] [] c1" and "sent_inv c1"
    and "list_all steady fs" and "length (sv_chans c2) < 2 ^ 64 - 2"
    and "flat_stream tree" and "answer_types tree (msgs_for (id_of r) fs)"
  shows "call_inv conv tree r (msgs_for (id_of r) fs) (readings_on r fs) c2"
proof -
  have "call_inv conv tree r (msgs_for (id_of r) fs) (readings_on r fs) c2 \<and> sent_inv c2"
    using assms(1,4,5,7)
  proof (induction rule: run_induct)
    case start
    with assms(2,3) show ?case by simp
  next
    case (step gs t e u)
    have bound: "length (sv_chans t) < 2 ^ 64 - 2" using service_step_grows [OF step(2)] step.prems(2) by simp
    have types: "answer_types tree (msgs_for (id_of r) gs)"
      using step.prems(3) answer_types_prefix by simp
    have IH: "call_inv conv tree r (msgs_for (id_of r) gs) (readings_on r gs) t" "sent_inv t"
      using step.IH bound types step.prems(1) by simp_all
    have "sent_inv u" using sent_inv_step step(2) IH by (auto simp: call_inv_def)
    with call_inv_step [OF IH(1) step(2) _ IH(2) step.prems(2) _ assms(6)] step.prems show ?case by simp
  qed
  then show ?thesis by simp
qed

text \<open>
  A call in a running service. Whatever else the service does, while its connection stays: if the
  messages that arrive with the session's number are those of an answer, then the results taken
  by the readers of the channel and those waiting in it are these messages, all of them, in order.
\<close>

lemma call_delivers:
  assumes "run (service_step conv) (newService api) es = Some c0"
    and "service_call name args ti dropped c0 = Some (c1, Inr r)" and "\<not> disconnected c1"
    and "rx_tree (ch_rx (sv_chans c1 ! r)) = tree" and "flat_stream tree"
    and "run (service_step conv) c1 fs = Some c2" and "list_all steady fs" and "length (sv_chans c2) < 2 ^ 64 - 2"
    and "answer_types tree (msgs_for (id_of r) fs)"
  obtains ces where "run (rx_step conv) (newRx tree (id_of r)) ces = Some (ch_rx (sv_chans c2 ! r))"
    "concat (map rx_pushed ces) = map res_of_msg (msgs_for (id_of r) fs)"
    "filter rx_by_reader ces = readings_on r fs" "rx_flat_inv tree (ch_rx (sv_chans c2 ! r))"
proof -
  note start = call_inv_started [OF assms(1-4)]
  have inv: "call_inv conv tree r (msgs_for (id_of r) fs) (readings_on r fs) c2"
    using call_inv_run [OF assms(6) _ _ assms(7,8,5,9)] start by simp
  with call_inv_flat [OF inv assms(5,9)] show ?thesis
    by (auto simp: call_inv_def chan_run_def intro: that)
qed

end
