(* ===== verification/HttpHeader.thy ===== *)
theory HttpHeader
  imports Endpoints
begin

text \<open>
  HTTP headers as \<open>net/http\<close> keeps them, a map from canonical names to value lists, and the
  conversions to and from cocaine's list of pairs (\<open>cocaine12/httphandler.go\<close>,
  \<open>cocaine/httpreq.go\<close>, \<open>cocaine12/proxy/proxy.go\<close>). The map is an association list whose order
  is the order in which \<open>range\<close> visits it.
\<close>

section \<open>Canonical names\<close>

definition validHeaderFieldByte :: "char \<Rightarrow> bool" where
  "validHeaderFieldByte c \<longleftrightarrow> (let n = (of_char c :: nat) in
     48 \<le> n \<and> n \<le> 57 \<or> 65 \<le> n \<and> n \<le> 90 \<or> 97 \<le> n \<and> n \<le> 122 \<or>
     n \<in> set [33, 35, 36, 37, 38, 39, 42, 43, 45, 46, 94, 95, 96, 124, 126])"

definition canon_char :: "bool \<Rightarrow> char \<Rightarrow> char" where
  "canon_char upper c =
     (let n = of_char c in
      if upper \<and> 97 \<le> n \<and> n \<le> 122 then char_of (n - 32)
      else if \<not> upper \<and> 65 \<le> n \<and> n \<le> 90 then char_of (n + 32 :: nat) else c)"

fun canon_loop :: "bool \<Rightarrow> string \<Rightarrow> string" where
  "canon_loop upper [] = []"
| "canon_loop upper (c # cs) = canon_char upper c # canon_loop (canon_char upper c = CHR ''-'') cs"

definition CanonicalHeaderKey :: "string \<Rightarrow> string" where
  "CanonicalHeaderKey s = (if list_all validHeaderFieldByte s then canon_loop True s else s)"

lemma canon_char_idem [simp]: "canon_char upper (canon_char upper c) = canon_char upper c"
  by (auto simp: canon_char_def Let_def)

lemma of_char_canon:
  "(of_char (canon_char upper c) :: nat) =
     (let n = of_char c in
      if upper \<and> 97 \<le> n \<and> n \<le> 122 then n - 32 else if \<not> upper \<and> 65 \<le> n \<and> n \<le> 90 then n + 32 else n)"
  by (simp add: canon_char_def Let_def) (simp add: less_imp_diff_less)

lemma canon_char_valid:
  assumes "validHeaderFieldByte c"
  shows "validHeaderFieldByte (canon_char upper c)"
proof (cases "canon_char upper c = c")
  case False
  then have "65 \<le> (of_char (canon_char upper c) :: nat) \<and> of_char (canon_char upper c) \<le> (90::nat) \<or>
      97 \<le> (of_char (canon_char upper c) :: nat) \<and> of_char (canon_char upper c) \<le> (122::nat)"
    unfolding of_char_canon Let_def by (auto simp: canon_char_def Let_def split: if_splits)
  then show ?thesis unfolding validHeaderFieldByte_def Let_def by blast
qed (use assms in simp)

lemma canon_loop_idem [simp]: "canon_loop upper (canon_loop upper s) = canon_loop upper s"
  by (induction s arbitrary: upper) auto

lemma canon_loop_valid: "list_all validHeaderFieldByte s \<Longrightarrow> list_all validHeaderFieldByte (canon_loop upper s)"
  by (induction s arbitrary: upper) (auto intro: canon_char_valid)

lemma CanonicalHeaderKey_idem [simp]: "CanonicalHeaderKey (CanonicalHeaderKey s) = CanonicalHeaderKey s"
  by (simp add: CanonicalHeaderKey_def canon_loop_valid)

section \<open>Operations on a header\<close>

type_synonym http_header = "(string \<times> string list) list"
type_synonym headers = "(string \<times> string) list"

definition Header_Add :: "string \<Rightarrow> string \<Rightarrow> http_header \<Rightarrow> http_header" where
  "Header_Add key value h =
     (let k = CanonicalHeaderKey key in
      if k \<in> fst ` set h then map (\<lambda>(n, vs). (n, if n = k then vs @ [value] else vs)) h
      else h @ [(k, [value])])"

definition Header_Get :: "string \<Rightarrow> http_header \<Rightarrow> string" where
  "Header_Get key h = (case map_of h (CanonicalHeaderKey key) of Some (v # vs) \<Rightarrow> v | _ \<Rightarrow> '''')"

definition Header_Del :: "string \<Rightarrow> http_header \<Rightarrow> http_header" where
  "Header_Del key h = filter (\<lambda>(n, vs). n \<noteq> CanonicalHeaderKey key) h"

definition Header_Set :: "string \<Rightarrow> string \<Rightarrow> http_header \<Rightarrow> http_header" where
  "Header_Set key value h = Header_Add key value (Header_Del key h)"

text \<open>What every header built by these operations satisfies.\<close>

definition header_ok :: "http_header \<Rightarrow> bool" where
  "header_ok h \<longleftrightarrow> alist_ok h \<and> list_all (\<lambda>(n, vs). CanonicalHeaderKey n = n \<and> vs \<noteq> []) h"

lemma header_ok_Nil [simp]: "header_ok []"
  by (simp add: header_ok_def alist_ok_def)

lemma header_ok_Add: "header_ok h \<Longrightarrow> header_ok (Header_Add k v h)"
  by (auto simp: header_ok_def alist_ok_def Header_Add_def Let_def list_all_iff comp_def case_prod_beta
      intro: rev_image_eqI)

lemma header_ok_Del: "header_ok h \<Longrightarrow> header_ok (Header_Del k h)"
  by (auto simp: header_ok_def alist_ok_def Header_Del_def list_all_iff case_prod_beta distinct_map_filter)

lemma header_ok_Set: "header_ok h \<Longrightarrow> header_ok (Header_Set k v h)"
  by (simp add: Header_Set_def header_ok_Add header_ok_Del)

lemma Header_Get_Del [simp]: "Header_Get k (Header_Del k h) = ''''"
proof -
  have "map_of (Header_Del k h) (CanonicalHeaderKey k) = None"
    by (auto simp: Header_Del_def map_of_eq_None_iff)
  then show ?thesis by (simp add: Header_Get_def)
qed

section \<open>Conversions\<close>

definition HeadersHTTPtoCocaine :: "http_header \<Rightarrow> headers" where
  "HeadersHTTPtoCocaine h = concat (map (\<lambda>(name, values). map (Pair name) values) h)"

definition HeadersCocaineToHTTP :: "headers \<Rightarrow> http_header" where
  "HeadersCocaineToHTTP hs = fold (\<lambda>(k, v). Header_Add k v) hs []"

lemma Header_Add_last:
  assumes "CanonicalHeaderKey k = k" and "k \<notin> fst ` set h"
  shows "fold (\<lambda>(k, v). Header_Add k v) (map (Pair k) vs) (h @ [(k, us)]) = h @ [(k, us @ vs)]"
proof (induction vs arbitrary: us)
  case Nil
  then show ?case by simp
next
  case (Cons v vs)
  have "map (\<lambda>(n, xs). (n, if n = k then xs @ [v] else xs)) h = h"
    using assms(2) by (intro map_idI) (force simp: image_iff)
  then have "Header_Add k v (h @ [(k, us)]) = h @ [(k, us @ [v])]"
    by (simp add: Header_Add_def assms(1))
  with Cons.IH [of "us @ [v]"] show ?case by simp
qed

lemma headers_fold_back: "header_ok h \<Longrightarrow> fold (\<lambda>(k, v). Header_Add k v) (HeadersHTTPtoCocaine h) [] = h"
proof (induction h rule: rev_induct)
  case Nil
  then show ?case by (simp add: HeadersHTTPtoCocaine_def)
next
  case (snoc p h)
  obtain k vs where p: "p = (k, vs)" by (cases p)
  with snoc.prems have k: "CanonicalHeaderKey k = k" "k \<notin> fst ` set h" "vs \<noteq> []" and h: "header_ok h"
    by (auto simp: header_ok_def alist_ok_def)
  from k(3) obtain v us where vs: "vs = v # us" by (cases vs) auto
  have "fold (\<lambda>(k, v). Header_Add k v) (map (Pair k) vs) h = h @ [(k, vs)]"
    using Header_Add_last [OF k(1,2), of us "[v]"] k by (simp add: vs Header_Add_def)
  with snoc.IH [OF h] show ?case by (simp add: p HeadersHTTPtoCocaine_def)
qed

text \<open>The values of a name among cocaine's pairs, in order.\<close>

definition values_of :: "string \<Rightarrow> headers \<Rightarrow> string list" where
  "values_of k hs = map snd (filter (\<lambda>(n, v). CanonicalHeaderKey n = k) hs)"

lemma map_of_Header_Add:
  "map_of (Header_Add key v h) k =
     (if k = CanonicalHeaderKey key then Some ((case map_of h k of None \<Rightarrow> [] | Some vs \<Rightarrow> vs) @ [v]) else map_of h k)"
proof (cases "CanonicalHeaderKey key \<in> fst ` set h")
  case True
  let ?k = "CanonicalHeaderKey key"
  have eq: "map_of (map (\<lambda>(n, vs). (n, if n = ?k then vs @ [v] else vs)) h) k =
      (case map_of h k of None \<Rightarrow> None | Some vs \<Rightarrow> Some (if k = ?k then vs @ [v] else vs))"
    by (induction h) auto
  obtain vs where "map_of h ?k = Some vs"
    using True by (cases "map_of h ?k") (auto simp: map_of_eq_None_iff)
  then show ?thesis
    using True by (simp only: Header_Add_def Let_def eq if_True) (simp split: option.splits)
next
  case False
  then have "map_of h (CanonicalHeaderKey key) = None" by (simp add: map_of_eq_None_iff)
  with False show ?thesis
    by (simp only: Header_Add_def Let_def if_False map_of_append map_add_def) (auto split: option.splits)
qed

lemma headers_values:
  "map_of (HeadersCocaineToHTTP hs) k = (if values_of k hs = [] then None else Some (values_of k hs))"
proof (induction hs rule: rev_induct)
  case Nil
  then show ?case by (simp add: HeadersCocaineToHTTP_def values_of_def)
next
  case (snoc p hs)
  then show ?case
    by (cases p) (auto simp: HeadersCocaineToHTTP_def values_of_def map_of_Header_Add split: option.splits if_splits)
qed

lemma header_ok_conv: "header_ok (HeadersCocaineToHTTP hs)"
  by (induction hs rule: rev_induct) (auto simp: HeadersCocaineToHTTP_def header_ok_Add)

section \<open>Parsing a decimal\<close>

text \<open>\<open>strconv.ParseInt(s, 10, 64)\<close>; None is an error.\<close>

definition ParseInt :: "string \<Rightarrow> int option" where
  "ParseInt s =
     (let (neg, ds) = (case s of c # cs \<Rightarrow> if c = CHR ''-'' then (True, cs) else if c = CHR ''+'' then (False, cs)
                                         else (False, s) | [] \<Rightarrow> (False, [])) in
      if ds = [] \<or> \<not> list_all (\<lambda>c. 48 \<le> (of_char c :: nat) \<and> (of_char c :: nat) \<le> 57) ds then None
      else if neg then (if undecimal ds \<le> 2 ^ 63 then Some (- int (undecimal ds)) else None)
      else (if undecimal ds < 2 ^ 63 then Some (int (undecimal ds)) else None))"

lemma ParseInt_range: "ParseInt s = Some v \<Longrightarrow> - (2 ^ 63) \<le> v \<and> v < 2 ^ 63"
  by (auto simp: ParseInt_def Let_def split: if_splits list.splits)

section \<open>Properties\<close>

text \<open>Headers survive the trip through cocaine's representation. A header that \<open>net/http\<close>
  built comes back equal, whatever the order \<open>range\<close> visits it in; and whatever pairs a client
  sends, the worker sees under each canonical name exactly the values sent for it, in order.\<close>

theorem headers_roundtrip:
  "(header_ok h \<longrightarrow> HeadersCocaineToHTTP (HeadersHTTPtoCocaine h) = h) \<and>
   header_ok (HeadersCocaineToHTTP hs) \<and>
   map_of (HeadersCocaineToHTTP hs) k = (if values_of k hs = [] then None else Some (values_of k hs))"
  using headers_fold_back [of h] by (simp add: HeadersCocaineToHTTP_def [of "HeadersHTTPtoCocaine h"] header_ok_conv headers_values)

theorem headers_roundtrip_witness:
  "HeadersCocaineToHTTP (HeadersHTTPtoCocaine [(''Set-Cookie'', [''a'', ''b''])]) = [(''Set-Cookie'', [''a'', ''b''])]"
  using headers_roundtrip [of "[(''Set-Cookie'', [''a'', ''b''])]" "[]" "[]"]
  by (simp add: header_ok_def alist_ok_def CanonicalHeaderKey_def validHeaderFieldByte_def canon_char_def)

end
