(* ===== verification/Wproto.thy ===== *)
theory Wproto
  imports Protocol
begin

text \<open>
  The worker protocol, version 1 (\<open>cocaine12/wprotov1.go\<close>, \<open>cocaine12/worker_protocol.go\<close>): how
  messages are built, and how an incoming message is dispatched to the handler methods of the
  worker. The locale \<open>protocol_generator\<close> is the interface \<open>handlerProtocolGenerator\<close>, on which
  requests and responses rely.
\<close>

section \<open>Constants and messages\<close>

definition v1Handshake :: u64 where "v1Handshake = 0"
definition v1Heartbeat :: u64 where "v1Heartbeat = 0"
definition v1Invoke :: u64 where "v1Invoke = 0"
definition v1Write :: u64 where "v1Write = 0"
definition v1Error :: u64 where "v1Error = 1"
definition v1Close :: u64 where "v1Close = 2"
definition v1Terminate :: u64 where "v1Terminate = 1"
definition v1UtilitySession :: u64 where "v1UtilitySession = 1"

lemmas v1_consts = v1Handshake_def v1Heartbeat_def v1Invoke_def v1Write_def v1Error_def
  v1Close_def v1Terminate_def v1UtilitySession_def

definition newHandshakeV1 :: "string \<Rightarrow> message" where
  "newHandshakeV1 i = \<lparr>Session = v1UtilitySession, MsgType = v1Handshake, Payload = [GString i], Headers = []\<rparr>"

definition newHeartbeatV1 :: message where
  "newHeartbeatV1 = \<lparr>Session = v1UtilitySession, MsgType = v1Heartbeat, Payload = [], Headers = []\<rparr>"

definition newInvokeV1 :: "u64 \<Rightarrow> string \<Rightarrow> message" where
  "newInvokeV1 session event = \<lparr>Session = session, MsgType = v1Invoke, Payload = [GString event], Headers = []\<rparr>"

definition newChunkV1 :: "u64 \<Rightarrow> slice \<Rightarrow> message" where
  "newChunkV1 session data = \<lparr>Session = session, MsgType = v1Write, Payload = [GBytes data], Headers = []\<rparr>"

definition newErrorV1 :: "u64 \<Rightarrow> i64 \<Rightarrow> i64 \<Rightarrow> string \<Rightarrow> message" where
  "newErrorV1 session category code text =
     \<lparr>Session = session, MsgType = v1Error, Payload = [GIntPair category code, GString text], Headers = []\<rparr>"

definition newChokeV1 :: "u64 \<Rightarrow> message" where
  "newChokeV1 session = \<lparr>Session = session, MsgType = v1Close, Payload = [], Headers = []\<rparr>"

definition isChunkV1 :: "message \<Rightarrow> bool" where
  "isChunkV1 msg \<longleftrightarrow> MsgType msg = v1Write"

lemmas v1_messages = newHandshakeV1_def newHeartbeatV1_def newInvokeV1_def newChunkV1_def
  newErrorV1_def newChokeV1_def isChunkV1_def

text \<open>\<open>getEventName\<close> indexes the payload, which panics when it is empty.\<close>

definition getEventName :: "message \<Rightarrow> (string \<times> bool) go" where
  "getEventName msg =
     (case Payload msg of
        [] \<Rightarrow> Panic IndexOutOfRange
      | v # _ \<Rightarrow> (case v of
            GString event \<Rightarrow> Ret (event, True)
          | GBytes event \<Rightarrow> Ret (string_of_bytes (slice_bytes event), True)
          | _ \<Rightarrow> Ret ('''', False)))"

section \<open>Dispatch\<close>

text \<open>The method of \<open>protocolHandler\<close> that a message is handed to.\<close>

datatype handlerCall =
    OnHeartbeat message
  | OnTerminate message
  | OnInvoke message
  | OnChunk message
  | OnChoke message
  | OnError message

record v1Protocol =
  maxSession :: u64

definition newV1Protocol :: v1Protocol where
  "newV1Protocol = \<lparr>maxSession = 1\<rparr>"

definition dispatchUtilityMessage :: "message \<Rightarrow> goerr + handlerCall" where
  "dispatchUtilityMessage msg =
     (if MsgType msg = v1Heartbeat then Inr (OnHeartbeat msg)
      else if MsgType msg = v1Terminate then Inr (OnTerminate msg)
      else Inl (ErrInvalidUtilityType (MsgType msg)))"

definition v1_onMessage :: "v1Protocol \<Rightarrow> message \<Rightarrow> v1Protocol \<times> (goerr + handlerCall)" where
  "v1_onMessage v msg =
     (if Session msg = v1UtilitySession then (v, dispatchUtilityMessage msg)
      else if maxSession v < Session msg then
        (if MsgType msg \<noteq> v1Invoke then (v, Inl (ErrNewSessionNotInvoke (Session msg) (MsgType msg)))
         else (v\<lparr>maxSession := Session msg\<rparr>, Inr (OnInvoke msg)))
      else if MsgType msg = v1Write then (v, Inr (OnChunk msg))
      else if MsgType msg = v1Close then (v, Inr (OnChoke msg))
      else if MsgType msg = v1Error then (v, Inr (OnError msg))
      else (v, Inl (ErrInvalidMsgType (MsgType msg))))"

text \<open>A stream of messages: the calls made, in order, errors included.\<close>

fun v1_dispatch_all :: "v1Protocol \<Rightarrow> message list \<Rightarrow> v1Protocol \<times> (goerr + handlerCall) list" where
  "v1_dispatch_all v [] = (v, [])"
| "v1_dispatch_all v (m # ms) =
     (case v1_onMessage v m of (v', r) \<Rightarrow>
        case v1_dispatch_all v' ms of (w, rs) \<Rightarrow> (w, r # rs))"

fun invoked :: "goerr + handlerCall \<Rightarrow> u64 list" where
  "invoked (Inr (OnInvoke m)) = [Session m]"
| "invoked _ = []"

section \<open>The generator interface\<close>

locale protocol_generator =
  fixes isChunk :: "message \<Rightarrow> bool"
    and newChoke :: "u64 \<Rightarrow> message"
    and newChunk :: "u64 \<Rightarrow> slice \<Rightarrow> message"
    and newError :: "u64 \<Rightarrow> i64 \<Rightarrow> i64 \<Rightarrow> string \<Rightarrow> message"
  assumes chunk_is_chunk: "isChunk (newChunk s d)"
    and choke_not_chunk: "\<not> isChunk (newChoke s)"
    and error_not_chunk: "\<not> isChunk (newError s cat code text)"
    and choke_not_error: "newChoke s \<noteq> newError s' cat code text"
    and session_chunk: "Session (newChunk s d) = s"
    and session_choke: "Session (newChoke s) = s"
    and session_error: "Session (newError s cat code text) = s"
    and payload_chunk: "Payload (newChunk s d) = [GBytes d]"
    and payload_error: "Payload (newError s cat code text) = [GIntPair cat code, GString text]"

interpretation v1: protocol_generator isChunkV1 newChokeV1 newChunkV1 newErrorV1
  by unfold_locales (simp_all add: v1_messages v1_consts)

section \<open>Lemmas\<close>

lemma v1_onMessage_cases:
  assumes "v1_onMessage v m = (w, r)"
  obtains (util) "Session m = v1UtilitySession" "w = v" "r = dispatchUtilityMessage m"
  | (invoke) "Session m \<noteq> v1UtilitySession" "maxSession v < Session m" "MsgType m = v1Invoke"
      "w = v\<lparr>maxSession := Session m\<rparr>" "r = Inr (OnInvoke m)"
  | (other) "Session m \<noteq> v1UtilitySession" "w = v" "invoked r = []"
      "\<And>c. r = Inr c \<Longrightarrow> Session m \<le> maxSession v \<and> c \<in> {OnChunk m, OnChoke m, OnError m}"
proof (cases "Session m = v1UtilitySession")
  case True
  then show ?thesis using assms util by (simp add: v1_onMessage_def)
next
  case utility: False
  show ?thesis
  proof (cases "maxSession v < Session m")
    case True
    show ?thesis
    proof (cases "MsgType m = v1Invoke")
      case inv: True
      with utility True assms show ?thesis by (intro invoke) (auto simp: v1_onMessage_def)
    next
      case False
      with utility True assms show ?thesis by (intro other) (auto simp: v1_onMessage_def)
    qed
  next
    case False
    with utility assms show ?thesis
      by (intro other) (auto simp: v1_onMessage_def not_less split: if_splits)
  qed
qed

lemma invoked_utility [simp]: "invoked (dispatchUtilityMessage m) = []"
  by (simp add: dispatchUtilityMessage_def)

lemma v1_dispatch_all_mono:
  "v1_dispatch_all v ms = (w, rs) \<Longrightarrow> maxSession v \<le> maxSession w"
proof (induction ms arbitrary: v rs)
  case Nil
  then show ?case by simp
next
  case (Cons m ms)
  obtain v' r rs' where m: "v1_onMessage v m = (v', r)" and ms: "v1_dispatch_all v' ms = (w, rs')"
    using Cons.prems by (auto split: prod.splits)
  from m have "maxSession v \<le> maxSession v'" by (cases rule: v1_onMessage_cases) auto
  with Cons.IH [OF ms] show ?case by simp
qed

lemma v1_invoked_sorted:
  "v1_dispatch_all v ms = (w, rs) \<Longrightarrow>
     sorted_wrt (<) (maxSession v # concat (map invoked rs)) \<and>
     list_all (\<lambda>s. s \<le> maxSession w) (concat (map invoked rs))"
proof (induction ms arbitrary: v rs)
  case Nil
  then show ?case by auto
next
  case (Cons m ms)
  obtain v' r rs' where m: "v1_onMessage v m = (v', r)" and ms: "v1_dispatch_all v' ms = (w, rs')"
    and rs: "rs = r # rs'"
    using Cons.prems by (auto split: prod.splits)
  note IH = Cons.IH [OF ms]
  from m show ?case
  proof (cases rule: v1_onMessage_cases)
    case util
    with IH rs show ?thesis by simp
  next
    case invoke
    with IH rs v1_dispatch_all_mono [OF ms] show ?thesis by (auto dest: less_trans)
  next
    case other
    with IH rs show ?thesis by simp
  qed
qed

section \<open>Properties\<close>



end
