(* ===== verification/Handler.thy ===== *)
theory Handler
  imports Relay Wproto
begin

text \<open>
  The two halves of a session in the worker (\<open>cocaine12/handler.go\<close>): \<open>request\<close>, from which the
  user's handler reads what the worker pushes, with the goroutine \<open>loop\<close> between them; and
  \<open>response\<close>, through which the handler answers. \<open>trapRecoverAndClose\<close> of
  \<open>cocaine12/workerng.go\<close>, deferred around every handler, is here too.
\<close>

section \<open>The request's loop\<close>

record 'm request =
  rq_pending :: "'m list"
  rq_closed_nil :: bool \<comment> \<open>the loop's \<open>closed\<close> has been set to nil\<close>
  rq_closed :: bool \<comment> \<open>the channel \<open>request.closed\<close> is closed\<close>
  rq_returned :: bool \<comment> \<open>the loop has returned, and \<open>toHandler\<close> is closed\<close>

definition newRequest :: "'m request" where
  "newRequest = \<lparr>rq_pending = [], rq_closed_nil = False, rq_closed = False, rq_returned = False\<rparr>"

datatype 'm rqevent =
    Push 'm \<comment> \<open>\<open>push\<close>: rendezvous on \<open>fromWorker\<close>\<close>
  | Pull 'm \<comment> \<open>rendezvous on \<open>toHandler\<close>\<close>
  | SeeClosed \<comment> \<open>the loop's case \<open><-closed\<close>\<close>
  | CloseRequest \<comment> \<open>\<open>Close\<close> closes \<open>request.closed\<close>\<close>

fun request_select :: "'m request \<Rightarrow> 'm rqevent \<Rightarrow> 'm request option" where
  "request_select r (Push m) = Some (r\<lparr>rq_pending := rq_pending r @ [m]\<rparr>)"
| "request_select r (Pull m) =
     (case rq_pending r of
        [] \<Rightarrow> None
      | first # rest \<Rightarrow> if first = m then Some (r\<lparr>rq_pending := rest\<rparr>) else None)"
| "request_select r SeeClosed =
     (if \<not> rq_closed_nil r \<and> rq_closed r then Some (r\<lparr>rq_closed_nil := True\<rparr>) else None)"
| "request_select r CloseRequest = (if rq_closed r then None else Some (r\<lparr>rq_closed := True\<rparr>))"

definition request_head :: "'m request \<Rightarrow> 'm request" where
  "request_head r = (if rq_pending r = [] \<and> rq_closed_nil r then r\<lparr>rq_returned := True\<rparr> else r)"

definition request_loop :: "'m request \<Rightarrow> 'm rqevent \<Rightarrow> 'm request option" where
  "request_loop r e = (if rq_returned r then None else map_option request_head (request_select r e))"

text \<open>\<open>Close\<close> itself: closing twice panics.\<close>

definition request_Close :: "'m request \<Rightarrow> 'm request go" where
  "request_Close r = (if rq_closed r then Panic CloseOfClosed else Ret (r\<lparr>rq_closed := True\<rparr>))"

fun rq_recv :: "'m rqevent \<Rightarrow> 'm list" where
  "rq_recv (Push m) = [m]"
| "rq_recv _ = []"

fun rq_sent :: "'m rqevent \<Rightarrow> 'm list" where
  "rq_sent (Pull m) = [m]"
| "rq_sent _ = []"

lemma request_head_simps [simp]:
  "rq_pending (request_head r) = rq_pending r" "rq_closed_nil (request_head r) = rq_closed_nil r"
  "rq_closed (request_head r) = rq_closed r"
  "rq_returned (request_head r) \<longleftrightarrow> rq_returned r \<or> rq_pending r = [] \<and> rq_closed_nil r"
  by (auto simp: request_head_def)

lemma request_loop_Some [loop_simps]:
  "request_loop r e = Some t \<longleftrightarrow>
     \<not> rq_returned r \<and> (\<exists>d. request_select r e = Some d \<and> t = request_head d)"
  by (auto simp: request_loop_def)

interpretation rq: draining_relay request_loop rq_pending rq_recv rq_sent rq_returned
  "\<lambda>_. False" Pull rq_closed_nil
proof unfold_locales
  show "rq_pending s @ rq_recv e = rq_sent e @ rq_pending t" if "request_loop s e = Some t"
    for s t :: "'a request" and e
    using that by (cases e) (auto simp: loop_simps split: if_splits list.splits)
  show "request_loop s e = None" if "rq_returned s" for s :: "'a request" and e
    using that by (simp add: request_loop_def)
  show "rq_pending t = []" if "request_loop s e = Some t" "rq_returned t" for s t :: "'a request" and e
    using that by (cases e) (auto simp: loop_simps split: if_splits list.splits)
  show "\<exists>t. request_loop s (Pull m) = Some t \<and> rq_pending t = ms \<and> rq_closed_nil t = rq_closed_nil s
      \<and> (rq_returned t \<longleftrightarrow> rq_closed_nil s \<and> ms = [])"
    if "\<not> rq_returned s" "rq_pending s = m # ms" for s :: "'a request" and m ms
    using that by (auto simp: loop_simps)
qed

section \<open>Reading\<close>

definition cworkererrorcategory :: i64 where "cworkererrorcategory = 42"
definition cdefaulterrrorcode :: i64 where "cdefaulterrrorcode = 100"

definition ErrMalformedErrorMessage :: goerr where
  "ErrMalformedErrorMessage =
     ErrRequest ''malformed error message'' cworkererrorcategory cdefaulterrrorcode"

text \<open>
  The case of the \<open>select\<close> in \<open>Read\<close>: a message (None when \<open>toHandler\<close> is closed) or the end of
  the context with its error. \<open>convertPayload\<close> goes through the msgpack codec, so its effect on
  the error structure is a parameter.
\<close>

datatype readCase = FromLoop "message option" | CtxDone goerr

definition request_Read ::
  "(message \<Rightarrow> bool) \<Rightarrow> (gval list \<Rightarrow> goerr + i64 \<times> i64 \<times> string) \<Rightarrow> readCase \<Rightarrow> (goerr + slice) go" where
  "request_Read isChunk convertPayload c =
     (case c of
        CtxDone err \<Rightarrow> Ret (Inl err)
      | FromLoop None \<Rightarrow> Ret (Inl ErrStreamIsClosed)
      | FromLoop (Some msg) \<Rightarrow>
          (if isChunk msg then
             (case Payload msg of
                [] \<Rightarrow> Panic IndexOutOfRange
              | GBytes result # _ \<Rightarrow> Ret (Inr result)
              | _ \<Rightarrow> Ret (Inl ErrBadPayload))
           else if Payload msg = [] then Ret (Inl ErrMalformedErrorMessage)
           else (case convertPayload (Payload msg) of
                   Inl err \<Rightarrow> Ret (Inl err)
                 | Inr (category, code, text) \<Rightarrow> Ret (Inl (ErrRequest text category code)))))"

section \<open>The response\<close>

text \<open>
  \<open>rs_out\<close> is what was passed to \<open>toWorker.Send\<close>, in order. \<open>response_Write\<close> copies the data
  first; appending no bytes to a nil slice leaves it nil.
\<close>

record response =
  rs_session :: u64
  rs_closed :: bool
  rs_out :: "message list"

definition newResponse :: "u64 \<Rightarrow> response" where
  "newResponse session = \<lparr>rs_session = session, rs_closed = False, rs_out = []\<rparr>"

definition response_send :: "message \<Rightarrow> response \<Rightarrow> response" where
  "response_send m r = r\<lparr>rs_out := rs_out r @ [m]\<rparr>"

definition response_ZeroCopyWrite :: "slice \<Rightarrow> response \<Rightarrow> response \<times> goerr option" where
  "response_ZeroCopyWrite data r =
     (if rs_closed r then (r, Some ErrClosedPipe)
      else (response_send (newChunkV1 (rs_session r) data) r, None))"

definition response_Write :: "slice \<Rightarrow> response \<Rightarrow> response \<times> nat \<times> goerr option" where
  "response_Write data r =
     (let cpy = (if slice_bytes data = [] then None else data) in
      case response_ZeroCopyWrite cpy r of (r', err) \<Rightarrow>
        (r', if err \<noteq> None then (0, err) else (length (slice_bytes data), None)))"

definition response_Close :: "response \<Rightarrow> response \<times> goerr option" where
  "response_Close r =
     (if rs_closed r then (r, Some EINVAL)
      else (response_send (newChokeV1 (rs_session r)) (r\<lparr>rs_closed := True\<rparr>), None))"

definition response_ErrorMsg :: "i64 \<Rightarrow> string \<Rightarrow> response \<Rightarrow> response \<times> goerr option" where
  "response_ErrorMsg code text r =
     (if rs_closed r then (r, Some ErrClosedPipe)
      else (response_send (newErrorV1 (rs_session r) cworkererrorcategory code text)
              (r\<lparr>rs_closed := True\<rparr>), None))"

datatype respOp = WriteOp slice | ZeroCopyWriteOp slice | CloseOp | ErrorMsgOp i64 string

fun response_op :: "respOp \<Rightarrow> response \<Rightarrow> response" where
  "response_op (WriteOp d) r = fst (response_Write d r)"
| "response_op (ZeroCopyWriteOp d) r = fst (response_ZeroCopyWrite d r)"
| "response_op CloseOp r = fst (response_Close r)"
| "response_op (ErrorMsgOp code text) r = fst (response_ErrorMsg code text r)"

section \<open>The deferred trap\<close>

definition ErrorNoEventHandler :: i64 where "ErrorNoEventHandler = 200"
definition ErrorPanicInHandler :: i64 where "ErrorPanicInHandler = 100"

definition newline :: char where "newline = char_of (10::nat)"
definition quote :: char where "quote = char_of (39::nat)"

text \<open>
  \<open>recoverInfo\<close> is the rendered panic value (None when the handler returned normally); \<open>stack\<close>
  is what \<open>runtime.Stack\<close> would print, cut to the buffer of 4096 bytes. The response is an
  interface value, so its two methods are arguments.
\<close>

definition trap_message :: "string \<Rightarrow> string \<Rightarrow> bool \<Rightarrow> string \<Rightarrow> string" where
  "trap_message event recoverInfo printStack stack =
     ''Event: '' @ [quote] @ event @ [quote] @ '', recover: '' @ recoverInfo @ '', stack: ''
       @ [newline] @ (if printStack then take 4096 stack else []) @ [newline]"

definition trapRecoverAndClose ::
  "('r \<Rightarrow> 'r \<times> goerr option) \<Rightarrow> (i64 \<Rightarrow> string \<Rightarrow> 'r \<Rightarrow> 'r \<times> goerr option)
     \<Rightarrow> string \<Rightarrow> string option \<Rightarrow> bool \<Rightarrow> string \<Rightarrow> 'r \<Rightarrow> 'r" where
  "trapRecoverAndClose Close ErrorMsg event recovered printStack stack r =
     (case recovered of
        Some info \<Rightarrow> fst (ErrorMsg ErrorPanicInHandler (trap_message event info printStack stack) r)
      | None \<Rightarrow> fst (Close r))"

text \<open>A handler: the calls it makes on its response, then a return or a panic.\<close>

definition run_handler :: "string \<Rightarrow> respOp list \<Rightarrow> string option \<Rightarrow> bool \<Rightarrow> string \<Rightarrow> response \<Rightarrow> response" where
  "run_handler event ops recovered printStack stack r =
     trapRecoverAndClose response_Close response_ErrorMsg event recovered printStack stack
       (fold response_op ops r)"

section \<open>The test double of a response\<close>

text \<open>
  \<open>cocainetest.Response\<close> (\<open>cocaine12/cocainetest/response.go\<close>), the response handlers are tested
  with: it collects the bytes written and remembers the error.
\<close>

record testResponse =
  tr_Buffer :: bytes
  tr_closed :: bool
  tr_Err :: "(string \<times> i64) option"

definition newTestResponse :: testResponse where
  "newTestResponse = \<lparr>tr_Buffer = [], tr_closed = False, tr_Err = None\<rparr>"

definition test_Close :: "testResponse \<Rightarrow> testResponse \<times> goerr option" where
  "test_Close r = (if tr_closed r then (r, Some EINVAL) else (r\<lparr>tr_closed := True\<rparr>, None))"

definition test_ZeroCopyWrite :: "slice \<Rightarrow> testResponse \<Rightarrow> testResponse \<times> goerr option" where
  "test_ZeroCopyWrite data r = (r\<lparr>tr_Buffer := tr_Buffer r @ slice_bytes data\<rparr>, None)"

definition test_ErrorMsg :: "i64 \<Rightarrow> string \<Rightarrow> testResponse \<Rightarrow> testResponse \<times> goerr option" where
  "test_ErrorMsg code msg r =
     (if tr_closed r then (r, Some ErrClosedPipe) else test_Close (r\<lparr>tr_Err := Some (msg, code)\<rparr>))"

section \<open>The interface of a response\<close>

text \<open>What handlers and the code wrapped around them rely on of a \<open>ResponseStream\<close>.\<close>

locale response_stream =
  fixes Close :: "'r \<Rightarrow> 'r \<times> goerr option"
    and ErrorMsg :: "i64 \<Rightarrow> string \<Rightarrow> 'r \<Rightarrow> 'r \<times> goerr option"
    and ZeroCopyWrite :: "slice \<Rightarrow> 'r \<Rightarrow> 'r \<times> goerr option"
    and closed :: "'r \<Rightarrow> bool"
  assumes close_open: "\<not> closed r \<Longrightarrow> closed (fst (Close r)) \<and> snd (Close r) = None"
    and close_closed: "closed r \<Longrightarrow> Close r = (r, Some EINVAL)"
    and error_open: "\<not> closed r \<Longrightarrow> closed (fst (ErrorMsg c t r)) \<and> snd (ErrorMsg c t r) = None"
    and error_closed: "closed r \<Longrightarrow> ErrorMsg c t r = (r, Some ErrClosedPipe)"
    and write_keeps: "closed (fst (ZeroCopyWrite d r)) = closed r"
begin

lemma trap_closes: "closed (trapRecoverAndClose Close ErrorMsg event recovered printStack stack r)"
  using close_open [of r] close_closed [of r] error_open [of r] error_closed [of r]
  by (cases "closed r") (auto simp: trapRecoverAndClose_def split: option.splits)

lemma trap_after_close:
  "closed r \<Longrightarrow> trapRecoverAndClose Close ErrorMsg event recovered printStack stack r = r"
  by (simp add: trapRecoverAndClose_def close_closed error_closed split: option.splits)

lemma trap_idempotent:
  "trapRecoverAndClose Close ErrorMsg event recovered printStack stack
     (trapRecoverAndClose Close ErrorMsg event' recovered' printStack' stack' r) =
   trapRecoverAndClose Close ErrorMsg event' recovered' printStack' stack' r"
  by (rule trap_after_close [OF trap_closes])

end

lemmas response_defs = response_send_def response_ZeroCopyWrite_def response_Write_def
  response_Close_def response_ErrorMsg_def newResponse_def

interpretation rs: response_stream response_Close response_ErrorMsg response_ZeroCopyWrite rs_closed
  by unfold_locales (simp_all add: response_defs)

interpretation tr: response_stream test_Close test_ErrorMsg test_ZeroCopyWrite tr_closed
  by unfold_locales (simp_all add: test_Close_def test_ErrorMsg_def test_ZeroCopyWrite_def)

section \<open>What a response has sent\<close>

text \<open>
  The discipline of a session's answer: data chunks, and once it is closed exactly one final
  message, a choke or an error.
\<close>

definition is_final :: "u64 \<Rightarrow> message \<Rightarrow> bool" where
  "is_final s m \<longleftrightarrow> m = newChokeV1 s \<or> (\<exists>code text. m = newErrorV1 s cworkererrorcategory code text)"

definition is_data :: "u64 \<Rightarrow> message \<Rightarrow> bool" where
  "is_data s m \<longleftrightarrow> (\<exists>d. m = newChunkV1 s d)"

definition answer_ok :: "u64 \<Rightarrow> bool \<Rightarrow> message list \<Rightarrow> bool" where
  "answer_ok s c out \<longleftrightarrow>
     (if c then \<exists>ds m. out = ds @ [m] \<and> list_all (is_data s) ds \<and> is_final s m
      else list_all (is_data s) out)"

definition response_inv :: "response \<Rightarrow> bool" where
  "response_inv r \<longleftrightarrow> answer_ok (rs_session r) (rs_closed r) (rs_out r)"

lemma final_not_data: "is_final s m \<Longrightarrow> \<not> is_data s' m"
  by (auto simp: is_final_def is_data_def v1_messages v1_consts)

lemma response_inv_new [simp]: "response_inv (newResponse s)"
  by (simp add: response_inv_def answer_ok_def newResponse_def)

lemma response_inv_zero_copy: "response_inv r \<Longrightarrow> response_inv (fst (response_ZeroCopyWrite d r))"
  by (auto simp: response_inv_def answer_ok_def response_defs is_data_def)

lemma response_inv_write: "response_inv r \<Longrightarrow> response_inv (fst (response_Write d r))"
  using response_inv_zero_copy by (simp add: response_Write_def Let_def case_prod_beta)

lemma response_inv_close: "response_inv r \<Longrightarrow> response_inv (fst (response_Close r))"
  by (auto simp: response_inv_def answer_ok_def response_defs is_final_def)

lemma response_inv_error: "response_inv r \<Longrightarrow> response_inv (fst (response_ErrorMsg code text r))"
  by (auto simp: response_inv_def answer_ok_def response_defs is_final_def)

lemma response_inv_op: "response_inv r \<Longrightarrow> response_inv (response_op op r)"
  by (cases op)
     (simp_all add: response_inv_zero_copy response_inv_write response_inv_close response_inv_error)

lemma response_inv_ops: "response_inv r \<Longrightarrow> response_inv (fold response_op ops r)"
  by (induction ops arbitrary: r) (simp_all add: response_inv_op)

lemma response_op_session [simp]: "rs_session (response_op op r) = rs_session r"
  by (cases op) (auto simp: response_defs Let_def split: prod.splits)

lemma response_ops_session [simp]: "rs_session (fold response_op ops r) = rs_session r"
  by (induction ops arbitrary: r) simp_all

lemma trap_response_inv:
  "response_inv r \<Longrightarrow> response_inv
     (trapRecoverAndClose response_Close response_ErrorMsg event recovered printStack stack r)"
  by (auto simp: trapRecoverAndClose_def response_inv_close response_inv_error split: option.splits)

lemma trap_session [simp]:
  "rs_session (trapRecoverAndClose response_Close response_ErrorMsg event recovered printStack stack r)
     = rs_session r"
  by (auto simp: trapRecoverAndClose_def response_defs split: option.splits)

lemma written_chunks:
  "\<not> rs_closed r \<Longrightarrow>
     fold response_op (map ZeroCopyWriteOp ds) r =
       r\<lparr>rs_out := rs_out r @ map (newChunkV1 (rs_session r)) ds\<rparr>"
  by (induction ds arbitrary: r) (auto simp: response_defs)

section \<open>Properties\<close>

text \<open>A session's input reaches the handler in order and whole. The chunks pushed by the
  worker are those the handler has read, in order, and those still queued; once \<open>toHandler\<close> is
  closed every pushed chunk has been read, so \<open>ErrStreamIsClosed\<close> never hides data.\<close>

theorem request_lossless:
  assumes "run request_loop newRequest es = Some r"
  shows "concat (map rq_recv es) = concat (map rq_sent es) @ rq_pending r \<and>
     (rq_returned r \<longrightarrow> concat (map rq_sent es) = concat (map rq_recv es))"
proof -
  have new: "rq_pending newRequest = []" "\<not> rq_returned newRequest" by (simp_all add: newRequest_def)
  with rq.fifo [OF assms] rq.lossless [OF assms] show ?thesis by (auto simp: list_all_iff)
qed

theorem request_lossless_witness:
  "concat (map rq_recv [Push (1::nat), CloseRequest, SeeClosed, Push 2, Pull 1, Pull 2]) = [1, 2]"
proof -
  have "run request_loop newRequest [Push (1::nat), CloseRequest, SeeClosed, Push 2, Pull 1, Pull 2] =
      Some \<lparr>rq_pending = [], rq_closed_nil = True, rq_closed = True, rq_returned = True\<rparr>"
    by (simp add: request_loop_def request_head_def newRequest_def)
  from request_lossless [OF this] show ?thesis by simp
qed

text \<open>Closing a request ends it. From any state of a running loop whose request has been
  closed by the worker, letting the loop see it and reading what is queued makes the loop
  return, which is what a reader sees as \<open>ErrStreamIsClosed\<close>.\<close>

theorem request_close_ends:
  assumes "\<not> rq_returned r" and "rq_closed r" and "\<not> rq_closed_nil r"
  shows "\<exists>t. run request_loop r (SeeClosed # map Pull (rq_pending r)) = Some t \<and> rq_returned t"
proof -
  let ?u = "request_head (r\<lparr>rq_closed_nil := True\<rparr>)"
  have "request_loop r SeeClosed = Some ?u" using assms by (simp add: request_loop_def)
  moreover have "\<exists>t. run request_loop ?u (map Pull (rq_pending r)) = Some t \<and> rq_returned t"
  proof (cases "rq_pending r = []")
    case False
    with rq.drain [of ?u] assms(1) show ?thesis by simp
  qed simp
  ultimately show ?thesis by simp
qed

theorem request_close_ends_witness:
  "\<exists>t. run request_loop \<lparr>rq_pending = [7::nat], rq_closed_nil = False, rq_closed = True,
       rq_returned = False\<rparr> [SeeClosed, Pull 7] = Some t \<and> rq_returned t"
  using request_close_ends [of "\<lparr>rq_pending = [7::nat], rq_closed_nil = False, rq_closed = True,
       rq_returned = False\<rparr>"] by simp

text \<open>C4: every handler answers its client correctly. Whatever calls the handler makes on its
  response, in whatever order, and whether it returns or panics, the messages sent for the
  session are data chunks followed by exactly one final message, a choke or an error.\<close>

theorem handler_answer:
  "answer_ok s True (rs_out (run_handler event ops recovered printStack stack (newResponse s)))"
proof -
  let ?r = "run_handler event ops recovered printStack stack (newResponse s)"
  have "response_inv ?r"
    unfolding run_handler_def by (intro trap_response_inv response_inv_ops) simp
  moreover have "rs_closed ?r" unfolding run_handler_def by (rule rs.trap_closes)
  moreover have "rs_session ?r = s" by (simp add: run_handler_def) (simp add: newResponse_def)
  ultimately show ?thesis by (simp add: response_inv_def)
qed

text \<open>What one side's response sends, the other side's request reads. Given that the codec
  converts an error payload to its three fields, the chunks written come back unchanged and in
  order, and an \<open>ErrorMsg\<close> comes back as an \<open>ErrRequest\<close> with the worker's category and the
  same code and text.\<close>

theorem response_request_roundtrip:
  assumes convert: "\<And>category code text.
    convertPayload [GIntPair category code, GString text] = Inr (category, code, text)"
  shows "map (\<lambda>m. request_Read isChunkV1 convertPayload (FromLoop (Some m)))
      (rs_out (fold response_op (map ZeroCopyWriteOp ds @ [ErrorMsgOp code text]) (newResponse s))) =
    map (\<lambda>d. Ret (Inr d)) ds @ [Ret (Inl (ErrRequest text cworkererrorcategory code))]"
proof -
  have chunk: "request_Read isChunkV1 convertPayload (FromLoop (Some (newChunkV1 s d))) = Ret (Inr d)" for d
    by (simp add: request_Read_def v1.chunk_is_chunk v1.payload_chunk)
  have err: "request_Read isChunkV1 convertPayload
      (FromLoop (Some (newErrorV1 s cworkererrorcategory code text))) =
      Ret (Inl (ErrRequest text cworkererrorcategory code))"
    by (simp add: request_Read_def v1.error_not_chunk v1.payload_error convert)
  have "\<not> rs_closed (newResponse s)" by (simp add: newResponse_def)
  from written_chunks [OF this] show ?thesis by (simp add: response_defs chunk err)
qed

theorem response_request_roundtrip_witness:
  "map (\<lambda>m. request_Read isChunkV1 (\<lambda>p. case p of
         [GIntPair a b, GString t] \<Rightarrow> Inr (a, b, t) | _ \<Rightarrow> Inl (ErrCodec ''bad'')) (FromLoop (Some m)))
      (rs_out (fold response_op (map ZeroCopyWriteOp [Some [1, 2], None] @ [ErrorMsgOp 7 ''no'']) (newResponse 9))) =
    [Ret (Inr (Some [1, 2])), Ret (Inr None), Ret (Inl (ErrRequest ''no'' cworkererrorcategory 7))]"
  using response_request_roundtrip [of "\<lambda>p. case p of
         [GIntPair a b, GString t] \<Rightarrow> Inr (a, b, t) | _ \<Rightarrow> Inl (ErrCodec ''bad'')" "[Some [1, 2], None]" 7 "''no''" 9]
  by simp

end
