(* ===== verification/Http.thy ===== *)
theory Http
  imports HttpHeader Handler
begin

text \<open>
  HTTP applications on top of a session: \<open>ResponseWriter\<close> (\<open>cocaine12/httpresponse.go\<close>), which
  sends the status line and the headers as the first chunk and the body as the following ones,
  and the wrappers of \<open>cocaine12/httphandler.go\<close>, which unpack the request and run the
  application. msgpack is a parameter (\<open>encode\<close>, \<open>decode\<close>), and so is parsing a URL.
\<close>

section \<open>The response writer\<close>

text \<open>\<open>rw_multipart\<close>: the request has a parsed multipart form, whose files are not yet removed.\<close>

record responseWriter =
  rw_cRes :: response
  rw_header :: http_header
  rw_written :: i64
  rw_contentLength :: i64
  rw_status :: i64
  rw_wroteHeader :: bool
  rw_multipart :: bool

definition newResponseWriter :: "response \<Rightarrow> responseWriter" where
  "newResponseWriter r = \<lparr>rw_cRes = r, rw_header = [], rw_written = 0, rw_contentLength = - 1, rw_status = 0,
     rw_wroteHeader = False, rw_multipart = False\<rparr>"

definition StatusOK :: i64 where "StatusOK = 200"
definition StatusNotModified :: i64 where "StatusNotModified = 304"
definition StatusBadRequest :: i64 where "StatusBadRequest = 400"
definition StatusRequestTimeout :: i64 where "StatusRequestTimeout = 408"

definition WriteHead :: "(i64 \<Rightarrow> headers \<Rightarrow> bytes) \<Rightarrow> i64 \<Rightarrow> headers \<Rightarrow> slice" where
  "WriteHead encode code headers = Some (encode code headers)"

definition declareLength :: "responseWriter \<Rightarrow> responseWriter" where
  "declareLength w =
     (let cl = Header_Get ''Content-Length'' (rw_header w) in
      if cl = '''' then w
      else (case ParseInt cl of
              Some v \<Rightarrow> if v \<ge> 0 then w\<lparr>rw_contentLength := word_of_int v\<rparr>
                        else w\<lparr>rw_header := Header_Del ''Content-Length'' (rw_header w)\<rparr>
            | None \<Rightarrow> w\<lparr>rw_header := Header_Del ''Content-Length'' (rw_header w)\<rparr>))"

definition WriteHeader :: "(i64 \<Rightarrow> headers \<Rightarrow> bytes) \<Rightarrow> i64 \<Rightarrow> responseWriter \<Rightarrow> responseWriter" where
  "WriteHeader encode code w =
     (if rw_wroteHeader w then w
      else
        (let w1 = declareLength (w\<lparr>rw_wroteHeader := True, rw_status := code\<rparr>) in
         w1\<lparr>rw_cRes := fst (response_ZeroCopyWrite (WriteHead encode code (HeadersHTTPtoCocaine (rw_header w1)))
                        (rw_cRes w1))\<rparr>))"

definition finishRequest :: "(i64 \<Rightarrow> headers \<Rightarrow> bytes) \<Rightarrow> responseWriter \<Rightarrow> responseWriter" where
  "finishRequest encode w =
     (let w1 = (if rw_wroteHeader w then w else WriteHeader encode StatusOK w) in w1\<lparr>rw_multipart := False\<rparr>)"

definition bodyAllowed :: "responseWriter \<Rightarrow> bool go" where
  "bodyAllowed w =
     (if rw_wroteHeader w then Ret (rw_status w \<noteq> StatusNotModified) else Panic (UserPanic ''''))"

definition rw_write :: "(i64 \<Rightarrow> headers \<Rightarrow> bytes) \<Rightarrow> slice \<Rightarrow> bool \<Rightarrow> responseWriter
    \<Rightarrow> (responseWriter \<times> nat \<times> goerr option) go" where
  "rw_write encode data shouldCopy w =
     (let w1 = (if rw_wroteHeader w then w else WriteHeader encode StatusOK w);
          n = length (slice_bytes data) in
      if n = 0 then Ret (w1, 0, None)
      else go_bind (bodyAllowed w1) (\<lambda>allowed.
        if \<not> allowed then Ret (w1, 0, Some ErrBodyNotAllowed)
        else
          (let w2 = w1\<lparr>rw_written := rw_written w1 + word_of_nat n\<rparr> in
           if rw_contentLength w2 \<noteq> - 1 \<and> rw_contentLength w2 <s rw_written w2
           then Ret (w2, 0, Some ErrContentLength)
           else if shouldCopy
           then Ret (w2\<lparr>rw_cRes := fst (response_Write data (rw_cRes w2))\<rparr>, n, None)
           else Ret (w2\<lparr>rw_cRes := fst (response_ZeroCopyWrite data (rw_cRes w2))\<rparr>, n, None))))"

definition rw_Write where "rw_Write encode data = rw_write encode data True"

definition rw_WriteString where "rw_WriteString encode s = rw_write encode (Some (bytes_of_string s)) False"

section \<open>Applications\<close>

text \<open>What an application does with its response writer, \<open>Header()\<close> being the map it may change.\<close>

datatype httpOp =
    HAdd string string
  | HSet string string
  | HDel string
  | HWriteHeader i64
  | HWrite slice
  | HWriteString string
  | HParseMultipart

definition rw_op :: "(i64 \<Rightarrow> headers \<Rightarrow> bytes) \<Rightarrow> httpOp \<Rightarrow> responseWriter \<Rightarrow> responseWriter go" where
  "rw_op encode op w =
     (case op of
        HAdd k v \<Rightarrow> Ret (w\<lparr>rw_header := Header_Add k v (rw_header w)\<rparr>)
      | HSet k v \<Rightarrow> Ret (w\<lparr>rw_header := Header_Set k v (rw_header w)\<rparr>)
      | HDel k \<Rightarrow> Ret (w\<lparr>rw_header := Header_Del k (rw_header w)\<rparr>)
      | HWriteHeader code \<Rightarrow> Ret (WriteHeader encode code w)
      | HWrite d \<Rightarrow> go_bind (rw_Write encode d w) (\<lambda>(w', _). Ret w')
      | HWriteString s \<Rightarrow> go_bind (rw_WriteString encode s w) (\<lambda>(w', _). Ret w')
      | HParseMultipart \<Rightarrow> Ret (w\<lparr>rw_multipart := True\<rparr>))"

fun ServeHTTP :: "(i64 \<Rightarrow> headers \<Rightarrow> bytes) \<Rightarrow> httpOp list \<Rightarrow> responseWriter \<Rightarrow> responseWriter go" where
  "ServeHTTP encode [] w = Ret w"
| "ServeHTTP encode (op # ops) w = go_bind (rw_op encode op w) (ServeHTTP encode ops)"

section \<open>The request\<close>

text \<open>The first chunk, decoded, and the parts of \<open>http.Request\<close> the code sets.\<close>

record proxyRequest =
  pr_Method :: string
  pr_URI :: string
  pr_Version :: string
  pr_Headers :: headers
  pr_Body :: slice

datatype reqBody = PlainBody bytes | GzipBody bytes

record 'url httpRequest =
  hr_Method :: string
  hr_URL :: 'url
  hr_Header :: http_header
  hr_Host :: string
  hr_RemoteAddr :: string
  hr_ContentLength :: i64
  hr_Body :: reqBody

text \<open>\<open>http.NewRequest\<close> with a \<open>bytes.Buffer\<close>: the method must be a token.\<close>

definition NewRequest :: "(string \<Rightarrow> goerr + 'url) \<Rightarrow> string \<Rightarrow> string \<Rightarrow> bytes \<Rightarrow> goerr + 'url httpRequest" where
  "NewRequest parseURL meth uri body =
     (let m = (if meth = '''' then ''GET'' else meth) in
      if \<not> list_all validHeaderFieldByte m then Inl (ErrBadRequest ''net/http: invalid method'')
      else (case parseURL uri of
              Inl err \<Rightarrow> Inl err
            | Inr u \<Rightarrow> Inr \<lparr>hr_Method = m, hr_URL = u, hr_Header = [], hr_Host = '''', hr_RemoteAddr = '''',
                         hr_ContentLength = word_of_nat (length body), hr_Body = PlainBody body\<rparr>))"

definition unpackBody :: "'url httpRequest \<Rightarrow> 'url httpRequest" where
  "unpackBody req =
     (if hr_Method req \<noteq> ''HEAD'' \<and> hr_ContentLength req \<noteq> 0 \<and>
         Header_Get ''Content-Encoding'' (hr_Header req) = ''gzip''
      then req\<lparr>hr_Header := Header_Del ''Content-Length'' (Header_Del ''Content-Encoding'' (hr_Header req)),
               hr_ContentLength := - 1,
               hr_Body := (case hr_Body req of PlainBody b \<Rightarrow> GzipBody b | GzipBody b \<Rightarrow> GzipBody b)\<rparr>
      else req)"

definition UnpackProxyRequest ::
  "(slice \<Rightarrow> goerr + proxyRequest) \<Rightarrow> (string \<Rightarrow> goerr + 'url) \<Rightarrow> slice \<Rightarrow> goerr + 'url httpRequest" where
  "UnpackProxyRequest decode parseURL raw =
     (case decode raw of
        Inl err \<Rightarrow> Inl err
      | Inr v \<Rightarrow>
          (case NewRequest parseURL (pr_Method v) (pr_URI v) (slice_bytes (pr_Body v)) of
             Inl err \<Rightarrow> Inl err
           | Inr req \<Rightarrow>
               (let h = HeadersCocaineToHTTP (pr_Headers v);
                    req1 = req\<lparr>hr_Header := h, hr_Host := Header_Get ''Host'' h\<rparr>;
                    ip = Header_Get ''X-Real-IP'' h;
                    req2 = (if ip \<noteq> '''' then req1\<lparr>hr_RemoteAddr := ip\<rparr> else req1) in
                Inr (unpackBody req2))))"

text \<open>
  \<open>gzipReader\<close>, the decompressing body: the decompressor is created by the first \<open>Read\<close>. \<open>newReader\<close> is
  \<open>gzip.NewReader\<close> and \<open>zread\<close> the decompressor's \<open>Read\<close>, with the number of bytes asked for.
\<close>

record 'z gzipReader =
  gz_body :: bytes
  gz_zr :: "'z option"

definition gzipReader_Read :: "(bytes \<Rightarrow> goerr + 'z) \<Rightarrow> (nat \<Rightarrow> 'z \<Rightarrow> 'z \<times> bytes \<times> goerr option) \<Rightarrow> nat \<Rightarrow> 'z gzipReader
    \<Rightarrow> 'z gzipReader \<times> bytes \<times> goerr option" where
  "gzipReader_Read newReader zread n gz =
     (case (case gz_zr gz of Some z \<Rightarrow> Inr z | None \<Rightarrow> newReader (gz_body gz)) of
        Inl err \<Rightarrow> (gz, [], Some err)
      | Inr z \<Rightarrow> (case zread n z of (z', r) \<Rightarrow> (gz\<lparr>gz_zr := Some z'\<rparr>, r)))"

text \<open>\<open>Close\<close> closes the body below; the decompressor has nothing to close.\<close>

definition gzipReader_Close :: "(bytes \<Rightarrow> goerr option) \<Rightarrow> 'z gzipReader \<Rightarrow> goerr option" where
  "gzipReader_Close closeBody gz = closeBody (gz_body gz)"

fun read_each :: "(nat \<Rightarrow> 'z \<Rightarrow> 'z \<times> bytes \<times> goerr option) \<Rightarrow> nat list \<Rightarrow> 'z \<Rightarrow> (bytes \<times> goerr option) list" where
  "read_each rd [] z = []"
| "read_each rd (n # ns) z = (case rd n z of (z', r) \<Rightarrow> r # read_each rd ns z')"

text \<open>Reading through the wrapper is reading from the decompressor, created when first needed.\<close>

lemma gzipReader_reads:
  "newReader (gz_body gz) = Inr z \<Longrightarrow> gz_zr gz = None \<Longrightarrow>
     read_each (gzipReader_Read newReader zread) ns gz = read_each zread ns z"
proof (cases ns)
  case (Cons n ms)
  have opened: "read_each (gzipReader_Read newReader zread) ks (g\<lparr>gz_zr := Some y\<rparr>) = read_each zread ks y" for ks y g
    by (induction ks arbitrary: y g) (auto simp: gzipReader_Read_def split: prod.splits)
  then show "newReader (gz_body gz) = Inr z \<Longrightarrow> gz_zr gz = None \<Longrightarrow> ?thesis"
    using Cons by (auto simp: gzipReader_Read_def split: prod.splits)
qed simp

section \<open>The wrapped handler\<close>

text \<open>
  \<open>convertToHTTPFunc\<close>: what \<open>request.Read\<close> returned, the context's error if it has ended, and
  \<open>err.Error()\<close> as a parameter. On failure the answer has been written.
\<close>

definition convertToHTTPFunc ::
  "(i64 \<Rightarrow> headers \<Rightarrow> bytes) \<Rightarrow> (slice \<Rightarrow> goerr + proxyRequest) \<Rightarrow> (string \<Rightarrow> goerr + 'url) \<Rightarrow> (goerr \<Rightarrow> string)
     \<Rightarrow> goerr + slice \<Rightarrow> goerr option \<Rightarrow> response \<Rightarrow> response \<times> (goerr + responseWriter \<times> 'url httpRequest)" where
  "convertToHTTPFunc encode decode parseURL Error msg ctxErr r =
     (let refuse = (\<lambda>code text err. (fold response_op
            [WriteOp (WriteHead encode code []), WriteOp (Some (bytes_of_string text))] r, Inl err)) in
      case msg of
        Inl err \<Rightarrow>
          (case ctxErr of
             Some cerr \<Rightarrow> refuse StatusRequestTimeout ''request was not received during a timeout'' cerr
           | None \<Rightarrow> refuse StatusBadRequest (''cannot process request '' @ Error err) err)
      | Inr raw \<Rightarrow>
          (case UnpackProxyRequest decode parseURL raw of
             Inl err \<Rightarrow> refuse StatusBadRequest ''malformed request'' err
           | Inr req \<Rightarrow> (r, Inr (newResponseWriter r, req))))"

text \<open>
  The handler \<open>WrapHandler\<close> and \<open>WrapHTTPFunc\<close> make: the application \<open>app\<close> maps the request to
  what it does and to the value it panics with, if it does. The deferred \<open>Close\<close> runs in every
  case. A run-time panic of the writer itself is a panic of the application.
\<close>

definition WrapHandler ::
  "(i64 \<Rightarrow> headers \<Rightarrow> bytes) \<Rightarrow> (slice \<Rightarrow> goerr + proxyRequest) \<Rightarrow> (string \<Rightarrow> goerr + 'url) \<Rightarrow> (goerr \<Rightarrow> string)
     \<Rightarrow> ('url httpRequest \<Rightarrow> httpOp list \<times> string option) \<Rightarrow> goerr + slice \<Rightarrow> goerr option \<Rightarrow> response
     \<Rightarrow> (response \<times> string option) go" where
  "WrapHandler encode decode parseURL Error app msg ctxErr r =
     (case convertToHTTPFunc encode decode parseURL Error msg ctxErr r of
        (r', Inl err) \<Rightarrow> Ret (fst (response_Close r'), None)
      | (r', Inr (w, req)) \<Rightarrow>
          (case app req of (ops, panics) \<Rightarrow>
             go_bind (ServeHTTP encode ops w) (\<lambda>w1.
               let w2 = (if panics = None then finishRequest encode w1 else w1) in
               Ret (fst (response_Close (rw_cRes w2)), panics))))"

text \<open>
  \<open>WrapHTTPFuncs\<close> and \<open>WrapHandleFuncs\<close> wrap every entry of a map; a \<open>http.HandlerFunc\<close> is the
  handler that calls it.
\<close>

definition WrapHandlerFunc where
  "WrapHandlerFunc encode decode parseURL Error hf = WrapHandler encode decode parseURL Error hf"

definition WrapHandleFuncs where
  "WrapHandleFuncs encode decode parseURL Error hfs =
     map (\<lambda>(key, hf). (key, WrapHandlerFunc encode decode parseURL Error hf)) hfs"

definition WrapHTTPFuncs where
  "WrapHTTPFuncs encode decode parseURL Error hfs =
     map (\<lambda>(key, hf). (key, WrapHandler encode decode parseURL Error hf)) hfs"

text \<open>And the whole run of the session: the wrapped handler under the worker's trap.\<close>

definition http_session where
  "http_session encode decode parseURL Error app event printStack stack msg ctxErr s =
     go_bind (WrapHandler encode decode parseURL Error app msg ctxErr (newResponse s)) (\<lambda>(r, recovered).
       Ret (trapRecoverAndClose response_Close response_ErrorMsg event recovered printStack stack r))"

section \<open>What the client gets\<close>

text \<open>
  The specification of an answer. The header phase lasts until the first \<open>WriteHeader\<close> or
  write; the pieces of the body are what is written, without the empty writes; with a declared
  length only the pieces that fit, counted from the first, are sent.
\<close>

fun http_split :: "httpOp list \<Rightarrow> http_header \<Rightarrow> i64 \<times> http_header" where
  "http_split [] h = (StatusOK, h)"
| "http_split (HAdd k v # ops) h = http_split ops (Header_Add k v h)"
| "http_split (HSet k v # ops) h = http_split ops (Header_Set k v h)"
| "http_split (HDel k # ops) h = http_split ops (Header_Del k h)"
| "http_split (HWriteHeader code # ops) h = (code, h)"
| "http_split (HParseMultipart # ops) h = http_split ops h"
| "http_split (op # ops) h = (StatusOK, h)"

fun op_writes :: "httpOp \<Rightarrow> bytes list" where
  "op_writes (HWrite d) = (if slice_bytes d = [] then [] else [slice_bytes d])"
| "op_writes (HWriteString s) = (if s = '''' then [] else [bytes_of_string s])"
| "op_writes _ = []"

definition http_writes :: "httpOp list \<Rightarrow> bytes list" where
  "http_writes ops = concat (map op_writes ops)"

definition declared :: "http_header \<Rightarrow> nat option" where
  "declared h = (case ParseInt (Header_Get ''Content-Length'' h) of
     Some v \<Rightarrow> if v \<ge> 0 then Some (nat v) else None | None \<Rightarrow> None)"

definition sent_header :: "http_header \<Rightarrow> http_header" where
  "sent_header h =
     (if Header_Get ''Content-Length'' h = '''' \<or> declared h \<noteq> None then h else Header_Del ''Content-Length'' h)"

fun fitting :: "nat \<Rightarrow> bytes list \<Rightarrow> bytes list" where
  "fitting n [] = []"
| "fitting n (p # ps) = (if length p \<le> n then p # fitting (n - length p) ps else [])"

definition http_body :: "i64 \<Rightarrow> nat option \<Rightarrow> nat \<Rightarrow> bytes list \<Rightarrow> bytes list" where
  "http_body status limit sofar ps =
     (if status = StatusNotModified then []
      else case limit of None \<Rightarrow> ps | Some n \<Rightarrow> if sofar \<le> n then fitting (n - sofar) ps else [])"

lemma fitting_prefix: "prefix (fitting n ps) ps"
  by (induction n ps rule: fitting.induct) auto

lemma fitting_length: "length (concat (fitting n ps)) \<le> n"
  by (induction n ps rule: fitting.induct) auto

lemma fitting_all: "length (concat ps) \<le> n \<Longrightarrow> fitting n ps = ps"
  by (induction n ps rule: fitting.induct) auto

lemma sint_small: "n < 2 ^ 63 \<Longrightarrow> sint (word_of_nat n :: i64) = int n"
  by (simp add: signed_of_nat signed_take_bit_int_eq_self)

lemma sless_small: "a < 2 ^ 63 \<Longrightarrow> b < 2 ^ 63 \<Longrightarrow> (word_of_nat a :: i64) <s word_of_nat b \<longleftrightarrow> a < b"
  by (simp add: word_sless_alt sint_small)

lemma small_not_minus_one: "n < 2 ^ 63 \<Longrightarrow> (word_of_nat n :: i64) \<noteq> - 1"
  using sint_small [of n] by auto

text \<open>A writer in the body phase.\<close>

definition in_body :: "u64 \<Rightarrow> i64 \<Rightarrow> nat option \<Rightarrow> nat \<Rightarrow> responseWriter \<Rightarrow> bool" where
  "in_body s status limit sofar w \<longleftrightarrow>
     rw_wroteHeader w \<and> \<not> rs_closed (rw_cRes w) \<and> rs_session (rw_cRes w) = s \<and> rw_status w = status \<and>
     rw_written w = word_of_nat sofar \<and>
     rw_contentLength w = (case limit of None \<Rightarrow> - 1 | Some n \<Rightarrow> word_of_nat n) \<and>
     (\<forall>n. limit = Some n \<longrightarrow> n < 2 ^ 63)"

lemma in_body_write:
  assumes "in_body s status limit sofar w" and "sofar + length (slice_bytes d) < 2 ^ 63"
    and "slice_bytes d \<noteq> []"
  obtains w' r sofar' where "rw_write encode d shouldCopy w = Ret (w', r)" "in_body s status limit sofar' w'"
    "sofar' \<le> sofar + length (slice_bytes d)"
    "rs_out (rw_cRes w') = rs_out (rw_cRes w) @
       map (\<lambda>b. newChunkV1 s (Some b)) (http_body status limit sofar [slice_bytes d])"
    "\<And>ps. http_body status limit sofar (slice_bytes d # ps) =
       http_body status limit sofar [slice_bytes d] @ http_body status limit sofar' ps"
proof -
  let ?n = "length (slice_bytes d)"
  obtain b where d: "d = Some b" "b \<noteq> []" using assms(3) by (cases d) auto
  note w = assms(1) [unfolded in_body_def]
  show ?thesis
  proof (cases "status = StatusNotModified")
    case True
    with w assms(3) show ?thesis
      by (intro that [of w "(0, Some ErrBodyNotAllowed)" sofar])
        (auto simp: rw_write_def bodyAllowed_def http_body_def in_body_def)
  next
    case ok: False
    show ?thesis
    proof (cases "limit \<noteq> None \<and> the limit < sofar + ?n")
      case True
      then obtain n where n: "limit = Some n" "n < sofar + ?n" by auto
      from n w have small: "n < 2 ^ 63" by simp
      have "(word_of_nat n :: i64) <s word_of_nat (sofar + ?n)"
        using sless_small [OF small assms(2)] n by simp
      with w n ok assms(3) small_not_minus_one [OF small] show ?thesis
        by (intro that [of "w\<lparr>rw_written := word_of_nat (sofar + ?n)\<rparr>" "(0, Some ErrContentLength)" "sofar + ?n"])
          (auto simp: rw_write_def bodyAllowed_def http_body_def in_body_def)
    next
      case False
      let ?w = "w\<lparr>rw_written := word_of_nat (sofar + ?n),
        rw_cRes := (rw_cRes w)\<lparr>rs_out := rs_out (rw_cRes w) @ [newChunkV1 s d]\<rparr>\<rparr>"
      have "\<not> (rw_contentLength w \<noteq> - 1 \<and> rw_contentLength w <s word_of_nat (sofar + ?n))"
      proof (cases limit)
        case None
        with w show ?thesis by simp
      next
        case (Some n)
        with w False have "n < 2 ^ 63" "\<not> n < sofar + ?n" "rw_contentLength w = word_of_nat n" by auto
        with sless_small [OF _ assms(2), of n] show ?thesis by simp
      qed
      then have "rw_write encode d shouldCopy w = Ret (?w, ?n, None)"
        using w ok d assms(3) by (auto simp: rw_write_def bodyAllowed_def response_defs Let_def)
      moreover have "in_body s status limit (sofar + ?n) ?w" using w by (simp add: in_body_def split: option.splits)
      ultimately show ?thesis
        using ok False d by (intro that [of ?w "(?n, None)" "sofar + ?n"])
          (auto simp: http_body_def split: option.splits)
    qed
  qed
qed

lemma in_body_op:
  assumes "in_body s status limit sofar w" and "sofar + length (concat (op_writes op)) < 2 ^ 63"
  obtains w' sofar' where "rw_op encode op w = Ret w'" "in_body s status limit sofar' w'"
    "sofar' \<le> sofar + length (concat (op_writes op))"
    "rs_out (rw_cRes w') = rs_out (rw_cRes w) @
       map (\<lambda>b. newChunkV1 s (Some b)) (http_body status limit sofar (op_writes op))"
    "\<And>ps. http_body status limit sofar (op_writes op @ ps) =
       http_body status limit sofar (op_writes op) @ http_body status limit sofar' ps"
proof -
  note result = that
  have none: "http_body status limit sofar [] = []" by (simp add: http_body_def split: option.splits)
  have wrote: "rw_wroteHeader w" using assms(1) by (simp add: in_body_def)
  have quiet: ?thesis if "rw_op encode op w = Ret w'" "op_writes op = []" "in_body s status limit sofar w'"
      "rw_cRes w' = rw_cRes w" for w'
    using that none by (intro result [of w' sofar]) simp_all
  have writes: ?thesis if op: "op_writes op = [slice_bytes d]" "slice_bytes d \<noteq> []"
      "rw_op encode op w = go_bind (rw_write encode d c w) (\<lambda>(w', _). Ret w')" for d c
  proof -
    have "sofar + length (slice_bytes d) < 2 ^ 63" using assms(2) op(1) by simp
    from in_body_write [OF assms(1) this op(2), of encode c] obtain w' r sofar' where
      w': "rw_write encode d c w = Ret (w', r)" "in_body s status limit sofar' w'"
        "sofar' \<le> sofar + length (slice_bytes d)"
        "rs_out (rw_cRes w') = rs_out (rw_cRes w) @
           map (\<lambda>b. newChunkV1 s (Some b)) (http_body status limit sofar [slice_bytes d])"
        "\<And>ps. http_body status limit sofar (slice_bytes d # ps) =
           http_body status limit sofar [slice_bytes d] @ http_body status limit sofar' ps" by blast
    have split: "http_body status limit sofar (op_writes op @ ps) =
        http_body status limit sofar (op_writes op) @ http_body status limit sofar' ps" for ps
      using w'(5) [of ps] op(1) by simp
    have run: "rw_op encode op w = Ret w'" using op(3) w'(1) by simp
    have len: "sofar' \<le> sofar + length (concat (op_writes op))" using w'(3) op(1) by simp
    show ?thesis by (rule result [OF run w'(2) len _ split]) (use w'(4) op(1) in simp)
  qed
  have empty: "rw_write encode d c w = Ret (w, 0, None)" if "slice_bytes d = []" for d c
    using that wrote by (simp add: rw_write_def)
  show ?thesis
  proof (cases op)
    case (HWrite d)
    then show ?thesis
      using quiet [of w] writes [of d True] empty [of d True] assms(1)
      by (cases "slice_bytes d = []") (simp_all add: rw_op_def rw_Write_def)
  next
    case (HWriteString t)
    have "slice_bytes (Some (bytes_of_string t)) = [] \<longleftrightarrow> t = ''''"
      by (simp add: bytes_of_string_def)
    with HWriteString show ?thesis
      using quiet [of w] writes [of "Some (bytes_of_string t)" False] empty [of "Some (bytes_of_string t)" False] assms(1)
      by (cases "t = ''''") (simp_all add: rw_op_def rw_WriteString_def)
  next
    case (HWriteHeader code)
    with wrote assms(1) quiet [of w] show ?thesis by (simp add: rw_op_def WriteHeader_def)
  qed (use quiet assms(1) in \<open>auto simp: rw_op_def in_body_def\<close>)
qed

lemma in_body_ops:
  assumes "in_body s status limit sofar w" and "sofar + length (concat (http_writes ops)) < 2 ^ 63"
  shows "\<exists>w'. ServeHTTP encode ops w = Ret w' \<and> rw_wroteHeader w' \<and> \<not> rs_closed (rw_cRes w') \<and>
    rs_session (rw_cRes w') = s \<and>
    rs_out (rw_cRes w') = rs_out (rw_cRes w) @
      map (\<lambda>b. newChunkV1 s (Some b)) (http_body status limit sofar (http_writes ops))"
  using assms
proof (induction ops arbitrary: w sofar)
  case Nil
  then show ?case by (simp add: http_writes_def http_body_def in_body_def split: option.splits)
next
  case (Cons op ops)
  have w: "http_writes (op # ops) = op_writes op @ http_writes ops" by (simp add: http_writes_def)
  obtain u sofar' where u: "rw_op encode op w = Ret u" "in_body s status limit sofar' u"
    "sofar' \<le> sofar + length (concat (op_writes op))"
    "rs_out (rw_cRes u) = rs_out (rw_cRes w) @
       map (\<lambda>b. newChunkV1 s (Some b)) (http_body status limit sofar (op_writes op))"
    "\<And>ps. http_body status limit sofar (op_writes op @ ps) =
       http_body status limit sofar (op_writes op) @ http_body status limit sofar' ps"
    using in_body_op [OF Cons.prems(1), of op encode] Cons.prems(2) unfolding w by auto
  from Cons.IH [OF u(2)] u(3) Cons.prems(2) obtain w' where "ServeHTTP encode ops u = Ret w'" "rw_wroteHeader w'"
      "\<not> rs_closed (rw_cRes w')" "rs_session (rw_cRes w') = s"
      "rs_out (rw_cRes w') = rs_out (rw_cRes u) @
         map (\<lambda>b. newChunkV1 s (Some b)) (http_body status limit sofar' (http_writes ops))"
    by (auto simp: w)
  with u(1,4) show ?case unfolding w by (simp add: u(5))
qed

text \<open>The head is written once, when the header phase ends.\<close>

definition fresh_writer :: "u64 \<Rightarrow> http_header \<Rightarrow> responseWriter \<Rightarrow> bool" where
  "fresh_writer s h w \<longleftrightarrow> \<not> rw_wroteHeader w \<and> rw_header w = h \<and> rw_written w = 0 \<and> rw_contentLength w = - 1 \<and>
     \<not> rs_closed (rw_cRes w) \<and> rs_session (rw_cRes w) = s \<and> rs_out (rw_cRes w) = []"

lemma declared_small: "declared h = Some n \<Longrightarrow> n < 2 ^ 63"
  using ParseInt_range by (auto simp: declared_def nat_less_iff split: option.splits if_splits)

lemma WriteHeader_fresh:
  assumes "fresh_writer s h w"
  shows "in_body s code (declared h) 0 (WriteHeader encode code w) \<and>
    rs_out (rw_cRes (WriteHeader encode code w)) =
      [newChunkV1 s (Some (encode code (HeadersHTTPtoCocaine (sent_header h))))]"
proof -
  have small: "nat v < 2 ^ 63" if "ParseInt t = Some v" for t v
    using ParseInt_range [OF that] by (cases "v \<ge> 0") (auto simp: nat_less_iff)
  have empty: "ParseInt '''' = None" by (simp add: ParseInt_def)
  show ?thesis
    using assms small
    by (auto simp: fresh_writer_def in_body_def WriteHeader_def declareLength_def declared_def sent_header_def
        WriteHead_def response_defs Let_def empty split: option.splits)
qed

lemma serve_fresh:
  assumes "fresh_writer s h w" and "length (concat (http_writes ops)) < 2 ^ 63" and "http_split ops h = (code, h')"
  shows "\<exists>w' w1. ServeHTTP encode ops w = Ret w1 \<and> w' = finishRequest encode w1 \<and> \<not> rs_closed (rw_cRes w') \<and>
    rs_session (rw_cRes w') = s \<and>
    rs_out (rw_cRes w') = newChunkV1 s (Some (encode code (HeadersHTTPtoCocaine (sent_header h')))) #
      map (\<lambda>b. newChunkV1 s (Some b)) (http_body code (declared h') 0 (http_writes ops))"
  using assms
proof (induction ops h arbitrary: w rule: http_split.induct [case_names stop add replace drop head form chunk chunk_string])
  case (stop h)
  then show ?case
    using WriteHeader_fresh [OF stop.prems(1), of StatusOK encode]
    by (auto simp: finishRequest_def fresh_writer_def http_writes_def http_body_def in_body_def split: option.splits)
next
  case (add k v ops h)
  then show ?case using add.IH [of "w\<lparr>rw_header := Header_Add k v (rw_header w)\<rparr>"]
    by (simp add: rw_op_def fresh_writer_def http_writes_def)
next
  case (replace k v ops h)
  then show ?case using replace.IH [of "w\<lparr>rw_header := Header_Set k v (rw_header w)\<rparr>"]
    by (simp add: rw_op_def fresh_writer_def http_writes_def)
next
  case (drop k ops h)
  then show ?case using drop.IH [of "w\<lparr>rw_header := Header_Del k (rw_header w)\<rparr>"]
    by (simp add: rw_op_def fresh_writer_def http_writes_def)
next
  case (head c ops h)
  have w: "http_writes (HWriteHeader c # ops) = http_writes ops" by (simp add: http_writes_def)
  note f = WriteHeader_fresh [OF head.prems(1), of c encode]
  from in_body_ops [of s c "declared h" 0 "WriteHeader encode c w" ops encode] f head.prems(2,3) show ?case
    unfolding w by (auto simp: rw_op_def finishRequest_def)
next
  case (form ops h)
  then show ?case using form.IH [of "w\<lparr>rw_multipart := True\<rparr>"]
    by (simp add: rw_op_def fresh_writer_def http_writes_def)
next
  case (chunk d ops h)
  let ?w = "WriteHeader encode StatusOK w"
  note f = WriteHeader_fresh [OF chunk.prems(1), of StatusOK encode]
  have "ServeHTTP encode (HWrite d # ops) w = ServeHTTP encode (HWrite d # ops) ?w"
    using f chunk.prems(1) by (simp add: rw_op_def rw_Write_def rw_write_def in_body_def fresh_writer_def)
  with in_body_ops [of s StatusOK "declared h" 0 ?w "HWrite d # ops" encode] f chunk.prems(2,3) show ?case
    by (auto simp: finishRequest_def)
next
  case (chunk_string t ops h)
  let ?w = "WriteHeader encode StatusOK w"
  note f = WriteHeader_fresh [OF chunk_string.prems(1), of StatusOK encode]
  have "ServeHTTP encode (HWriteString t # ops) w = ServeHTTP encode (HWriteString t # ops) ?w"
    using f chunk_string.prems(1) by (simp add: rw_op_def rw_WriteString_def rw_write_def in_body_def fresh_writer_def)
  with in_body_ops [of s StatusOK "declared h" 0 ?w "HWriteString t # ops" encode] f chunk_string.prems(2,3) show ?case
    by (auto simp: finishRequest_def)
qed

lemma fresh_new: "fresh_writer s [] (newResponseWriter (newResponse s))"
  by (simp add: fresh_writer_def newResponseWriter_def newResponse_def)

lemma http_session_answer:
  assumes "UnpackProxyRequest decode parseURL raw = Inr req" and "app req = (ops, None)"
    and "length (concat (http_writes ops)) < 2 ^ 63" and "http_split ops [] = (code, h)"
  shows "\<exists>r. http_session encode decode parseURL Error app event printStack stack (Inr raw) ctxErr s = Ret r \<and>
    rs_out r = [newChunkV1 s (Some (encode code (HeadersHTTPtoCocaine (sent_header h))))] @
      map (\<lambda>b. newChunkV1 s (Some b)) (http_body code (declared h) 0 (http_writes ops)) @ [newChokeV1 s]"
proof -
  obtain w1 where w1: "ServeHTTP encode ops (newResponseWriter (newResponse s)) = Ret w1"
      "\<not> rs_closed (rw_cRes (finishRequest encode w1))" "rs_session (rw_cRes (finishRequest encode w1)) = s"
      "rs_out (rw_cRes (finishRequest encode w1)) =
        newChunkV1 s (Some (encode code (HeadersHTTPtoCocaine (sent_header h)))) #
        map (\<lambda>b. newChunkV1 s (Some b)) (http_body code (declared h) 0 (http_writes ops))"
    using serve_fresh [OF fresh_new assms(3,4)] by blast
  let ?r = "fst (response_Close (rw_cRes (finishRequest encode w1)))"
  have "WrapHandler encode decode parseURL Error app (Inr raw) ctxErr (newResponse s) = Ret (?r, None)"
    by (simp add: WrapHandler_def convertToHTTPFunc_def assms(1,2) w1(1) Let_def)
  moreover have "rs_closed ?r" using rs.close_open w1(2) by blast
  then have "trapRecoverAndClose response_Close response_ErrorMsg event None printStack stack ?r = ?r"
    by (rule rs.trap_after_close)
  moreover have "rs_out ?r = rs_out (rw_cRes (finishRequest encode w1)) @ [newChokeV1 s]"
    using w1(2,3) by (simp add: response_defs)
  ultimately show ?thesis using w1(4) by (simp add: http_session_def)
qed

lemma http_body_bounds:
  "prefix (http_body status limit 0 ps) ps \<and>
   (status = StatusNotModified \<longrightarrow> http_body status limit 0 ps = []) \<and>
   (limit = Some n \<longrightarrow> length (concat (http_body status limit 0 ps)) \<le> n) \<and>
   (limit = Some n \<longrightarrow> length (concat ps) \<le> n \<longrightarrow> status \<noteq> StatusNotModified \<longrightarrow> http_body status limit 0 ps = ps)"
  using fitting_prefix [of n ps] fitting_length [of n ps] fitting_all [of ps n] fitting_prefix
  by (auto simp: http_body_def split: option.splits)

section \<open>Properties\<close>

text \<open>C8: an HTTP answer is well formed, whatever the application does. If the request can be read
  and unpacked and the application returns, having written fewer than \<open>2 ^ 63\<close> bytes, then the
  session carries exactly one head, with the status of the first \<open>WriteHeader\<close> (200 if a write
  comes first or nothing is written) and the headers set before it, less a malformed
  \<open>Content-Length\<close>; then the body; then one choke. The body is the application's writes in order:
  all of them without a declared length, none for status 304, and otherwise the longest prefix
  of them that fits the declared length, so never more bytes than declared.\<close>

theorem http_answer:
  assumes "UnpackProxyRequest decode parseURL raw = Inr req" and "app req = (ops, None)"
    and "length (concat (http_writes ops)) < 2 ^ 63" and "http_split ops [] = (code, h)"
  shows "\<exists>r body. http_session encode decode parseURL Error app event printStack stack (Inr raw) ctxErr s = Ret r \<and>
    rs_out r = [newChunkV1 s (Some (encode code (HeadersHTTPtoCocaine (sent_header h))))] @
      map (\<lambda>b. newChunkV1 s (Some b)) body @ [newChokeV1 s] \<and>
    body = http_body code (declared h) 0 (http_writes ops) \<and> prefix body (http_writes ops) \<and>
    (\<forall>n. declared h = Some n \<longrightarrow> length (concat body) \<le> n)"
  using http_session_answer [of decode parseURL raw req app ops code h encode Error event printStack stack ctxErr s, OF assms]
    http_body_bounds [of code "declared h" "http_writes ops"]
  by blast
definition demo_decode_http :: "slice \<Rightarrow> goerr + proxyRequest" where
  "demo_decode_http raw = Inr \<lparr>pr_Method = ''GET'', pr_URI = ''/'', pr_Version = ''1.1'', pr_Headers = [], pr_Body = raw\<rparr>"

lemma demo_request:
  "UnpackProxyRequest demo_decode_http (Inr :: string \<Rightarrow> goerr + string) None =
     Inr (unpackBody (\<lparr>hr_Method = ''GET'', hr_URL = ''/'', hr_Header = [], hr_Host = '''', hr_RemoteAddr = '''',
       hr_ContentLength = 0, hr_Body = PlainBody []\<rparr>))"
  by (simp add: UnpackProxyRequest_def demo_decode_http_def NewRequest_def HeadersCocaineToHTTP_def Header_Get_def
      validHeaderFieldByte_def)

theorem http_answer_witness:
  "\<exists>r. http_session (\<lambda>c h. [ucast c]) demo_decode_http Inr (\<lambda>_. '''')
        (\<lambda>_. ([HSet ''content-length'' ''3'', HWrite (Some [1, 2]), HWrite (Some [3, 4]), HWriteString ''''], None))
        ''http'' False [] (Inr None) None 5 = Ret r \<and>
     rs_out r = [newChunkV1 5 (Some [200]), newChunkV1 5 (Some [1, 2]), newChokeV1 5]"
proof -
  let ?ops = "[HSet ''content-length'' ''3'', HWrite (Some [1, 2]), HWrite (Some [3, 4]), HWriteString '''']"
  let ?h = "[(''Content-Length'', [''3''])]"
  have key: "CanonicalHeaderKey ''content-length'' = ''Content-Length''" "CanonicalHeaderKey ''Content-Length'' = ''Content-Length''"
    by code_simp+
  have split: "http_split ?ops [] = (StatusOK, ?h)"
    by (simp add: Header_Set_def Header_Add_def Header_Del_def key)
  have "declared ?h = Some 3"
    by (simp add: declared_def Header_Get_def key ParseInt_def undecimal_def)
  then have body: "http_body StatusOK (declared ?h) 0 (http_writes ?ops) = [[1, 2]]"
    by (simp add: http_body_def http_writes_def StatusOK_def StatusNotModified_def)
  have len: "length (concat (http_writes ?ops)) < 2 ^ 63" by (simp add: http_writes_def)
  from http_answer [OF demo_request _ len split, of "\<lambda>_. (?ops, None)" "\<lambda>c h. [ucast c]" "\<lambda>_. ''''" "''http''" False "[]" None 5] body
  show ?thesis by (auto simp: StatusOK_def)
qed

text \<open>An application's calls never panic in the writer, and until the end only data is sent.\<close>

definition writing :: "u64 \<Rightarrow> responseWriter \<Rightarrow> bool" where
  "writing s w \<longleftrightarrow> \<not> rs_closed (rw_cRes w) \<and> rs_session (rw_cRes w) = s \<and> list_all (is_data s) (rs_out (rw_cRes w))"

lemma writing_WriteHeader: "writing s w \<Longrightarrow> writing s (WriteHeader encode code w) \<and> rw_wroteHeader (WriteHeader encode code w)"
  by (auto simp: writing_def WriteHeader_def declareLength_def response_defs is_data_def Let_def split: option.splits)

lemma writing_write:
  assumes "writing s w"
  shows "\<exists>u r. rw_write encode d c w = Ret (u, r) \<and> writing s u"
proof -
  define v where "v = (if rw_wroteHeader w then w else WriteHeader encode StatusOK w)"
  have v: "writing s v" "rw_wroteHeader v" using assms writing_WriteHeader by (auto simp: v_def)
  from v(1) have "writing s (v\<lparr>rw_written := x\<rparr>)"
      "writing s (v\<lparr>rw_written := x, rw_cRes := fst (response_Write d (rw_cRes v))\<rparr>)"
      "writing s (v\<lparr>rw_written := x, rw_cRes := fst (response_ZeroCopyWrite d (rw_cRes v))\<rparr>)" for x
    by (auto simp: writing_def response_defs is_data_def Let_def)
  with v show ?thesis unfolding rw_write_def v_def [symmetric] by (auto simp: bodyAllowed_def Let_def)
qed

lemma writing_op:
  assumes "writing s w"
  shows "\<exists>u. rw_op encode op w = Ret u \<and> writing s u"
  using assms writing_write [OF assms, of encode] writing_WriteHeader [OF assms, of encode]
  by (cases op) (fastforce simp: rw_op_def rw_Write_def rw_WriteString_def writing_def)+

lemma writing_ops: "writing s w \<Longrightarrow> \<exists>u. ServeHTTP encode ops w = Ret u \<and> writing s u"
proof (induction ops arbitrary: w)
  case (Cons op ops)
  then show ?case using writing_op [OF Cons.prems, of encode op] by auto
qed simp

text \<open>A panic of an HTTP application is not reported. The deferred \<open>Close\<close> of the wrapper runs
  before the worker's trap, which then finds the response closed: whatever the application did
  before it panicked, the client gets data, perhaps not even a head, and a normal end of stream,
  never the error message the trap prepares.\<close>

theorem http_panic_unreported:
  assumes "UnpackProxyRequest decode parseURL raw = Inr req" and "app req = (ops, Some reason)"
  shows "\<exists>r ds. http_session encode decode parseURL Error app event printStack stack (Inr raw) ctxErr s = Ret r \<and>
    rs_out r = ds @ [newChokeV1 s] \<and> list_all (is_data s) ds"
proof -
  have "writing s (newResponseWriter (newResponse s))"
    by (simp add: writing_def newResponseWriter_def newResponse_def)
  then obtain w where w: "ServeHTTP encode ops (newResponseWriter (newResponse s)) = Ret w" "writing s w"
    using writing_ops by blast
  let ?r = "fst (response_Close (rw_cRes w))"
  have "WrapHandler encode decode parseURL Error app (Inr raw) ctxErr (newResponse s) = Ret (?r, Some reason)"
    by (simp add: WrapHandler_def convertToHTTPFunc_def assms w(1) Let_def)
  moreover have "rs_closed ?r" using rs.close_open w(2) unfolding writing_def by blast
  then have "trapRecoverAndClose response_Close response_ErrorMsg event (Some reason) printStack stack ?r = ?r"
    by (rule rs.trap_after_close)
  ultimately show ?thesis using w(2) by (simp add: http_session_def writing_def response_defs)
qed

theorem http_panic_unreported_witness:
  "\<exists>r ds. http_session (\<lambda>c h. [ucast c]) demo_decode_http (Inr :: string \<Rightarrow> goerr + string) (\<lambda>_. '''')
       (\<lambda>_. ([HWriteHeader 201], Some ''boom'')) ''http'' False [] (Inr None) None 5 = Ret r \<and>
     rs_out r = ds @ [newChokeV1 5] \<and> list_all (is_data 5) ds"
  by (rule http_panic_unreported [OF demo_request, where ops = "[HWriteHeader 201]" and reason = "''boom''"]) simp
end
