(* ===== verification/Proxy.thy ===== *)
theory Proxy
  imports Http Service
begin

text \<open>
  The HTTP proxy (\<open>cocaine12/proxy/proxy.go\<close>): an HTTP request is turned into a call of an
  application, and the stream of its answer back into an HTTP response. The outcomes of what the
  proxy does with the network are the fields of \<open>proxyEnv\<close>, and its response is the list of calls
  it makes on its \<open>http.ResponseWriter\<close>.
\<close>

section \<open>The route\<close>

definition IndexByte :: "string \<Rightarrow> char \<Rightarrow> nat option" where
  "IndexByte s c = (if c \<in> set s then Some (length (takeWhile (\<lambda>x. x \<noteq> c) s)) else None)"

definition slash :: char where "slash = CHR ''/''"

text \<open>Service, event and path of a request from the two headers and the path; None: status 400.\<close>

definition proxy_route :: "string \<Rightarrow> string \<Rightarrow> string \<Rightarrow> (string \<times> string \<times> string) option go" where
  "proxy_route service event path =
     (if service \<noteq> '''' \<and> event \<noteq> '''' then Ret (Some (service, event, path))
      else if path = '''' then Panic SliceBounds
      else
        (let rest = drop 1 path in
         case IndexByte rest slash of
           None \<Rightarrow> Ret None
         | Some npos \<Rightarrow>
             (let service = take npos rest; rest2 = drop (npos + 1) rest in
              case IndexByte rest2 slash of
                None \<Rightarrow> Ret (if service = '''' \<or> rest2 = '''' then None else Some (service, rest2, ''/''))
              | Some n \<Rightarrow>
                  Ret (if n = 0 \<or> service = '''' then None else Some (service, take n rest2, drop n rest2)))))"

section \<open>The request\<close>

definition packRequest :: "(proxyRequest \<Rightarrow> bytes) \<Rightarrow> string \<Rightarrow> string \<Rightarrow> nat \<Rightarrow> nat \<Rightarrow> http_header \<Rightarrow> goerr + slice
    \<Rightarrow> goerr + slice" where
  "packRequest encode meth requestURI major minor header body =
     (case body of
        Inl err \<Rightarrow> Inl err
      | Inr b \<Rightarrow> Inr (Some (encode \<lparr>pr_Method = meth, pr_URI = requestURI,
          pr_Version = decimal major @ ''.'' @ decimal minor, pr_Headers = HeadersHTTPtoCocaine header, pr_Body = b\<rparr>)))"

section \<open>The response\<close>

datatype proxyCall = PAdd string string | PWriteHeader i64 | PWrite slice | PPrint goerr

record getResult =
  gr_res :: serviceRes
  gr_err :: "goerr option"
  gr_closed :: bool \<comment> \<open>\<open>channel.Closed()\<close> after the \<open>Get\<close>\<close>

text \<open>\<open>ExtractTuple(&body)\<close>: what it leaves in \<open>body\<close> and its error.\<close>

type_synonym extractBody = "gval list \<Rightarrow> slice \<Rightarrow> slice \<times> goerr option"

definition proxy_extract :: "extractBody \<Rightarrow> serviceRes \<Rightarrow> slice \<Rightarrow> slice \<times> goerr option" where
  "proxy_extract extract res body =
     (case sr_err res of Some err \<Rightarrow> (body, Some err) | None \<Rightarrow> extract (sr_payload res) body)"

text \<open>The loop \<open>BODY\<close>, over what the successive calls of \<open>Get\<close> return.\<close>

fun proxy_body :: "extractBody \<Rightarrow> slice \<Rightarrow> getResult list \<Rightarrow> proxyCall list" where
  "proxy_body extract body [] = []"
| "proxy_body extract body (g # gs) =
     (if gr_err g \<noteq> None \<or> sr_err (gr_res g) \<noteq> None \<or> gr_closed g then []
      else (let b = fst (proxy_extract extract (gr_res g) body) in PWrite b # proxy_body extract b gs))"

definition StatusInternalServerError :: i64 where "StatusInternalServerError = 500"

definition proxy_answer :: "extractBody \<Rightarrow> (slice \<Rightarrow> goerr + i64 \<times> headers) \<Rightarrow> getResult list \<Rightarrow> proxyCall list" where
  "proxy_answer extract decodeHead gs =
     (case gs of
        [] \<Rightarrow> []
      | g # rest \<Rightarrow>
          (case gr_err g of
             Some err \<Rightarrow> [PWriteHeader StatusInternalServerError, PPrint err]
           | None \<Rightarrow>
               (case proxy_extract extract (gr_res g) None of
                  (_, Some err) \<Rightarrow> [PWriteHeader StatusInternalServerError, PPrint err]
                | (body, None) \<Rightarrow>
                    (case decodeHead body of
                       Inl err \<Rightarrow> [PWriteHeader StatusInternalServerError, PPrint err]
                     | Inr (code, headers) \<Rightarrow>
                         map (\<lambda>(k, v). PAdd k v) headers @ [PWriteHeader code] @ proxy_body extract body rest))))"

record proxyEnv =
  pe_newService :: "goerr option"
  pe_task :: "goerr + slice"
  pe_enqueue :: "goerr option"
  pe_write :: "goerr option"
  pe_gets :: "getResult list"

text \<open>\<open>process\<close>: the calls on the response writer, and the event and task sent, if it comes to that.\<close>

definition process :: "extractBody \<Rightarrow> (slice \<Rightarrow> goerr + i64 \<times> headers) \<Rightarrow> string \<Rightarrow> string \<Rightarrow> string \<Rightarrow> proxyEnv
    \<Rightarrow> (proxyCall list \<times> (string \<times> string \<times> slice) option) go" where
  "process extract decodeHead service event path env =
     go_bind (proxy_route service event path) (\<lambda>route.
       let start = PAdd ''X-Powered-By'' ''Cocaine''; stop = (\<lambda>code. Ret ([start, PWriteHeader code], None)) in
       case route of
         None \<Rightarrow> stop StatusBadRequest
       | Some (service, event, path') \<Rightarrow>
           if pe_newService env \<noteq> None then stop StatusInternalServerError
           else (case pe_task env of
                   Inl err \<Rightarrow> stop StatusBadRequest
                 | Inr task \<Rightarrow>
                     if pe_enqueue env \<noteq> None then stop StatusBadRequest
                     else if pe_write env \<noteq> None then stop StatusInternalServerError
                     else Ret (start # proxy_answer extract decodeHead (pe_gets env), Some (service, event, task))))"

section \<open>What the channel returns\<close>

text \<open>The successive \<open>Get\<close>s of the one reader of a channel, each after its message has arrived.\<close>

fun chan_gets :: "errConvert \<Rightarrow> serviceRes list \<Rightarrow> rx \<Rightarrow> getResult list go" where
  "chan_gets conv [] r = Ret []"
| "chan_gets conv (m # ms) r =
     (case rx_Get conv (rx_push_locked m r) of
        None \<Rightarrow> Ret []
      | Some (Panic p) \<Rightarrow> Panic p
      | Some (Ret (r', Inl err)) \<Rightarrow> Ret []
      | Some (Ret (r', Inr (res, err))) \<Rightarrow>
          go_bind (chan_gets conv ms r') (\<lambda>gs. Ret (\<lparr>gr_res = res, gr_err = err, gr_closed = rx_done r'\<rparr> # gs)))"

text \<open>The upstream of \<open>enqueue\<close>: any number of \<open>write\<close>s, then an \<open>error\<close> or a \<open>close\<close>.\<close>

definition write_stream :: stream where
  "write_stream = Stream [(0, Some (Item ''write'' recursiveDescription)), (1, Some (Item ''error'' emptyDescription)),
     (2, Some (Item ''close'' emptyDescription))]"

definition idle_rx :: "u64 \<Rightarrow> rx \<Rightarrow> bool" where
  "idle_rx i r \<longleftrightarrow> rx_pushBuffer r = None \<and> rx_queue r = [] \<and> \<not> rx_done r \<and> rx_tree r = write_stream"

lemma get_chunk:
  assumes "idle_rx i r"
  shows "\<exists>r'. rx_Get conv (rx_push_locked (res_of_msg (newChunkV1 s d)) r) =
      Some (Ret (r', Inr (res_of_msg (newChunkV1 s d), None))) \<and> idle_rx i r'"
  using assms
  by (simp add: idle_rx_def rx_Get_def rx_push_locked_def rx_refill_def rx_process_def res_of_msg_def v1_messages v1_consts
      write_stream_def recursiveDescription_def)

lemma get_choke:
  assumes "idle_rx i r"
  shows "\<exists>r'. rx_Get conv (rx_push_locked (res_of_msg (newChokeV1 s)) r) =
      Some (Ret (r', Inr (res_of_msg (newChokeV1 s), None))) \<and> rx_done r'"
  using assms
  by (simp add: idle_rx_def rx_Get_def rx_push_locked_def rx_refill_def rx_process_def res_of_msg_def v1_messages v1_consts
      write_stream_def emptyDescription_def)

lemma chan_gets_answer:
  "idle_rx i r \<Longrightarrow> chan_gets conv (map res_of_msg (map (newChunkV1 s) ds @ [newChokeV1 s])) r =
     Ret (map (\<lambda>d. \<lparr>gr_res = res_of_msg (newChunkV1 s d), gr_err = None, gr_closed = False\<rparr>) ds @
       [\<lparr>gr_res = res_of_msg (newChokeV1 s), gr_err = None, gr_closed = True\<rparr>])"
proof (induction ds arbitrary: r)
  case Nil
  then show ?case using get_choke [OF Nil, of conv s] by auto
next
  case (Cons d ds)
  obtain r' where "rx_Get conv (rx_push_locked (res_of_msg (newChunkV1 s d)) r) =
      Some (Ret (r', Inr (res_of_msg (newChunkV1 s d), None)))" "idle_rx i r'"
    using get_chunk [OF Cons.prems] by blast
  with Cons.IH [of r'] show ?case by (simp add: idle_rx_def)
qed

lemma proxy_body_chunks:
  assumes "\<And>d b. extract [GBytes d] b = (d, None)"
  shows "proxy_body extract body
      (map (\<lambda>d. \<lparr>gr_res = res_of_msg (newChunkV1 s d), gr_err = None, gr_closed = False\<rparr>) ds @
        [\<lparr>gr_res = res_of_msg (newChokeV1 s), gr_err = None, gr_closed = True\<rparr>]) = map PWrite ds"
  by (induction ds arbitrary: body) (simp_all add: proxy_extract_def res_of_msg_def newChunkV1_def assms)

section \<open>Properties of routes and requests\<close>

lemma IndexByte_split: "c \<notin> set xs \<Longrightarrow> IndexByte (xs @ c # ys) c = Some (length xs)"
  by (auto simp: IndexByte_def takeWhile_tail intro: arg_cong [where f = length] takeWhile_eq_all_conv [THEN iffD2])

lemma IndexByte_Some:
  assumes "IndexByte s c = Some n"
  obtains xs ys where "s = xs @ c # ys" "c \<notin> set xs" "n = length xs"
proof -
  from assms have "c \<in> set s" by (auto simp: IndexByte_def split: if_splits)
  then obtain xs ys where "s = xs @ c # ys" "c \<notin> set xs" by (auto dest: split_list_first)
  with assms IndexByte_split [of c xs ys] show ?thesis by (auto intro: that)
qed
lemma proxy_route_total:
  "path \<noteq> '''' \<or> service \<noteq> '''' \<and> event \<noteq> '''' \<Longrightarrow> \<exists>r. proxy_route service event path = Ret r"
  by (auto simp: proxy_route_def Let_def split: option.splits)

lemma proxy_route_empty: "service = '''' \<or> event = '''' \<Longrightarrow> proxy_route service event '''' = Panic SliceBounds"
  by (auto simp: proxy_route_def)

text \<open>A request is routed by its path exactly when the path names a service and an event. With
  one of the two headers missing, the route exists if and only if the path is a slash, a non-empty
  service without a slash, a slash, a non-empty event without a slash, and the end or another
  slash; the application then sees the path from there on, or the root.\<close>

theorem proxy_route_iff:
  assumes "service = '''' \<or> event = ''''"
  shows "proxy_route service event (c # path) = Ret (Some (svc, ev, rest)) \<longleftrightarrow>
     svc \<noteq> '''' \<and> slash \<notin> set svc \<and> ev \<noteq> '''' \<and> slash \<notin> set ev \<and>
     (rest = ''/'' \<and> path = svc @ slash # ev \<or> (\<exists>tail. rest = slash # tail) \<and> path = svc @ slash # ev @ rest)"
    (is "?route \<longleftrightarrow> ?spec")
proof -
  show "?route \<longleftrightarrow> ?spec"
  proof
    assume ?route
    then obtain n where "IndexByte path slash = Some n"
      using assms by (auto simp: proxy_route_def Let_def split: option.splits if_splits)
    then obtain xs ys where p: "path = xs @ slash # ys" "slash \<notin> set xs" by (rule IndexByte_Some)
    note at = IndexByte_split [OF p(2)]
    show ?spec
    proof (cases "IndexByte ys slash")
      case None
      then have "slash \<notin> set ys" by (auto simp: IndexByte_def split: if_splits)
      with None \<open>?route\<close> assms p(2) show ?thesis
        unfolding p(1) by (auto simp: proxy_route_def Let_def at split: if_splits)
    next
      case (Some m)
      then obtain us vs where q: "ys = us @ slash # vs" "slash \<notin> set us" "m = length us" by (rule IndexByte_Some)
      from \<open>?route\<close> assms q(2) p(2) Some [unfolded q(1,3)] show ?thesis
        unfolding p(1) q(1) by (auto simp: proxy_route_def Let_def at split: if_splits)
    qed
  next
    assume spec: ?spec
    show ?route
    proof (cases "path = svc @ slash # ev")
      case True
      with spec have "rest = ''/''" by (auto simp: slash_def)
      moreover have "IndexByte ev slash = None" using spec by (simp add: IndexByte_def)
      ultimately show ?thesis using spec assms True by (auto simp: proxy_route_def Let_def IndexByte_split)
    next
      case False
      with spec obtain tail where "path = svc @ slash # ev @ slash # tail" "rest = slash # tail" by auto
      then show ?thesis using spec assms by (auto simp: proxy_route_def Let_def IndexByte_split)
    qed
  qed
qed

text \<open>A request crosses the system unchanged. If the codec decodes what it encoded and the URL
  parses, the application behind the HTTP wrapper sees the method, the headers, the host and the
  address the proxy forwards, and the body, which is marked compressed exactly when it is gzipped
  and not empty.\<close>

theorem proxy_request_roundtrip:
  assumes pack: "packRequest encode meth uri major minor header (Inr body) = Inr task"
    and codec: "decode (Some (encode p)) = Inr p" and url: "parseURL uri = Inr u"
    and p: "p = \<lparr>pr_Method = meth, pr_URI = uri, pr_Version = decimal major @ ''.'' @ decimal minor,
      pr_Headers = HeadersHTTPtoCocaine header, pr_Body = body\<rparr>"
    and "header_ok header" and "meth \<noteq> ''''" and "list_all validHeaderFieldByte meth"
    and "Header_Get ''Content-Encoding'' header \<noteq> ''gzip''"
  shows "UnpackProxyRequest decode parseURL task =
    Inr \<lparr>hr_Method = meth, hr_URL = u, hr_Header = header, hr_Host = Header_Get ''Host'' header,
         hr_RemoteAddr = Header_Get ''X-Real-IP'' header, hr_ContentLength = word_of_nat (length (slice_bytes body)),
         hr_Body = PlainBody (slice_bytes body)\<rparr>"
proof -
  have "HeadersCocaineToHTTP (HeadersHTTPtoCocaine header) = header"
    using headers_fold_back [OF assms(5)] by (simp add: HeadersCocaineToHTTP_def)
  then show ?thesis
    using pack codec assms(6-8) unfolding p
    by (auto simp: packRequest_def UnpackProxyRequest_def NewRequest_def url unpackBody_def Let_def)
qed

definition demo_proxy_request :: proxyRequest where
  "demo_proxy_request = \<lparr>pr_Method = ''PUT'', pr_URI = ''/x'', pr_Version = ''1.1'', pr_Headers = [(''Host'', ''h'')],
     pr_Body = Some [1]\<rparr>"

theorem proxy_request_roundtrip_witness:
  "UnpackProxyRequest (\<lambda>_. Inr demo_proxy_request) (Inr :: string \<Rightarrow> goerr + string) (Some [7]) =
    Inr \<lparr>hr_Method = ''PUT'', hr_URL = ''/x'', hr_Header = [(''Host'', [''h''])], hr_Host = ''h'',
         hr_RemoteAddr = '''', hr_ContentLength = 1, hr_Body = PlainBody [1]\<rparr>"
proof -
  have key: "CanonicalHeaderKey ''Host'' = ''Host''" "CanonicalHeaderKey ''X-Real-IP'' = ''X-Real-Ip''"
      "CanonicalHeaderKey ''Content-Encoding'' = ''Content-Encoding''" by code_simp+
  have p: "demo_proxy_request = \<lparr>pr_Method = ''PUT'', pr_URI = ''/x'', pr_Version = decimal 1 @ ''.'' @ decimal 1,
      pr_Headers = HeadersHTTPtoCocaine [(''Host'', [''h''])], pr_Body = Some [1]\<rparr>"
    by (simp add: demo_proxy_request_def decimal.simps digit_def HeadersHTTPtoCocaine_def) code_simp
  have pack: "packRequest (\<lambda>_. [7]) ''PUT'' ''/x'' 1 1 [(''Host'', [''h''])] (Inr (Some [1])) = Inr (Some [7])"
    by (simp add: packRequest_def)
  have ok: "header_ok [(''Host'', [''h''])]" by (simp add: header_ok_def alist_ok_def key)
  from proxy_request_roundtrip [OF pack _ _ p ok, of "\<lambda>_. Inr demo_proxy_request" Inr "''/x''"] show ?thesis
    by (simp add: Header_Get_def key validHeaderFieldByte_def)
qed

text \<open>What the proxy makes of a head, pieces of a body and a choke.\<close>

lemma proxy_answer_chunks:
  assumes "out = map (newChunkV1 s) (hdr # bs) @ [newChokeV1 s]" and "decodeHead hdr = Inr (code, hs)"
    and "\<And>d b. extract [GBytes d] b = (d, None)"
  shows "\<exists>gs. chan_gets conv (map res_of_msg out) (newRx write_stream i) = Ret gs \<and>
    proxy_answer extract decodeHead gs = map (\<lambda>(k, v). PAdd k v) hs @ [PWriteHeader code] @ map PWrite bs"
proof -
  have "idle_rx i (newRx write_stream i)" by (simp add: idle_rx_def newRx_def)
  from chan_gets_answer [OF this, of conv s "hdr # bs"] assms(1) have
    "chan_gets conv (map res_of_msg out) (newRx write_stream i) =
      Ret (map (\<lambda>d. \<lparr>gr_res = res_of_msg (newChunkV1 s d), gr_err = None, gr_closed = False\<rparr>) (hdr # bs) @
       [\<lparr>gr_res = res_of_msg (newChokeV1 s), gr_err = None, gr_closed = True\<rparr>])" by simp
  moreover have "proxy_extract extract (res_of_msg (newChunkV1 s hdr)) None = (hdr, None)"
    by (simp add: proxy_extract_def res_of_msg_def newChunkV1_def assms(3))
  ultimately show ?thesis
    using proxy_body_chunks [of "extract" hdr s bs, OF assms(3)] by (simp add: proxy_answer_def assms(2) comp_def)
qed

section \<open>Properties\<close>


theorem proxy_route_iff_witness:
  "proxy_route '''' '''' ''/app/ping/x'' = Ret (Some (''app'', ''ping'', ''/x''))"
  using proxy_route_iff [of "''''" "''''" "CHR ''/''" "''app/ping/x''" "''app''" "''ping''" "''/x''"]
  by (simp add: slash_def)

end
