(* ===== verification/EventHandlers.thy ===== *)
theory EventHandlers
  imports Handler
begin

text \<open>
  The table of event handlers (\<open>cocaine12/worker_handlers.go\<close>) and the adapter methods of
  \<open>cocaine12/worker.go\<close> that fill it. Handlers are user code: the model keeps them abstract and
  says which one an event reaches. A nil function stored in the table counts as missing.
\<close>

record ('h, 'f) eventHandlers =
  fallback :: "'f option"
  handlers :: "(string \<times> 'h option) list"

text \<open>What \<open>Call\<close> ends up calling.\<close>

datatype ('h, 'f) callee = CallHandler 'h | CallFallback 'f string

definition NewEventHandlersFromMap :: "'f \<Rightarrow> (string \<times> 'h option) list \<Rightarrow> ('h, 'f) eventHandlers" where
  "NewEventHandlersFromMap DefaultFallbackHandler hs = \<lparr>fallback = Some DefaultFallbackHandler, handlers = hs\<rparr>"

definition NewEventHandlers :: "'f \<Rightarrow> ('h, 'f) eventHandlers" where
  "NewEventHandlers DefaultFallbackHandler = NewEventHandlersFromMap DefaultFallbackHandler []"

definition EventHandlers_On :: "string \<Rightarrow> 'h option \<Rightarrow> ('h, 'f) eventHandlers \<Rightarrow> ('h, 'f) eventHandlers" where
  "EventHandlers_On name handler e = e\<lparr>handlers := (name, handler) # handlers e\<rparr>"

definition SetFallbackHandler :: "'f option \<Rightarrow> ('h, 'f) eventHandlers \<Rightarrow> ('h, 'f) eventHandlers" where
  "SetFallbackHandler handler e = e\<lparr>fallback := handler\<rparr>"

definition EventHandlers_Call :: "('h, 'f) eventHandlers \<Rightarrow> string \<Rightarrow> ('h, 'f) callee go" where
  "EventHandlers_Call e event =
     (case map_of (handlers e) event of
        Some (Some handler) \<Rightarrow> Ret (CallHandler handler)
      | _ \<Rightarrow> (case fallback e of
                 Some f \<Rightarrow> Ret (CallFallback f event)
               | None \<Rightarrow> Panic NilDeref))"

text \<open>The default fallback answers with an error message.\<close>

definition DefaultFallbackHandler_ops :: "string \<Rightarrow> respOp list" where
  "DefaultFallbackHandler_ops event =
     [ErrorMsgOp ErrorNoEventHandler (''There is no handler for an event '' @ event)]"

text \<open>\<open>Worker.Run\<close> binds every entry of the given map, in iteration order, with \<open>On\<close>.\<close>

fun Worker_Run_bind :: "(string \<times> 'h option) list \<Rightarrow> ('h, 'f) eventHandlers \<Rightarrow> ('h, 'f) eventHandlers" where
  "Worker_Run_bind [] e = e"
| "Worker_Run_bind ((event, handler) # hs) e = Worker_Run_bind hs (EventHandlers_On event handler e)"

section \<open>Lemmas\<close>

lemma Worker_Run_bind_handlers:
  "alist_ok hs \<Longrightarrow>
     map_of (handlers (Worker_Run_bind hs e)) = map_of (handlers e) ++ map_of hs"
proof (induction hs e rule: Worker_Run_bind.induct)
  case (2 event handler hs e)
  then have "event \<notin> dom (map_of hs)" by (simp add: alist_ok_def dom_map_of_conv_image_fst)
  with 2 show ?case by (auto simp: EventHandlers_On_def alist_ok_def fun_eq_iff map_add_def split: option.splits)
qed simp

lemma Worker_Run_bind_fallback [simp]: "fallback (Worker_Run_bind hs e) = fallback e"
  by (induction hs e rule: Worker_Run_bind.induct) (simp_all add: EventHandlers_On_def)

section \<open>Properties\<close>

text \<open>Which handler an event reaches. After \<open>Worker.Run\<close> was given a map of handlers, an
  event bound in it goes to that handler, in whatever order the map was iterated; an event
  bound to a nil handler goes to the fallback, even if \<open>On\<close> had bound it before; an event not
  in the map goes where it went before.\<close>

theorem Worker_Run_dispatch:
  assumes "alist_ok hs"
  shows "EventHandlers_Call (Worker_Run_bind hs e) event =
    (case map_of hs event of
       Some (Some handler) \<Rightarrow> Ret (CallHandler handler)
     | Some None \<Rightarrow> EventHandlers_Call (e\<lparr>handlers := []\<rparr>) event
     | None \<Rightarrow> EventHandlers_Call e event)"
  using Worker_Run_bind_handlers [OF assms, of e]
  by (auto simp: EventHandlers_Call_def map_add_def split: option.splits)

theorem Worker_Run_dispatch_witness:
  "EventHandlers_Call (Worker_Run_bind [(''ping'', Some (1::nat)), (''nil'', None)]
     (EventHandlers_On ''old'' (Some 2) (NewEventHandlers CHR ''f''))) ''nil'' =
   Ret (CallFallback CHR ''f'' ''nil'')"
proof -
  have "alist_ok [(''ping'', Some (1::nat)), (''nil'', None)]" by (simp add: alist_ok_def)
  from Worker_Run_dispatch [OF this, of "EventHandlers_On ''old'' (Some 2) (NewEventHandlers CHR ''f'')" "''nil''"]
  show ?thesis
    by (simp add: EventHandlers_Call_def EventHandlers_On_def NewEventHandlers_def NewEventHandlersFromMap_def)
qed

end
