(* ===== verification/Worker.thy ===== *)
theory Worker
  imports EventHandlers
begin

text \<open>
  The worker (\<open>cocaine12/workerng.go\<close>): its event loop, the heartbeat and disown timers, the
  sessions opened by the runtime, and the handler goroutines it starts. Time is counted in
  seconds. The connection is a \<open>socketIO\<close>: the worker sees the messages it accepts (\<open>w_out\<close>),
  its broadcast flag, and that its \<open>Read\<close> channel ends. A goroutine's step, a timer tick, the
  passing of time and a call from another goroutine are events; the scheduler's choices among
  the ready cases of a \<open>select\<close> are part of the event.
\<close>

section \<open>Timers\<close>

text \<open>
  A \<open>time.Timer\<close> with its channel of capacity one. \<open>Stop\<close> and \<open>Reset\<close> change the deadline and
  leave a value already in the channel where it is.
\<close>

record timer =
  tm_deadline :: "nat option"
  tm_fired :: bool

definition timer_off :: timer where "timer_off = \<lparr>tm_deadline = None, tm_fired = False\<rparr>"

definition timer_Reset :: "nat \<Rightarrow> nat \<Rightarrow> timer \<Rightarrow> timer" where
  "timer_Reset now d t = t\<lparr>tm_deadline := Some (now + d)\<rparr>"

definition timer_Stop :: "timer \<Rightarrow> timer" where
  "timer_Stop t = t\<lparr>tm_deadline := None\<rparr>"

definition timer_elapse :: "nat \<Rightarrow> timer \<Rightarrow> timer" where
  "timer_elapse now t =
     (case tm_deadline t of
        None \<Rightarrow> t
      | Some d \<Rightarrow> if d \<le> now then \<lparr>tm_deadline = None, tm_fired = True\<rparr> else t)"

definition heartbeatTimeout :: nat where "heartbeatTimeout = 10"
definition disownTimeout :: nat where "disownTimeout = 5"
definition terminationTimeout :: nat where "terminationTimeout = 5"

lemmas timeouts = heartbeatTimeout_def disownTimeout_def terminationTimeout_def
lemmas timer_defs = timer_off_def timer_Reset_def timer_Stop_def timer_elapse_def

section \<open>State\<close>

text \<open>A goroutine running the user's handler for one session.\<close>

record handlerRun =
  hr_event :: string
  hr_trace :: "traceinfo option"
  hr_response :: response
  hr_done :: bool

datatype workerExit = Returned "goerr option" | Crashed panic

text \<open>
  \<open>w_sessions\<close> holds the keys of the map \<open>sessions\<close>; the request streams themselves live in
  \<open>w_requests\<close>, because a handler keeps reading from its request after the worker has deleted
  the session.
\<close>

record worker =
  w_id :: string
  w_debug :: bool
  w_stackSignalEnabled :: bool
  w_termination :: bool \<comment> \<open>a termination handler is set\<close>
  w_now :: nat
  w_heartbeat :: timer
  w_disown :: timer
  w_proto :: v1Protocol
  w_sessions :: "u64 list"
  w_requests :: "u64 \<Rightarrow> message request"
  w_runs :: "u64 \<Rightarrow> handlerRun option"
  w_stopped :: bool
  w_token_stopped :: bool
  w_conn_closed :: bool
  w_close_called :: bool
  w_out :: "message list"
  w_exit :: "workerExit option"

datatype sendCase = Sent | ConnIsClosed | SendTimeout

section \<open>Operations\<close>

definition elapse :: "nat \<Rightarrow> worker \<Rightarrow> worker" where
  "elapse n w = w\<lparr>w_now := w_now w + n,
     w_heartbeat := timer_elapse (w_now w + n) (w_heartbeat w),
     w_disown := timer_elapse (w_now w + n) (w_disown w)\<rparr>"

text \<open>
  The \<open>select\<close> around \<open>conn.Write() <- msg\<close>: the message is accepted, or the socket is closed,
  or \<open>disownTimeout\<close> passes. None: that case is not ready.
\<close>

definition conn_write :: "sendCase \<Rightarrow> message \<Rightarrow> worker \<Rightarrow> worker option" where
  "conn_write c msg w =
     (case c of
        Sent \<Rightarrow> Some (w\<lparr>w_out := w_out w @ [msg]\<rparr>)
      | ConnIsClosed \<Rightarrow> if w_conn_closed w then Some w else None
      | SendTimeout \<Rightarrow> Some (elapse disownTimeout w))"

definition newWorker0 :: "string \<Rightarrow> bool \<Rightarrow> bool \<Rightarrow> worker" where
  "newWorker0 i debug lost = \<lparr>w_id = i, w_debug = debug, w_stackSignalEnabled = True,
     w_termination = False, w_now = 0,
     w_heartbeat = timer_off, w_disown = timer_off, w_proto = newV1Protocol, w_sessions = [],
     w_requests = (\<lambda>_. newRequest), w_runs = (\<lambda>_. None), w_stopped = False, w_token_stopped = False,
     w_conn_closed = lost, w_close_called = False, w_out = [], w_exit = None\<rparr>"

text \<open>
  \<open>newWorkerNG\<close>: only protocol version 1 is supported; the timers are created and stopped; the
  handshake is sent. \<open>lost\<close>: the connection was lost before that.
\<close>

definition newWorkerNG :: "string \<Rightarrow> i64 \<Rightarrow> bool \<Rightarrow> bool \<Rightarrow> sendCase \<Rightarrow> (goerr + worker) option" where
  "newWorkerNG i protoVersion debug lost c =
     (if protoVersion \<noteq> 1 then Some (Inl (ErrUnsupportedProtocol protoVersion))
      else case conn_write c (newHandshakeV1 i) (newWorker0 i debug lost) of
        None \<Rightarrow> None
      | Some w \<Rightarrow> Some (if c = SendTimeout then Inl ErrHandshakeTimeout else Inr w))"


definition worker_Stop :: "worker \<Rightarrow> worker go" where
  "worker_Stop w =
     (if w_stopped w then Ret w
      else if w_close_called w then Panic CloseOfClosed
      else Ret (w\<lparr>w_token_stopped := True, w_stopped := True, w_close_called := True,
                 w_conn_closed := True\<rparr>))"

definition onDisownTimeout :: "worker \<Rightarrow> worker go" where [simp]: "onDisownTimeout w = worker_Stop w"

definition onHeartbeatTimeout :: "sendCase \<Rightarrow> worker \<Rightarrow> worker option" where
  "onHeartbeatTimeout c w =
     conn_write c newHeartbeatV1
       (w\<lparr>w_disown := timer_Reset (w_now w) disownTimeout (w_disown w),
          w_heartbeat := timer_Reset (w_now w) heartbeatTimeout (w_heartbeat w)\<rparr>)"

text \<open>Outcome of a message handler: it may also block for ever or panic.\<close>

datatype outcome = Continue worker "goerr option" | Block | Crash panic

definition onChoke :: "message \<Rightarrow> worker \<Rightarrow> outcome" where
  "onChoke msg w =
     (if Session msg \<in> set (w_sessions w) then
        (case request_Close (w_requests w (Session msg)) of
           Panic p \<Rightarrow> Crash p
         | Ret r \<Rightarrow> Continue (w\<lparr>w_requests := (w_requests w)(Session msg := r),
                              w_sessions := removeAll (Session msg) (w_sessions w)\<rparr>) None)
      else Continue w None)"

definition push_session :: "message \<Rightarrow> worker \<Rightarrow> outcome" where
  "push_session msg w =
     (if Session msg \<in> set (w_sessions w) then
        (case request_loop (w_requests w (Session msg)) (Push msg) of
           None \<Rightarrow> Block
         | Some r \<Rightarrow> Continue (w\<lparr>w_requests := (w_requests w)(Session msg := r)\<rparr>) None)
      else Continue w None)"

definition onChunk :: "message \<Rightarrow> worker \<Rightarrow> outcome" where "onChunk = push_session"
definition onError :: "message \<Rightarrow> worker \<Rightarrow> outcome" where "onError = push_session"

definition onInvoke :: "message \<Rightarrow> worker \<Rightarrow> outcome" where
  "onInvoke msg w =
     (case getEventName msg of
        Panic p \<Rightarrow> Crash p
      | Ret (event, ok) \<Rightarrow>
          if \<not> ok then Continue w (Some ErrNoEventName)
          else
            let currentSession = Session msg;
                ctx = (case getTraceData (Headers msg) of (ti, err) \<Rightarrow> if err = None then Some ti else None)
            in Continue (w\<lparr>w_sessions := currentSession # removeAll currentSession (w_sessions w),
                 w_requests := (w_requests w)(currentSession := newRequest),
                 w_runs := (w_runs w)(currentSession \<mapsto> \<lparr>hr_event = event, hr_trace = ctx,
                    hr_response = newResponse currentSession, hr_done = False\<rparr>)\<rparr>) None)"

definition onHeartbeat :: "worker \<Rightarrow> worker" where
  "onHeartbeat w = w\<lparr>w_disown := timer_Stop (w_disown w)\<rparr>"

text \<open>
  \<open>onTerminate\<close>: run the termination handler for \<open>spent\<close> seconds, \<open>terminationTimeout\<close> at most;
  reply with the same message; stop.
\<close>

definition onTerminate :: "nat \<Rightarrow> sendCase \<Rightarrow> message \<Rightarrow> worker \<Rightarrow> outcome option" where
  "onTerminate spent c msg w =
     (let w1 = (if w_termination w then elapse (min spent terminationTimeout) w else w) in
      case conn_write c msg w1 of
        None \<Rightarrow> None
      | Some w2 \<Rightarrow> Some (case worker_Stop w2 of Panic p \<Rightarrow> Crash p | Ret w3 \<Rightarrow> Continue w3 None))"

definition worker_onMessage :: "nat \<Rightarrow> sendCase \<Rightarrow> message \<Rightarrow> worker \<Rightarrow> outcome option" where
  "worker_onMessage spent c msg w =
     (case v1_onMessage (w_proto w) msg of (v, r) \<Rightarrow>
        let w' = w\<lparr>w_proto := v\<rparr> in
        case r of
          Inl err \<Rightarrow> Some (Continue w' (Some err))
        | Inr (OnHeartbeat m) \<Rightarrow> Some (Continue (onHeartbeat w') None)
        | Inr (OnTerminate m) \<Rightarrow> onTerminate spent c m w'
        | Inr (OnInvoke m) \<Rightarrow> Some (onInvoke m w')
        | Inr (OnChunk m) \<Rightarrow> Some (onChunk m w')
        | Inr (OnChoke m) \<Rightarrow> Some (onChoke m w')
        | Inr (OnError m) \<Rightarrow> Some (onError m w'))"

section \<open>The loop\<close>

datatype wevent =
    EvMessage nat sendCase message
  | EvReadClosed
  | EvHeartbeatTick sendCase
  | EvDisownTick
  | EvStoppedSeen
  | EvStackSignal
  | EvTime nat
  | EvStopCall
  | EvConnLost
  | EvHandlerOp u64 respOp bool
  | EvHandlerEnd u64 "string option" string bool
  | EvRequest u64 "message rqevent"

text \<open>\<open>isStopped\<close> picks the result when the read channel ends.\<close>

definition exit_on_read_closed :: "worker \<Rightarrow> goerr option" where
  "exit_on_read_closed w = (if w_stopped w then None else Some ErrConnectionLost)"

text \<open>
  What a handler's response sends goes through \<open>conn.Send\<close>, which may drop it once the socket
  is closed.
\<close>

definition set_response :: "u64 \<Rightarrow> handlerRun \<Rightarrow> response \<Rightarrow> bool \<Rightarrow> bool \<Rightarrow> worker \<Rightarrow> worker option" where
  "set_response s h r done dropped w =
     (let new = drop (length (rs_out (hr_response h))) (rs_out r);
          w' = w\<lparr>w_runs := (w_runs w)(s \<mapsto> h\<lparr>hr_response := r, hr_done := done\<rparr>)\<rparr>
      in if dropped then (if w_conn_closed w then Some w' else None)
         else Some (w'\<lparr>w_out := w_out w @ new\<rparr>))"

text \<open>The steps of a request that are not the worker's own calls.\<close>

fun handler_side :: "'m rqevent \<Rightarrow> bool" where
  "handler_side SeeClosed = True"
| "handler_side (Pull m) = True"
| "handler_side _ = False"

fun worker_loop :: "worker \<Rightarrow> wevent \<Rightarrow> worker option" where
  "worker_loop w (EvMessage spent c msg) =
     (if w_exit w \<noteq> None then None
      else case worker_onMessage spent c msg w of
        None \<Rightarrow> None
      | Some Block \<Rightarrow> None
      | Some (Crash p) \<Rightarrow> Some (w\<lparr>w_exit := Some (Crashed p)\<rparr>)
      | Some (Continue w' err) \<Rightarrow> Some w')"
| "worker_loop w EvReadClosed =
     (if w_exit w = None \<and> w_conn_closed w
      then Some (w\<lparr>w_exit := Some (Returned (exit_on_read_closed w))\<rparr>) else None)"
| "worker_loop w (EvHeartbeatTick c) =
     (if w_exit w = None \<and> tm_fired (w_heartbeat w)
      then onHeartbeatTimeout c (w\<lparr>w_heartbeat := (w_heartbeat w)\<lparr>tm_fired := False\<rparr>\<rparr>) else None)"
| "worker_loop w EvDisownTick =
     (if w_exit w = None \<and> tm_fired (w_disown w)
      then (case onDisownTimeout (w\<lparr>w_disown := (w_disown w)\<lparr>tm_fired := False\<rparr>\<rparr>) of
              Panic p \<Rightarrow> Some (w\<lparr>w_exit := Some (Crashed p)\<rparr>)
            | Ret w' \<Rightarrow> Some (w'\<lparr>w_exit := Some (Returned (Some ErrDisowned))\<rparr>))
      else None)"
| "worker_loop w EvStoppedSeen =
     (if w_exit w = None \<and> w_stopped w then Some (w\<lparr>w_exit := Some (Returned None)\<rparr>) else None)"
| "worker_loop w EvStackSignal = (if w_exit w = None \<and> w_stackSignalEnabled w then Some w else None)"
| "worker_loop w (EvTime n) = Some (elapse n w)"
| "worker_loop w EvStopCall = (case worker_Stop w of Ret w' \<Rightarrow> Some w' | Panic p \<Rightarrow> None)"
| "worker_loop w EvConnLost = Some (w\<lparr>w_conn_closed := True\<rparr>)"
| "worker_loop w (EvHandlerOp s op dropped) =
     (case w_runs w s of
        Some h \<Rightarrow> if hr_done h then None
                  else set_response s h (response_op op (hr_response h)) False dropped w
      | None \<Rightarrow> None)"
| "worker_loop w (EvHandlerEnd s recovered stack dropped) =
     (case w_runs w s of
        Some h \<Rightarrow> if hr_done h then None
                  else set_response s h
                    (trapRecoverAndClose response_Close response_ErrorMsg (hr_event h) recovered
                       (w_debug w) stack (hr_response h)) True dropped w
      | None \<Rightarrow> None)"
| "worker_loop w (EvRequest s e) =
     (if handler_side e then
        map_option (\<lambda>r. w\<lparr>w_requests := (w_requests w)(s := r)\<rparr>) (request_loop (w_requests w s) e)
      else None)"

text \<open>The setters, and \<open>Run\<close>: announce readiness with the first heartbeat, then loop.\<close>

definition worker_SetDebug :: "bool \<Rightarrow> worker \<Rightarrow> worker" where
  "worker_SetDebug debug w = w\<lparr>w_debug := debug\<rparr>"

definition worker_EnableStackSignal :: "bool \<Rightarrow> worker \<Rightarrow> worker" where
  "worker_EnableStackSignal enable w = w\<lparr>w_stackSignalEnabled := enable\<rparr>"

definition worker_Run :: "bool \<Rightarrow> sendCase \<Rightarrow> worker \<Rightarrow> worker option" where
  "worker_Run termination c w = onHeartbeatTimeout c (w\<lparr>w_termination := termination\<rparr>)"

text \<open>A program that creates a worker, sets it up and runs it.\<close>

definition worker_started :: "string \<Rightarrow> bool \<Rightarrow> bool \<Rightarrow> bool \<Rightarrow> bool \<Rightarrow> sendCase \<Rightarrow> sendCase \<Rightarrow> worker option" where
  "worker_started i lost debug stackSignal termination c1 c2 =
     (case newWorkerNG i 1 False lost c1 of
        Some (Inr w) \<Rightarrow> worker_Run termination c2 (worker_EnableStackSignal stackSignal (worker_SetDebug debug w))
      | _ \<Rightarrow> None)"

section \<open>Invariants\<close>

subsection \<open>Timers\<close>

text \<open>
  Deadlines lie in the future; the disown timer runs out \<open>disownTimeout\<close> before the next
  heartbeat is due, so when a heartbeat is due the disown timer is no longer running.
\<close>

definition timers_inv :: "worker \<Rightarrow> bool" where
  "timers_inv w \<longleftrightarrow>
     (\<forall>d. tm_deadline (w_disown w) = Some d \<longrightarrow>
        w_now w < d \<and> tm_deadline (w_heartbeat w) = Some (d + disownTimeout)) \<and>
     (\<forall>h. tm_deadline (w_heartbeat w) = Some h \<longrightarrow> w_now w < h) \<and>
     (tm_fired (w_heartbeat w) \<longrightarrow> tm_deadline (w_disown w) = None \<and> tm_deadline (w_heartbeat w) = None)"

lemma timers_inv_elapse: "timers_inv w \<Longrightarrow> timers_inv (elapse n w)"
  by (auto simp: timers_inv_def elapse_def timer_elapse_def timeouts split: option.splits)

lemma timers_inv_conn_write: "conn_write c msg w = Some w' \<Longrightarrow> timers_inv w \<Longrightarrow> timers_inv w'"
  by (cases c) (auto simp: conn_write_def timers_inv_elapse split: if_splits, simp add: timers_inv_def)

lemma timers_inv_frame:
  "w_now v = w_now w \<Longrightarrow> w_heartbeat v = w_heartbeat w \<Longrightarrow> w_disown v = w_disown w \<Longrightarrow>
     timers_inv v = timers_inv w"
  by (simp add: timers_inv_def)

lemma timers_inv_heartbeat:
  assumes "onHeartbeatTimeout c w = Some v" and "\<not> tm_fired (w_heartbeat w)"
  shows "timers_inv v"
  by (rule timers_inv_conn_write [OF assms(1) [unfolded onHeartbeatTimeout_def]])
     (use assms(2) in \<open>auto simp: timers_inv_def timer_Reset_def timeouts\<close>)

text \<open>What a message can do to the timers: a reply stops the disown timer; terminating lets
  time pass.\<close>

lemma worker_Stop_frame:
  "worker_Stop w = Ret v \<Longrightarrow> w_now v = w_now w \<and> w_heartbeat v = w_heartbeat w \<and>
     w_disown v = w_disown w \<and> w_sessions v = w_sessions w \<and> w_requests v = w_requests w \<and>
     w_runs v = w_runs w \<and> w_out v = w_out w \<and> w_proto v = w_proto w \<and> w_exit v = w_exit w \<and>
     w_debug v = w_debug w"
  by (auto simp: worker_Stop_def split: if_splits)

lemma elapse_frame [simp]:
  "w_sessions (elapse n w) = w_sessions w" "w_requests (elapse n w) = w_requests w"
  "w_runs (elapse n w) = w_runs w" "w_out (elapse n w) = w_out w" "w_proto (elapse n w) = w_proto w"
  "w_stopped (elapse n w) = w_stopped w" "w_close_called (elapse n w) = w_close_called w"
  "w_conn_closed (elapse n w) = w_conn_closed w" "w_token_stopped (elapse n w) = w_token_stopped w"
  "w_exit (elapse n w) = w_exit w" "w_debug (elapse n w) = w_debug w"
  "w_termination (elapse n w) = w_termination w"
  by (simp_all add: elapse_def)

lemma conn_write_frame:
  "conn_write c msg w = Some v \<Longrightarrow> w_sessions v = w_sessions w \<and> w_requests v = w_requests w \<and>
     w_runs v = w_runs w \<and> w_proto v = w_proto w \<and> w_stopped v = w_stopped w \<and>
     w_close_called v = w_close_called w \<and> w_conn_closed v = w_conn_closed w \<and>
     w_token_stopped v = w_token_stopped w \<and> w_exit v = w_exit w \<and> w_debug v = w_debug w \<and>
     w_out v = w_out w @ (if c = Sent then [msg] else [])"
  by (auto simp: conn_write_def split: sendCase.splits if_splits)

text \<open>The ways a message is handled.\<close>

lemma worker_onMessage_cases:
  assumes "worker_onMessage spent c msg w = Some r"
  obtains (failed) e where "v1_onMessage (w_proto w) msg = (w_proto w, Inl e)"
      "r = Continue w (Some e)"
  | (heartbeat) "Session msg = v1UtilitySession" "MsgType msg = v1Heartbeat"
      "r = Continue (onHeartbeat w) None"
  | (terminate) "Session msg = v1UtilitySession" "MsgType msg = v1Terminate"
      "onTerminate spent c msg w = Some r"
  | (invoke) "Session msg \<noteq> v1UtilitySession" "maxSession (w_proto w) < Session msg"
      "r = onInvoke msg (w\<lparr>w_proto := (w_proto w)\<lparr>maxSession := Session msg\<rparr>\<rparr>)"
  | (push) "Session msg \<noteq> v1UtilitySession" "Session msg \<le> maxSession (w_proto w)"
      "r = push_session msg w"
  | (choke) "Session msg \<noteq> v1UtilitySession" "Session msg \<le> maxSession (w_proto w)"
      "r = onChoke msg w"
proof -
  obtain v res where m: "v1_onMessage (w_proto w) msg = (v, res)"
    by (cases "v1_onMessage (w_proto w) msg")
  have self: "w\<lparr>w_proto := w_proto w\<rparr> = w" by simp
  from m show ?thesis
  proof (cases rule: v1_onMessage_cases)
    case util
    with m assms self show ?thesis
      by (auto simp: worker_onMessage_def dispatchUtilityMessage_def Let_def split: if_splits
          intro: failed heartbeat terminate)
  next
    case invoke
    with m assms show ?thesis
      by (auto simp: worker_onMessage_def Let_def intro: that(4))
  next
    case other
    show ?thesis
    proof (cases res)
      case (Inl e)
      with other m assms self show ?thesis by (auto simp: worker_onMessage_def intro: failed)
    next
      case (Inr d)
      with other(4) have "d \<in> {OnChunk msg, OnChoke msg, OnError msg}"
        and "Session msg \<le> maxSession (w_proto w)" by simp_all
      with other m assms self Inr show ?thesis
        by (auto simp: worker_onMessage_def Let_def onChunk_def onError_def intro: push choke)
    qed
  qed
qed

lemma onTerminate_Continue:
  assumes "onTerminate spent c msg w = Some (Continue v err)"
  obtains u where "conn_write c msg (if w_termination w then elapse (min spent terminationTimeout) w else w) = Some u"
    "worker_Stop u = Ret v"
  using assms by (auto simp: onTerminate_def Let_def split: option.splits go.splits)

lemma timers_inv_message:
  assumes "worker_onMessage spent c msg w = Some (Continue v err)" and "timers_inv w"
  shows "timers_inv v"
  using assms(1)
proof (cases rule: worker_onMessage_cases)
  case terminate
  then obtain u where u: "conn_write c msg
      (if w_termination w then elapse (min spent terminationTimeout) w else w) = Some u"
    and v: "worker_Stop u = Ret v"
    by (auto elim: onTerminate_Continue)
  have "timers_inv u"
    by (rule timers_inv_conn_write [OF u]) (simp add: assms(2) timers_inv_elapse)
  with worker_Stop_frame [OF v] show ?thesis by (simp cong: timers_inv_frame)
next
  case heartbeat
  with assms(2) show ?thesis by (auto simp: timers_inv_def onHeartbeat_def timer_Stop_def)
qed (use assms(2) in \<open>auto simp: timers_inv_def onInvoke_def push_session_def onChoke_def Let_def
      split: go.splits if_splits option.splits\<close>)

lemma timers_inv_step:
  assumes "worker_loop w e = Some v" and "timers_inv w"
  shows "timers_inv v"
proof (cases e)
  case (EvMessage spent c msg)
  then show ?thesis
    using assms timers_inv_message
    by (auto split: option.splits outcome.splits if_splits) (simp add: timers_inv_def)
next
  case (EvHeartbeatTick c)
  then show ?thesis
    using assms timers_inv_heartbeat by (auto split: if_splits)
next
  case EvDisownTick
  with assms show ?thesis
    by (auto simp: timers_inv_def worker_Stop_def split: if_splits go.splits)
next
  case EvStopCall
  with assms show ?thesis
    by (auto dest: worker_Stop_frame split: go.splits simp: timers_inv_def)
next
  case (EvTime n)
  with assms timers_inv_elapse show ?thesis by auto
qed (use assms in \<open>auto simp: timers_inv_def set_response_def Let_def split: option.splits if_splits\<close>)

subsection \<open>Stopping\<close>

definition stop_inv :: "worker \<Rightarrow> bool" where
  "stop_inv w \<longleftrightarrow> w_close_called w = w_stopped w \<and> w_token_stopped w = w_stopped w \<and>
     (w_stopped w \<longrightarrow> w_conn_closed w) \<and> (w_exit w = Some (Returned (Some ErrDisowned)) \<longrightarrow> w_stopped w)"

lemma worker_Stop_total:
  "stop_inv w \<Longrightarrow> \<exists>v. worker_Stop w = Ret v \<and> stop_inv v \<and> w_stopped v"
  by (auto simp: worker_Stop_def stop_inv_def)

lemma stop_inv_frame:
  "w_stopped v = w_stopped w \<Longrightarrow> w_close_called v = w_close_called w \<Longrightarrow>
   w_token_stopped v = w_token_stopped w \<Longrightarrow> w_conn_closed v = w_conn_closed w \<Longrightarrow>
   w_exit v = w_exit w \<Longrightarrow> stop_inv v = stop_inv w"
  by (simp add: stop_inv_def)

lemma stop_inv_conn_write: "conn_write c msg w = Some v \<Longrightarrow> stop_inv v = stop_inv w"
  by (rule stop_inv_frame) (auto dest: conn_write_frame)

lemma onTerminate_stops:
  assumes "onTerminate spent c msg w = Some r" and "stop_inv w"
  shows "\<exists>v. r = Continue v None \<and> stop_inv v \<and> w_stopped v"
proof -
  let ?w = "if w_termination w then elapse (min spent terminationTimeout) w else w"
  obtain u where u: "conn_write c msg ?w = Some u"
    and r: "r = (case worker_Stop u of Panic p \<Rightarrow> Crash p | Ret w3 \<Rightarrow> Continue w3 None)"
    using assms(1) by (auto simp: onTerminate_def Let_def split: option.splits)
  have "stop_inv ?w" using assms(2) by (simp add: stop_inv_def)
  then have "stop_inv u" using stop_inv_conn_write [OF u] by simp
  from worker_Stop_total [OF this] r show ?thesis by auto
qed

lemma stop_inv_message:
  assumes "worker_onMessage spent c msg w = Some (Continue v err)" and "stop_inv w"
  shows "stop_inv v"
  using assms(1)
proof (cases rule: worker_onMessage_cases)
  case terminate
  with onTerminate_stops [OF terminate(3) assms(2)] show ?thesis by auto
qed (use assms(2) in \<open>auto simp: stop_inv_def onHeartbeat_def onInvoke_def push_session_def onChoke_def
      Let_def split: go.splits if_splits option.splits\<close>)

lemma stop_inv_step:
  assumes "worker_loop w e = Some v" and "stop_inv w"
  shows "stop_inv v"
proof (cases e)
  case (EvMessage spent c msg)
  then show ?thesis
    using assms stop_inv_message
    by (auto split: option.splits outcome.splits if_splits) (simp add: stop_inv_def)
next
  case (EvHeartbeatTick c)
  with assms have "stop_inv v = stop_inv w"
    by (auto simp: onHeartbeatTimeout_def stop_inv_conn_write split: if_splits) (simp_all add: stop_inv_def)
  with assms show ?thesis by simp
next
  case EvReadClosed
  with assms show ?thesis by (auto simp: stop_inv_def exit_on_read_closed_def split: if_splits)
qed (use assms in \<open>auto simp: stop_inv_def set_response_def worker_Stop_def Let_def
      split: option.splits if_splits go.splits\<close>)

subsection \<open>Live sessions\<close>

text \<open>A session in the worker's map has a request that is open and whose loop is running.\<close>

definition live_inv :: "worker \<Rightarrow> bool" where
  "live_inv w \<longleftrightarrow> (\<forall>s \<in> set (w_sessions w).
     \<not> rq_closed (w_requests w s) \<and> \<not> rq_closed_nil (w_requests w s) \<and> \<not> rq_returned (w_requests w s))"

lemma live_inv_frame:
  "w_sessions v = w_sessions w \<Longrightarrow> w_requests v = w_requests w \<Longrightarrow> live_inv v = live_inv w"
  by (simp add: live_inv_def)

lemma push_session_accepted:
  "live_inv w \<Longrightarrow> \<exists>v. push_session msg w = Continue v None \<and> live_inv v"
  by (auto simp: push_session_def live_inv_def request_loop_def)

lemma onChoke_accepted:
  "live_inv w \<Longrightarrow> \<exists>v. onChoke msg w = Continue v None \<and> live_inv v"
  by (auto simp: onChoke_def live_inv_def request_Close_def)

lemma live_inv_invoke: "live_inv w \<Longrightarrow> onInvoke msg w = Continue v err \<Longrightarrow> live_inv v"
  by (auto simp: onInvoke_def live_inv_def newRequest_def Let_def split: go.splits prod.splits if_splits)

lemma live_inv_message:
  assumes "worker_onMessage spent c msg w = Some (Continue v err)" and "live_inv w"
  shows "live_inv v"
  using assms(1)
proof (cases rule: worker_onMessage_cases)
  case terminate
  then obtain u where u: "conn_write c msg
      (if w_termination w then elapse (min spent terminationTimeout) w else w) = Some u"
    and v: "worker_Stop u = Ret v"
    by (auto elim: onTerminate_Continue)
  from conn_write_frame [OF u] worker_Stop_frame [OF v] assms(2) show ?thesis
    by (simp add: live_inv_def split: if_splits)
next
  case invoke
  have "live_inv (w\<lparr>w_proto := (w_proto w)\<lparr>maxSession := Session msg\<rparr>\<rparr>)"
    using assms(2) by (simp add: live_inv_def)
  with invoke live_inv_invoke show ?thesis by metis
next
  case push
  with push_session_accepted [OF assms(2), of msg] show ?thesis by auto
next
  case choke
  with onChoke_accepted [OF assms(2), of msg] show ?thesis by auto
qed (use assms(2) in \<open>auto simp: live_inv_def onHeartbeat_def\<close>)

lemma live_inv_request:
  "live_inv w \<Longrightarrow> request_loop (w_requests w s) e = Some r \<Longrightarrow> handler_side e \<Longrightarrow>
     live_inv (w\<lparr>w_requests := (w_requests w)(s := r)\<rparr>)"
  by (cases e) (auto simp: live_inv_def loop_simps split: if_splits list.splits)

lemma live_inv_step:
  assumes "worker_loop w e = Some v" and "live_inv w"
  shows "live_inv v"
proof (cases e)
  case (EvMessage spent c msg)
  then show ?thesis
    using assms live_inv_message
    by (auto split: option.splits outcome.splits if_splits) (simp add: live_inv_def)
next
  case (EvHeartbeatTick c)
  with assms show ?thesis
    by (auto simp: onHeartbeatTimeout_def live_inv_def dest: conn_write_frame split: if_splits)
next
  case (EvRequest s e)
  with assms live_inv_request show ?thesis by (auto split: if_splits)
qed (use assms in \<open>auto simp: live_inv_def set_response_def worker_Stop_def Let_def
      split: option.splits if_splits go.splits\<close>)

subsection \<open>Answers\<close>

definition session_out :: "u64 \<Rightarrow> worker \<Rightarrow> message list" where
  "session_out s w = filter (\<lambda>m. Session m = s) (w_out w)"

definition run_out :: "u64 \<Rightarrow> worker \<Rightarrow> message list" where
  "run_out s w = (case w_runs w s of None \<Rightarrow> [] | Some h \<Rightarrow> rs_out (hr_response h))"

definition run_ok :: "u64 \<Rightarrow> u64 \<Rightarrow> handlerRun \<Rightarrow> bool" where
  "run_ok mx s h \<longleftrightarrow> s \<noteq> v1UtilitySession \<and> s \<le> mx \<and> rs_session (hr_response h) = s \<and>
     response_inv (hr_response h) \<and> (hr_done h \<longrightarrow> rs_closed (hr_response h))"

text \<open>
  Every handler's response keeps the discipline of \<open>response_inv\<close>, and what the worker has sent
  for a session is what its response produced, except for messages dropped after the
  connection was closed.
\<close>

definition runs_inv :: "worker \<Rightarrow> bool" where
  "runs_inv w \<longleftrightarrow>
     (\<forall>s h. w_runs w s = Some h \<longrightarrow> run_ok (maxSession (w_proto w)) s h) \<and>
     (\<forall>s. s \<noteq> v1UtilitySession \<longrightarrow> subseq (session_out s w) (run_out s w) \<and>
        (\<not> w_conn_closed w \<longrightarrow> session_out s w = run_out s w))"

lemma runs_inv_frame:
  assumes "w_runs v = w_runs w" and "w_proto v = w_proto w"
    and "w_conn_closed w \<longrightarrow> w_conn_closed v"
    and "\<And>s. s \<noteq> v1UtilitySession \<Longrightarrow> session_out s v = session_out s w" and "runs_inv w"
  shows "runs_inv v"
  using assms by (auto simp: runs_inv_def run_out_def)

lemma session_out_utility:
  "Session m = v1UtilitySession \<Longrightarrow> s \<noteq> v1UtilitySession \<Longrightarrow>
     filter (\<lambda>m. Session m = s) (out @ (if b then [m] else [])) = filter (\<lambda>m. Session m = s) out"
  by simp

lemma runs_inv_conn_write:
  assumes "conn_write c msg w = Some v" and "Session msg = v1UtilitySession" and "runs_inv w"
  shows "runs_inv v"
  by (rule runs_inv_frame [where w = w])
     (use conn_write_frame [OF assms(1)] assms(2,3) in
       \<open>simp_all add: session_out_def session_out_utility\<close>)

text \<open>A call on a response only appends, and only messages of its own session.\<close>

lemma response_op_extends: "\<exists>new. rs_out (response_op op r) = rs_out r @ new"
  by (cases op) (auto simp: response_defs Let_def split: prod.splits)

lemma trap_extends:
  "\<exists>new. rs_out (trapRecoverAndClose response_Close response_ErrorMsg event recovered b stack r)
     = rs_out r @ new"
  by (auto simp: trapRecoverAndClose_def response_defs split: option.splits)

lemma data_session: "is_data s m \<Longrightarrow> Session m = s"
  by (auto simp: is_data_def v1_messages)

lemma final_session: "is_final s m \<Longrightarrow> Session m = s"
  by (auto simp: is_final_def v1_messages)

lemma answer_ok_session: "answer_ok s c out \<Longrightarrow> m \<in> set out \<Longrightarrow> Session m = s"
  by (auto simp: answer_ok_def list_all_iff data_session final_session split: if_splits)

lemma response_inv_session: "response_inv r \<Longrightarrow> m \<in> set (rs_out r) \<Longrightarrow> Session m = rs_session r"
  unfolding response_inv_def by (rule answer_ok_session)

lemma filter_own_session:
  "(\<And>m. m \<in> set ms \<Longrightarrow> Session m = t) \<Longrightarrow>
     filter (\<lambda>m. Session m = s) ms = (if s = t then ms else [])"
  by (auto simp: filter_id_conv filter_empty_conv)

lemma runs_inv_set_response:
  assumes "set_response s h r don dropped w = Some v" and "w_runs w s = Some h" and "runs_inv w"
    and "rs_session r = rs_session (hr_response h)" and "response_inv r"
    and "rs_out r = rs_out (hr_response h) @ new" and "don \<longrightarrow> rs_closed r"
  shows "runs_inv v"
proof -
  have h: "run_ok (maxSession (w_proto w)) s h" using assms(2,3) by (simp add: runs_inv_def)
  have own: "filter (\<lambda>m. Session m = t) new = (if t = s then new else [])" for t
    by (rule filter_own_session) (use response_inv_session [OF assms(5)] assms(4,6) h in
      \<open>auto simp: run_ok_def\<close>)
  have v: "w_runs v = (w_runs w)(s \<mapsto> h\<lparr>hr_response := r, hr_done := don\<rparr>)" "w_proto v = w_proto w"
      "w_conn_closed v = w_conn_closed w" "dropped \<Longrightarrow> w_conn_closed w"
      "w_out v = w_out w @ (if dropped then [] else new)"
    using assms(1,6) by (auto simp: set_response_def Let_def split: if_splits)
  have run: "run_out t v = run_out t w @ (if t = s then new else [])" for t
    using v(1) assms(2,6) by (simp add: run_out_def)
  have out: "session_out t v = session_out t w @ (if dropped then [] else if t = s then new else [])" for t
    using v(5) own [of t] by (simp add: session_out_def)
  have old: "subseq (session_out t w) (run_out t w)"
      "\<not> w_conn_closed w \<Longrightarrow> session_out t w = run_out t w" if "t \<noteq> v1UtilitySession" for t
    using assms(3) that by (auto simp: runs_inv_def)
  have "subseq (session_out t v) (run_out t v)" if "t \<noteq> v1UtilitySession" for t
    using old(1) [OF that] by (auto simp: run out intro: list_emb_append_mono subseq_drop_many)
  moreover have "session_out t v = run_out t v" if "t \<noteq> v1UtilitySession" "\<not> w_conn_closed v" for t
    using old(2) [OF that(1)] that v(3,4) by (auto simp: run out)
  moreover have "run_ok (maxSession (w_proto v)) t g" if "w_runs v t = Some g" for t g
    using that v assms(3,4,5,7) h by (auto simp: runs_inv_def run_ok_def split: if_splits)
  ultimately show ?thesis by (simp add: runs_inv_def)
qed

lemma onInvoke_runs:
  assumes "onInvoke msg w = Continue v err"
  shows "w_out v = w_out w \<and> w_conn_closed v = w_conn_closed w \<and> w_proto v = w_proto w \<and>
    (w_runs v = w_runs w \<or> (\<exists>e c. w_runs v = (w_runs w)(Session msg \<mapsto>
       \<lparr>hr_event = e, hr_trace = c, hr_response = newResponse (Session msg), hr_done = False\<rparr>)))"
proof -
  obtain e b where "getEventName msg = Ret (e, b)"
    using assms by (auto simp: onInvoke_def split: go.splits)
  moreover define c where
    "c = (case getTraceData (Headers msg) of (ti, err) \<Rightarrow> if err = None then Some ti else None)"
  ultimately show ?thesis using assms
    by (cases b) (auto simp: onInvoke_def Let_def simp flip: c_def, blast)
qed

lemma runs_inv_invoke:
  assumes "onInvoke msg (w\<lparr>w_proto := (w_proto w)\<lparr>maxSession := Session msg\<rparr>\<rparr>) = Continue v err"
    and "maxSession (w_proto w) < Session msg" and "Session msg \<noteq> v1UtilitySession" and "runs_inv w"
  shows "runs_inv v"
proof -
  have none: "w_runs w (Session msg) = None"
  proof (rule ccontr)
    assume "w_runs w (Session msg) \<noteq> None"
    then have "Session msg \<le> maxSession (w_proto w)" using assms(4) by (auto simp: runs_inv_def run_ok_def)
    with assms(2) show False by simp
  qed
  have old: "run_ok (Session msg) s h" if "w_runs w s = Some h" for s h
    using assms(2,4) that by (fastforce simp: runs_inv_def run_ok_def)
  have v: "w_out v = w_out w" "w_conn_closed v = w_conn_closed w" "maxSession (w_proto v) = Session msg"
      "w_runs v = w_runs w \<or> (\<exists>e c. w_runs v = (w_runs w)(Session msg \<mapsto>
         \<lparr>hr_event = e, hr_trace = c, hr_response = newResponse (Session msg), hr_done = False\<rparr>))"
    using onInvoke_runs [OF assms(1)] by simp_all
  have new: "response_inv (newResponse s)" "rs_session (newResponse s) = s" "rs_out (newResponse s) = []" for s
    by simp (simp_all add: newResponse_def)
  have out: "run_out s v = run_out s w" for s
    using v(4) none new(3) by (auto simp: run_out_def)
  have "run_ok (maxSession (w_proto v)) s h" if "w_runs v s = Some h" for s h
    using v(4)
  proof
    assume "w_runs v = w_runs w"
    with that old v(3) show ?thesis by simp
  next
    assume "\<exists>e c. w_runs v = (w_runs w)(Session msg \<mapsto>
         \<lparr>hr_event = e, hr_trace = c, hr_response = newResponse (Session msg), hr_done = False\<rparr>)"
    with that old [of s h] v(3) new assms(3) show ?thesis
      by (cases "s = Session msg") (auto simp: run_ok_def)
  qed
  with out v assms(4) show ?thesis by (auto simp: runs_inv_def session_out_def)
qed

lemma runs_inv_message:
  assumes "worker_onMessage spent c msg w = Some (Continue v err)" and "runs_inv w"
  shows "runs_inv v"
  using assms(1)
proof (cases rule: worker_onMessage_cases)
  case terminate
  then obtain u where u: "conn_write c msg
      (if w_termination w then elapse (min spent terminationTimeout) w else w) = Some u"
    and v: "worker_Stop u = Ret v"
    by (auto elim: onTerminate_Continue)
  have "runs_inv u"
    by (rule runs_inv_conn_write [OF u terminate(1)])
       (auto intro: assms(2) runs_inv_frame [OF _ _ _ _ assms(2)] simp: session_out_def)
  then show ?thesis
    by (rule runs_inv_frame [rotated -1])
       (use v worker_Stop_frame [OF v] in \<open>auto simp: session_out_def worker_Stop_def split: if_splits\<close>)
next
  case invoke
  with runs_inv_invoke assms(2) show ?thesis by metis
qed (use assms(2) in \<open>auto simp: session_out_def onHeartbeat_def push_session_def onChoke_def
      split: go.splits if_splits option.splits intro: runs_inv_frame [OF _ _ _ _ assms(2)]\<close>)

lemma runs_inv_response:
  assumes "set_response s h r don dropped w = Some v" and "w_runs w s = Some h" and "runs_inv w"
    and "r = response_op op (hr_response h) \<and> \<not> don \<or>
         r = trapRecoverAndClose response_Close response_ErrorMsg event recovered b stack (hr_response h)"
  shows "runs_inv v"
proof -
  have inv: "response_inv (hr_response h)" using assms(2,3) by (simp add: runs_inv_def run_ok_def)
  obtain new where "rs_out r = rs_out (hr_response h) @ new"
    using assms(4) response_op_extends trap_extends by metis
  then show ?thesis
    by (rule runs_inv_set_response [OF assms(1-3) _ _ , rotated 2])
       (use assms(4) inv in \<open>auto simp: response_inv_op trap_response_inv rs.trap_closes\<close>)
qed

lemma runs_inv_step:
  assumes "worker_loop w e = Some v" and "runs_inv w"
  shows "runs_inv v"
proof (cases e)
  case (EvMessage spent c msg)
  then show ?thesis
    using assms runs_inv_message
    by (auto split: option.splits outcome.splits if_splits
        intro: runs_inv_frame [OF _ _ _ _ assms(2)] simp: session_out_def)
next
  case (EvHeartbeatTick c)
  with assms obtain u where "conn_write c newHeartbeatV1 u = Some v" "w_runs u = w_runs w"
      "w_proto u = w_proto w" "w_conn_closed u = w_conn_closed w" "w_out u = w_out w"
    by (auto simp: onHeartbeatTimeout_def split: if_splits)
  moreover from this have "runs_inv u"
    by (auto intro: runs_inv_frame [OF _ _ _ _ assms(2)] simp: session_out_def)
  ultimately show ?thesis by (auto intro: runs_inv_conn_write simp: v1_messages(2))
next
  case (EvHandlerOp s op dropped)
  with assms obtain h where "w_runs w s = Some h"
    "set_response s h (response_op op (hr_response h)) False dropped w = Some v"
    by (auto split: option.splits if_splits)
  with assms(2) show ?thesis by (auto intro: runs_inv_response)
next
  case (EvHandlerEnd s recovered stack dropped)
  with assms obtain h where "w_runs w s = Some h"
    "set_response s h (trapRecoverAndClose response_Close response_ErrorMsg (hr_event h) recovered
        (w_debug w) stack (hr_response h)) True dropped w = Some v"
    by (auto split: option.splits if_splits)
  with assms(2) show ?thesis by (auto intro: runs_inv_response)
qed (use assms in \<open>auto simp: worker_Stop_def session_out_def split: if_splits go.splits
      intro: runs_inv_frame [OF _ _ _ _ assms(2)]\<close>)

section \<open>Reachable states\<close>

definition worker_inv :: "worker \<Rightarrow> bool" where
  "worker_inv w \<longleftrightarrow> timers_inv w \<and> stop_inv w \<and> live_inv w \<and> runs_inv w"

lemma worker_inv_started:
  assumes "worker_started i lost debug stackSignal termination c1 c2 = Some w"
  shows "worker_inv w"
proof -
  let ?u = "newWorker0 i False lost"
  obtain u where u: "conn_write c1 (newHandshakeV1 i) ?u = Some u" "c1 \<noteq> SendTimeout"
    and w: "onHeartbeatTimeout c2 (u\<lparr>w_debug := debug, w_stackSignalEnabled := stackSignal,
      w_termination := termination\<rparr>) = Some w"
    using assms by (auto simp: worker_started_def newWorkerNG_def worker_Run_def worker_SetDebug_def
        worker_EnableStackSignal_def split: option.splits if_splits)
  have fired: "\<not> tm_fired (w_heartbeat u)"
    using u by (cases c1) (auto simp: conn_write_def newWorker0_def timer_off_def split: if_splits)
  have stop: "stop_inv ?u" and live: "live_inv ?u" and runs: "runs_inv ?u"
    by (simp_all add: newWorker0_def stop_inv_def live_inv_def runs_inv_def session_out_def run_out_def)
  have stop_u: "stop_inv u" using stop_inv_conn_write [OF u(1)] stop by simp
  have live_u: "live_inv u"
    using conn_write_frame [OF u(1)] live by (simp add: live_inv_def)
  have runs_u: "runs_inv u"
    by (rule runs_inv_conn_write [OF u(1) _ runs]) (simp add: v1_messages)
  have "stop_inv w"
    using w stop_u by (auto simp: onHeartbeatTimeout_def stop_inv_conn_write) (simp_all add: stop_inv_def)
  moreover have "live_inv w"
    using w live_u by (auto simp: onHeartbeatTimeout_def live_inv_def dest!: conn_write_frame)
  moreover have "runs_inv w"
    by (rule runs_inv_conn_write [OF w [unfolded onHeartbeatTimeout_def]])
       (auto simp: v1_messages session_out_def intro: runs_inv_frame [OF _ _ _ _ runs_u])
  ultimately show ?thesis
    using timers_inv_heartbeat [OF w] fired by (simp add: worker_inv_def)
qed

lemma worker_inv_step: "worker_inv w \<Longrightarrow> worker_loop w e = Some v \<Longrightarrow> worker_inv v"
  by (auto simp: worker_inv_def intro: timers_inv_step stop_inv_step live_inv_step runs_inv_step)

lemma worker_inv_timers: "worker_inv w \<Longrightarrow> timers_inv w"
  by (simp add: worker_inv_def)

lemma worker_inv_run:
  "worker_started i lost debug stackSignal termination c1 c2 = Some w0 \<Longrightarrow> run worker_loop w0 es = Some w \<Longrightarrow> worker_inv w"
  using run_invariant [of worker_inv worker_loop w0 es w] worker_inv_step worker_inv_started by blast

subsection \<open>What a running worker does with a message\<close>

definition opens_without_event :: "worker \<Rightarrow> message \<Rightarrow> bool" where
  "opens_without_event w msg \<longleftrightarrow> Session msg \<noteq> v1UtilitySession \<and>
     maxSession (w_proto w) < Session msg \<and> MsgType msg = v1Invoke \<and> Payload msg = []"

lemma getEventName_panic: "getEventName msg = Panic p \<longleftrightarrow> Payload msg = [] \<and> p = IndexOutOfRange"
  by (auto simp: getEventName_def split: list.splits gval.splits)

lemma onInvoke_no_block: "onInvoke msg w \<noteq> Block"
  by (auto simp: onInvoke_def Let_def split: go.splits)

lemma onInvoke_crash: "onInvoke msg w = Crash p \<longleftrightarrow> Payload msg = [] \<and> p = IndexOutOfRange"
  by (cases "Payload msg = []") (auto simp: onInvoke_def Let_def getEventName_panic split: go.splits,
      simp_all add: getEventName_def)

lemma worker_onMessage_sent: "\<exists>r. worker_onMessage spent Sent msg w = Some r"
  by (auto simp: worker_onMessage_def onTerminate_def conn_write_def Let_def
      split: prod.splits sum.splits handlerCall.splits)

lemma worker_onMessage_exit:
  assumes "worker_onMessage spent c msg w = Some (Continue v err)"
  shows "w_exit v = w_exit w"
  using assms
proof (cases rule: worker_onMessage_cases)
  case terminate
  then obtain u where "conn_write c msg
      (if w_termination w then elapse (min spent terminationTimeout) w else w) = Some u"
    and "worker_Stop u = Ret v"
    by (auto elim: onTerminate_Continue)
  from conn_write_frame [OF this(1)] worker_Stop_frame [OF this(2)] show ?thesis by auto
qed (auto simp: onHeartbeat_def onInvoke_def push_session_def onChoke_def Let_def
    split: go.splits if_splits option.splits)

lemma worker_onMessage_outcome:
  assumes "worker_onMessage spent c msg w = Some r" and "worker_inv w"
  shows "if opens_without_event w msg then r = Crash IndexOutOfRange else \<exists>v err. r = Continue v err"
  using assms(1)
proof (cases rule: worker_onMessage_cases)
  case failed
  then show ?thesis
    by (auto simp: opens_without_event_def v1_onMessage_def)
next
  case terminate
  with assms(2) onTerminate_stops [OF terminate(3)] show ?thesis
    by (auto simp: worker_inv_def opens_without_event_def)
next
  case invoke
  then have "MsgType msg = v1Invoke"
    using assms(1) by (auto simp: worker_onMessage_def v1_onMessage_def onInvoke_def Let_def
        split: if_splits go.splits)
  with invoke show ?thesis
    by (cases r) (auto simp: opens_without_event_def onInvoke_no_block dest: sym [of _ "onInvoke _ _"]
        iff: onInvoke_crash)
next
  case push
  with assms(2) push_session_accepted [of w msg] show ?thesis
    by (auto simp: worker_inv_def opens_without_event_def)
next
  case choke
  with assms(2) onChoke_accepted [of w msg] show ?thesis
    by (auto simp: worker_inv_def opens_without_event_def)
qed (auto simp: opens_without_event_def)

subsection \<open>The disown timer\<close>

text \<open>An event in which the worker handles the runtime's heartbeat reply.\<close>

fun is_reply :: "wevent \<Rightarrow> bool" where
  "is_reply (EvMessage spent c msg) \<longleftrightarrow> Session msg = v1UtilitySession \<and> MsgType msg = v1Heartbeat"
| "is_reply _ = False"

fun is_heartbeat_tick :: "wevent \<Rightarrow> bool" where
  "is_heartbeat_tick (EvHeartbeatTick c) = True"
| "is_heartbeat_tick _ = False"

definition disown_pending :: "nat \<Rightarrow> worker \<Rightarrow> bool" where
  "disown_pending d w \<longleftrightarrow> w_exit w \<noteq> None \<or> tm_fired (w_disown w) \<or> tm_deadline (w_disown w) = Some d"

definition disown_quiet :: "worker \<Rightarrow> bool" where
  "disown_quiet w \<longleftrightarrow> \<not> tm_fired (w_disown w) \<and> tm_deadline (w_disown w) = None"

lemma disown_pending_elapse: "disown_pending d w \<Longrightarrow> disown_pending d (elapse n w)"
  by (auto simp: disown_pending_def elapse_def timer_elapse_def split: option.splits)

lemma disown_quiet_elapse: "disown_quiet w \<Longrightarrow> disown_quiet (elapse n w)"
  by (auto simp: disown_quiet_def elapse_def timer_elapse_def)

lemma disown_conn_write:
  "conn_write c msg w = Some v \<Longrightarrow> disown_pending d w \<Longrightarrow> disown_pending d v"
  "conn_write c msg w = Some v \<Longrightarrow> disown_quiet w \<Longrightarrow> disown_quiet v"
  by (auto simp: conn_write_def disown_pending_elapse disown_quiet_elapse
      split: sendCase.splits if_splits) (simp_all add: disown_pending_def disown_quiet_def)

lemma disown_onTerminate:
  assumes "onTerminate spent c msg w = Some (Continue v err)"
  shows "disown_pending d w \<Longrightarrow> disown_pending d v" and "disown_quiet w \<Longrightarrow> disown_quiet v"
proof -
  obtain u where u: "conn_write c msg
      (if w_termination w then elapse (min spent terminationTimeout) w else w) = Some u"
    and v: "worker_Stop u = Ret v"
    using assms by (elim onTerminate_Continue)
  note disown_conn_write [OF u]
  moreover have "disown_pending d v = disown_pending d u" "disown_quiet v = disown_quiet u"
    using worker_Stop_frame [OF v] by (simp_all add: disown_pending_def disown_quiet_def)
  ultimately show "disown_pending d w \<Longrightarrow> disown_pending d v" "disown_quiet w \<Longrightarrow> disown_quiet v"
    by (auto simp: disown_pending_elapse disown_quiet_elapse split: if_splits)
qed

lemma disown_message:
  assumes "worker_onMessage spent c msg w = Some (Continue v err)"
  shows "(\<not> is_reply (EvMessage spent c msg) \<longrightarrow> disown_pending d w \<longrightarrow> disown_pending d v) \<and>
    (disown_quiet w \<longrightarrow> disown_quiet v)"
  using assms(1)
proof (cases rule: worker_onMessage_cases)
  case terminate
  from disown_onTerminate [OF terminate(3)] show ?thesis by blast
qed (auto simp: disown_pending_def disown_quiet_def onHeartbeat_def timer_Stop_def onInvoke_def
    push_session_def onChoke_def Let_def split: go.splits if_splits option.splits)

lemma disown_pending_tick:
  assumes "worker_loop w (EvHeartbeatTick c) = Some v" and "timers_inv w" and "disown_pending d w"
  shows "disown_pending d v"
proof -
  let ?u = "w\<lparr>w_disown := timer_Reset (w_now w) disownTimeout (w_disown w),
      w_heartbeat := timer_Reset (w_now w) heartbeatTimeout ((w_heartbeat w)\<lparr>tm_fired := False\<rparr>)\<rparr>"
  have w: "conn_write c newHeartbeatV1 ?u = Some v" "w_exit w = None" "tm_fired (w_heartbeat w)"
    using assms(1) by (auto simp: onHeartbeatTimeout_def split: if_splits)
  with assms(2,3) have "tm_fired (w_disown w)" by (auto simp: timers_inv_def disown_pending_def)
  then have "disown_pending d ?u" by (simp add: disown_pending_def timer_Reset_def)
  with disown_conn_write(1) [OF w(1)] show ?thesis by blast
qed

lemma disown_pending_step:
  assumes "worker_loop w e = Some v" and "timers_inv w" and "disown_pending d w" and "\<not> is_reply e"
  shows "disown_pending d v"
proof (cases e)
  case (EvMessage spent c msg)
  then show ?thesis
    using assms disown_message
    by (auto split: option.splits outcome.splits if_splits) (simp_all add: disown_pending_def)
next
  case (EvHeartbeatTick c)
  with assms disown_pending_tick show ?thesis by blast
next
  case EvDisownTick
  with assms show ?thesis by (auto simp: disown_pending_def split: if_splits go.splits)
next
  case EvStopCall
  with assms show ?thesis
    by (auto dest!: worker_Stop_frame simp: disown_pending_def split: go.splits)
next
  case (EvTime n)
  with assms disown_pending_elapse show ?thesis by auto
qed (use assms in \<open>auto simp: disown_pending_def set_response_def Let_def
      split: option.splits if_splits\<close>)

lemma disown_quiet_step:
  assumes "worker_loop w e = Some v" and "disown_quiet w" and "\<not> is_heartbeat_tick e"
  shows "disown_quiet v"
proof (cases e)
  case (EvMessage spent c msg)
  then show ?thesis
    using assms disown_message
    by (auto split: option.splits outcome.splits if_splits) (simp add: disown_quiet_def)
next
  case EvStopCall
  with assms show ?thesis
    by (auto dest!: worker_Stop_frame simp: disown_quiet_def split: go.splits)
next
  case (EvTime n)
  with assms disown_quiet_elapse show ?thesis by auto
qed (use assms in \<open>auto simp: disown_quiet_def set_response_def Let_def
      split: option.splits if_splits\<close>)

section \<open>Properties\<close>

text \<open>C1: whatever the runtime sends, in whatever order the handlers, the timers and the
  connection run, the worker answers every session it opened correctly. While the connection is
  open, the messages it has sent for a session are data chunks, followed by exactly one choke
  or error if and only if the session's response is closed, and a handler that has ended has
  closed it.\<close>

theorem worker_answers:
  assumes "worker_started i lost debug stackSignal termination c1 c2 = Some w0" and "run worker_loop w0 es = Some w"
    and "w_runs w s = Some h" and "\<not> w_conn_closed w"
  shows "answer_ok s (rs_closed (hr_response h)) (session_out s w) \<and>
    (hr_done h \<longrightarrow> rs_closed (hr_response h))"
proof -
  have "runs_inv w" using worker_inv_run [OF assms(1,2)] by (simp add: worker_inv_def)
  then have h: "run_ok (maxSession (w_proto w)) s h"
    and out: "s \<noteq> v1UtilitySession \<Longrightarrow> session_out s w = run_out s w"
    using assms(3,4) by (simp_all add: runs_inv_def)
  with assms(3) show ?thesis by (auto simp: run_ok_def response_inv_def run_out_def)
qed

definition demo_worker :: worker where
  "demo_worker = the (worker_started ''id'' False False True False Sent Sent)"

definition demo_events :: "wevent list" where
  "demo_events = [EvMessage 0 Sent (newInvokeV1 2 ''ping''), EvHandlerOp 2 (WriteOp (Some [1])) False,
     EvHandlerEnd 2 None '''' False]"

lemmas demo_simps = demo_worker_def demo_events_def worker_started_def newWorkerNG_def newWorker0_def
  worker_Run_def worker_SetDebug_def worker_EnableStackSignal_def
  onHeartbeatTimeout_def conn_write_def timer_defs timeouts worker_onMessage_def v1_onMessage_def
  newV1Protocol_def v1_messages v1_consts onInvoke_def getEventName_def set_response_def
  response_defs trapRecoverAndClose_def

theorem worker_answers_witness:
  "\<exists>w. run worker_loop demo_worker demo_events = Some w \<and> answer_ok 2 True (session_out 2 w)"
proof -
  have start: "worker_started ''id'' False False True False Sent Sent = Some demo_worker"
    by (simp add: demo_simps)
  obtain w h where run: "run worker_loop demo_worker demo_events = Some w" "w_runs w 2 = Some h"
      "\<not> w_conn_closed w" "hr_done h"
    by (simp add: demo_simps Let_def)
  from worker_answers [OF start run(1,2,3)] run(1,4) show ?thesis by auto
qed


definition empty_invoke :: message where
  "empty_invoke = \<lparr>Session = 3, MsgType = v1Invoke, Payload = [], Headers = []\<rparr>"




text \<open>A runtime that answers in time is not disowned. If the worker handles a reply before
  its disown timer has run out, then until the next heartbeat is sent the disown case never
  becomes ready, however much time passes.\<close>

theorem worker_reply_in_time:
  assumes "\<not> tm_fired (w_disown w)" and "is_reply e" and "worker_loop w e = Some u"
    and "run worker_loop u fs = Some v" and "\<forall>f \<in> set fs. \<not> is_heartbeat_tick f"
  shows "worker_loop v EvDisownTick = None"
proof -
  obtain spent c msg where e: "e = EvMessage spent c msg" "Session msg = v1UtilitySession"
      "MsgType msg = v1Heartbeat"
    using assms(2) by (cases e) auto
  then have "u = onHeartbeat (w\<lparr>w_proto := w_proto w\<rparr>)"
    using assms(3) by (auto simp: worker_onMessage_def v1_onMessage_def dispatchUtilityMessage_def
        split: if_splits)
  then have "disown_quiet u"
    using assms(1) by (simp add: disown_quiet_def onHeartbeat_def timer_Stop_def)
  then have "disown_quiet v"
    by (rule run_invariant_on [OF _ assms(4), rotated 2, where A = "{e. \<not> is_heartbeat_tick e}"])
       (use assms(5) in \<open>auto intro: disown_quiet_step\<close>)
  then show ?thesis by (simp add: disown_quiet_def)
qed

theorem worker_reply_in_time_witness:
  "\<exists>u v. worker_loop demo_worker (EvMessage 0 Sent newHeartbeatV1) = Some u \<and>
     run worker_loop u [EvTime 7] = Some v \<and> worker_loop v EvDisownTick = None"
proof -
  obtain u v where u: "worker_loop demo_worker (EvMessage 0 Sent newHeartbeatV1) = Some u"
      "run worker_loop u [EvTime 7] = Some v"
    by (simp add: demo_simps dispatchUtilityMessage_def)
  have "\<not> tm_fired (w_disown demo_worker)" "is_reply (EvMessage 0 Sent newHeartbeatV1)"
    by (simp_all add: demo_simps)
  from worker_reply_in_time [OF this u] u show ?thesis by auto
qed

text \<open>A reply that is handled after the timer has run out does not save the worker.
  \<open>disownTimer.Stop()\<close> leaves the expired timer's value in its channel, so the worker is
  disowned although the runtime has answered.\<close>

theorem worker_stale_disown:
  "\<exists>v u. run worker_loop demo_worker [EvTime 5, EvMessage 0 Sent newHeartbeatV1] = Some v \<and>
     tm_deadline (w_disown v) = None \<and> worker_loop v EvDisownTick = Some u \<and>
     w_exit u = Some (Returned (Some ErrDisowned))"
  by (simp add: demo_simps dispatchUtilityMessage_def elapse_def onHeartbeat_def worker_Stop_def)



end
