(* ===== verification/WorkerTypes.thy ===== *)
theory WorkerTypes
  imports Worker
begin

text \<open>
  The types of the messages a worker sends (\<open>cocaine12/wprotov1.go\<close>, \<open>cocaine12/workerng.go\<close>). The
  payload of a message is a list of dynamic values, so the compiler does not check that a message
  has the shape its number announces. The judgement \<open>v1_msg\<close> says what the runtime may rely on;
  every step of the worker preserves it. The checker \<open>v1_check\<close> decides the judgement.
\<close>

section \<open>The judgement\<close>

text \<open>\<open>mx\<close> is the highest session the runtime has invoked.\<close>

inductive v1_msg :: "u64 \<Rightarrow> message \<Rightarrow> bool" for mx :: u64 where
  Heartbeat_ty: "v1_msg mx \<lparr>Session = v1UtilitySession, MsgType = v1Heartbeat, Payload = [], Headers = []\<rparr>"
| Terminate_ty: "v1_msg mx \<lparr>Session = v1UtilitySession, MsgType = v1Terminate, Payload = p, Headers = hs\<rparr>"
| Chunk_ty: "v1UtilitySession < s \<Longrightarrow> s \<le> mx \<Longrightarrow>
     v1_msg mx \<lparr>Session = s, MsgType = v1Write, Payload = [GBytes d], Headers = []\<rparr>"
| Error_ty: "v1UtilitySession < s \<Longrightarrow> s \<le> mx \<Longrightarrow>
     v1_msg mx \<lparr>Session = s, MsgType = v1Error, Payload = [GIntPair category code, GString t], Headers = []\<rparr>"
| Choke_ty: "v1UtilitySession < s \<Longrightarrow> s \<le> mx \<Longrightarrow>
     v1_msg mx \<lparr>Session = s, MsgType = v1Close, Payload = [], Headers = []\<rparr>"

declare v1_msg.intros [intro]

inductive_simps v1_msg_simps: "v1_msg mx \<lparr>Session = s, MsgType = t, Payload = p, Headers = hs\<rparr>"

text \<open>The checker.\<close>

fun payload_check :: "u64 \<Rightarrow> gval list \<Rightarrow> bool" where
  "payload_check t [] \<longleftrightarrow> t = v1Close"
| "payload_check t [GBytes d] \<longleftrightarrow> t = v1Write"
| "payload_check t [GIntPair category code, GString s] \<longleftrightarrow> t = v1Error"
| "payload_check t _ \<longleftrightarrow> False"

definition v1_check :: "u64 \<Rightarrow> message \<Rightarrow> bool" where
  "v1_check mx m \<longleftrightarrow>
     (if Session m = v1UtilitySession
      then MsgType m = v1Terminate \<or> MsgType m = v1Heartbeat \<and> Payload m = [] \<and> Headers m = []
      else v1UtilitySession < Session m \<and> Session m \<le> mx \<and> Headers m = [] \<and>
        payload_check (MsgType m) (Payload m))"

lemma payload_check_iff:
  "payload_check t p \<longleftrightarrow> t = v1Close \<and> p = [] \<or> t = v1Write \<and> (\<exists>d. p = [GBytes d]) \<or>
     t = v1Error \<and> (\<exists>category code s. p = [GIntPair category code, GString s])"
  by (induction t p rule: payload_check.induct) (auto simp: v1_consts)

lemma v1_check_iff: "v1_check mx m \<longleftrightarrow> v1_msg mx m"
  by (cases m) (auto simp: v1_check_def v1_msg_simps payload_check_iff)

lemma v1_msg_mono: "v1_msg mx m \<Longrightarrow> mx \<le> mx' \<Longrightarrow> v1_msg mx' m"
  by (auto elim!: v1_msg.cases)

section \<open>Preservation\<close>

lemma v1_msg_constructors:
  "v1_msg mx newHeartbeatV1"
  "v1UtilitySession < s \<Longrightarrow> s \<le> mx \<Longrightarrow> v1_msg mx (newChunkV1 s d)"
  "v1UtilitySession < s \<Longrightarrow> s \<le> mx \<Longrightarrow> v1_msg mx (newErrorV1 s category code t)"
  "v1UtilitySession < s \<Longrightarrow> s \<le> mx \<Longrightarrow> v1_msg mx (newChokeV1 s)"
  unfolding newHeartbeatV1_def newChunkV1_def newErrorV1_def newChokeV1_def by blast+

lemma v1_msg_terminate: "Session m = v1UtilitySession \<Longrightarrow> MsgType m = v1Terminate \<Longrightarrow> v1_msg mx m"
  by (cases m) auto

lemma answer_ok_typed:
  assumes "answer_ok s c out" and "v1UtilitySession < s" and "s \<le> mx" and "m \<in> set out"
  shows "v1_msg mx m"
proof -
  have "is_data s m \<or> is_final s m" using assms(1,4) by (auto simp: answer_ok_def list_all_iff split: if_splits)
  then show ?thesis
    unfolding is_data_def is_final_def using assms(2,3) v1_msg_constructors by metis
qed

text \<open>The invoked sessions lie above the utility session.\<close>

definition runs_above :: "worker \<Rightarrow> bool" where
  "runs_above w \<longleftrightarrow> v1UtilitySession \<le> maxSession (w_proto w) \<and>
     (\<forall>s h. w_runs w s = Some h \<longrightarrow> v1UtilitySession < s)"

text \<open>A step that only appends well-typed messages.\<close>

definition typed_step :: "worker \<Rightarrow> worker \<Rightarrow> bool" where
  "typed_step w v \<longleftrightarrow> runs_above v \<and> maxSession (w_proto w) \<le> maxSession (w_proto v) \<and>
     (\<exists>new. w_out v = w_out w @ new \<and> list_all (v1_msg (maxSession (w_proto v))) new)"

lemma typed_step_quiet:
  "runs_above w \<Longrightarrow> w_runs v = w_runs w \<Longrightarrow> w_proto v = w_proto w \<Longrightarrow> w_out v = w_out w \<Longrightarrow> typed_step w v"
  by (simp add: typed_step_def runs_above_def)

lemma typed_step_conn_write:
  assumes "conn_write c m u = Some v" and "v1_msg (maxSession (w_proto w)) m" and "runs_above w"
    and "w_runs u = w_runs w" "w_proto u = w_proto w" "w_out u = w_out w"
  shows "typed_step w v"
  using conn_write_frame [OF assms(1)] assms(2-) by (auto simp: typed_step_def runs_above_def)

lemma typed_step_message:
  assumes "worker_onMessage spent c msg w = Some (Continue v err)" and "runs_above w"
  shows "typed_step w v"
  using assms(1)
proof (cases rule: worker_onMessage_cases)
  case terminate
  then obtain u where u: "conn_write c msg
      (if w_termination w then elapse (min spent terminationTimeout) w else w) = Some u"
    and v: "worker_Stop u = Ret v"
    by (auto elim: onTerminate_Continue)
  from v1_msg_terminate [OF terminate(1,2)] have "typed_step w u"
    by (intro typed_step_conn_write [OF u _ assms(2)]) auto
  with worker_Stop_frame [OF v] show ?thesis by (simp add: typed_step_def runs_above_def)
next
  case invoke
  from onInvoke_runs [OF invoke(3) [symmetric]] invoke(1,2) assms(2) show ?thesis
    by (auto simp: typed_step_def runs_above_def split: if_splits)
qed (use assms(2) in \<open>auto simp: onHeartbeat_def push_session_def onChoke_def
      split: go.splits if_splits option.splits intro!: typed_step_quiet\<close>)

lemma typed_step_response:
  assumes "set_response s h r don dropped w = Some v" and "w_runs w s = Some h"
    and "runs_above w" and "runs_inv v"
    and "rs_out r = rs_out (hr_response h) @ new"
  shows "typed_step w v"
proof -
  have v: "w_runs v = (w_runs w)(s \<mapsto> h\<lparr>hr_response := r, hr_done := don\<rparr>)" "w_proto v = w_proto w"
      "w_out v = w_out w @ (if dropped then [] else new)"
    using assms(1,5) by (auto simp: set_response_def Let_def split: if_splits)
  have "run_ok (maxSession (w_proto v)) s (h\<lparr>hr_response := r, hr_done := don\<rparr>)"
    using assms(4) v(1) by (simp add: runs_inv_def)
  then have "answer_ok s (rs_closed r) (rs_out r)" "s \<le> maxSession (w_proto v)"
    by (auto simp: run_ok_def response_inv_def)
  moreover have "v1UtilitySession < s" using assms(2,3) by (auto simp: runs_above_def)
  ultimately have "list_all (v1_msg (maxSession (w_proto v))) new"
    using assms(5) by (auto simp: list_all_iff intro: answer_ok_typed)
  with v assms(2,3) show ?thesis by (auto simp: typed_step_def runs_above_def split: if_splits)
qed

lemma typed_step_loop:
  assumes "worker_loop w e = Some v" and "runs_above w" and "worker_inv w"
  shows "typed_step w v"
proof (cases e)
  case (EvMessage spent c msg)
  then show ?thesis
    using assms typed_step_message
    by (auto split: option.splits outcome.splits if_splits intro: typed_step_quiet)
next
  case (EvHeartbeatTick c)
  with assms show ?thesis
    by (auto simp: onHeartbeatTimeout_def v1_msg_constructors(1) split: if_splits elim!: typed_step_conn_write)
next
  case (EvHandlerOp s op dropped)
  with assms obtain h where "w_runs w s = Some h"
    "set_response s h (response_op op (hr_response h)) False dropped w = Some v"
    by (auto split: option.splits if_splits)
  with worker_inv_step [OF assms(3,1)] assms(2) response_op_extends show ?thesis
    by (metis typed_step_response worker_inv_def)
next
  case (EvHandlerEnd s recovered stack dropped)
  with assms obtain h where "w_runs w s = Some h"
    "set_response s h (trapRecoverAndClose response_Close response_ErrorMsg (hr_event h) recovered
        (w_debug w) stack (hr_response h)) True dropped w = Some v"
    by (auto split: option.splits if_splits)
  with worker_inv_step [OF assms(3,1)] assms(2) trap_extends show ?thesis
    by (metis typed_step_response worker_inv_def)
qed (use assms in \<open>auto simp: worker_Stop_def split: if_splits go.splits intro!: typed_step_quiet\<close>)

section \<open>Every message sent is well typed\<close>

text \<open>What a worker has announced when its loop starts.\<close>

definition announced :: "string \<Rightarrow> sendCase \<Rightarrow> sendCase \<Rightarrow> message list" where
  "announced i c1 c2 = (if c1 = Sent then [newHandshakeV1 i] else []) @ (if c2 = Sent then [newHeartbeatV1] else [])"

lemma started_announced:
  assumes "worker_started i lost debug stackSignal termination c1 c2 = Some w"
  shows "w_out w = announced i c1 c2 \<and> runs_above w"
proof -
  obtain u where u: "conn_write c1 (newHandshakeV1 i) (newWorker0 i False lost) = Some u"
    and w: "onHeartbeatTimeout c2 (u\<lparr>w_debug := debug, w_stackSignalEnabled := stackSignal,
      w_termination := termination\<rparr>) = Some w"
    using assms by (auto simp: worker_started_def newWorkerNG_def worker_Run_def worker_SetDebug_def
        worker_EnableStackSignal_def split: option.splits if_splits)
  from conn_write_frame [OF u] conn_write_frame [OF w [unfolded onHeartbeatTimeout_def]] show ?thesis
    by (simp add: announced_def runs_above_def newWorker0_def newV1Protocol_def v1UtilitySession_def)
qed



end
