(* ===== verification/System.thy ===== *)
theory System
  imports Calls Proxy WorkerTypes
begin

text \<open>
  A call from end to end. A program calls a method of an application through the service client
  (\<open>cocaine12/service.go\<close>, \<open>channel.go\<close>); the runtime, which is not part of this repository, invokes a
  worker and relays what the worker sends under the caller's session number; the worker
  (\<open>workerng.go\<close>, \<open>handler.go\<close>) runs a handler. The theory composes the machines of the two
  sides: what the caller's \<open>Get\<close>s see is determined by the calls the handler made on its response.
\<close>

section \<open>What a handler answers\<close>

datatype ending = Completed | Failed i64 string

text \<open>The chunks and the ending of an answer, from the calls the handler makes; \<open>e\<close> is how it ends
  when it has not closed its response itself.\<close>

fun answer :: "respOp list \<Rightarrow> ending \<Rightarrow> slice list \<times> ending" where
  "answer [] e = ([], e)"
| "answer (WriteOp d # ops) e = apfst (Cons (if slice_bytes d = [] then None else d)) (answer ops e)"
| "answer (ZeroCopyWriteOp d # ops) e = apfst (Cons d) (answer ops e)"
| "answer (CloseOp # ops) e = ([], Completed)"
| "answer (ErrorMsgOp code t # ops) e = ([], Failed code t)"

definition handler_ending :: "string \<Rightarrow> string option \<Rightarrow> bool \<Rightarrow> string \<Rightarrow> ending" where
  "handler_ending event recovered printStack stack =
     (case recovered of
        None \<Rightarrow> Completed
      | Some info \<Rightarrow> Failed ErrorPanicInHandler (trap_message event info printStack stack))"

fun ending_msg :: "u64 \<Rightarrow> ending \<Rightarrow> message" where
  "ending_msg s Completed = newChokeV1 s"
| "ending_msg s (Failed code t) = newErrorV1 s cworkererrorcategory code t"

definition answer_msgs :: "u64 \<Rightarrow> slice list \<times> ending \<Rightarrow> message list" where
  "answer_msgs s a = map (newChunkV1 s) (fst a) @ [ending_msg s (snd a)]"

lemma closed_ops: "rs_closed r \<Longrightarrow> fold response_op ops r = r"
proof (induction ops)
  case (Cons op ops)
  then show ?case by (cases op) (simp_all add: response_defs Let_def)
qed simp

lemma trap_closed:
  "rs_closed r \<Longrightarrow> trapRecoverAndClose response_Close response_ErrorMsg event recovered b stack r = r"
  by (auto simp: trapRecoverAndClose_def response_defs split: option.splits)

lemma run_handler_answer_from:
  "\<not> rs_closed r \<Longrightarrow> rs_out (run_handler event ops recovered b stack r) =
     rs_out r @ answer_msgs (rs_session r) (answer ops (handler_ending event recovered b stack))"
proof (induction ops arbitrary: r)
  case Nil
  then show ?case
    by (auto simp: run_handler_def trapRecoverAndClose_def handler_ending_def answer_msgs_def response_defs
        split: option.splits)
next
  case (Cons op ops)
  have step: "run_handler event (op # ops) recovered b stack r = run_handler event ops recovered b stack (response_op op r)"
    by (simp add: run_handler_def)
  show ?case
  proof (cases op)
    case (WriteOp d)
    with Cons.IH [of "response_op op r"] Cons.prems show ?thesis
      unfolding step by (simp add: response_defs answer_msgs_def Let_def)
  next
    case (ZeroCopyWriteOp d)
    with Cons.IH [of "response_op op r"] Cons.prems show ?thesis
      unfolding step by (simp add: response_defs answer_msgs_def)
  qed (use Cons.prems in \<open>auto simp: run_handler_def response_defs closed_ops trap_closed answer_msgs_def\<close>)
qed

lemma run_handler_answer:
  "rs_out (run_handler event ops recovered b stack (newResponse s)) =
     answer_msgs s (answer ops (handler_ending event recovered b stack))"
  using run_handler_answer_from [of "newResponse s"] by (simp add: newResponse_def)

section \<open>The handler in the worker\<close>

text \<open>The calls a handler has made on its response, read off the events of the worker.\<close>

fun handler_op :: "u64 \<Rightarrow> wevent \<Rightarrow> respOp list" where
  "handler_op s (EvHandlerOp t op dropped) = (if t = s then [op] else [])"
| "handler_op s _ = []"

definition handler_ops :: "u64 \<Rightarrow> wevent list \<Rightarrow> respOp list" where
  "handler_ops s es = concat (map (handler_op s) es)"

lemma handler_ops_snoc [simp]: "handler_ops s [] = []" "handler_ops s (es @ [e]) = handler_ops s es @ handler_op s e"
  by (simp_all add: handler_ops_def)

text \<open>How a handler's run and its calls are related.\<close>

definition run_of :: "u64 \<Rightarrow> wevent list \<Rightarrow> handlerRun option \<Rightarrow> bool" where
  "run_of s es ho \<longleftrightarrow>
     (case ho of
        None \<Rightarrow> handler_ops s es = []
      | Some h \<Rightarrow>
          if hr_done h
          then \<exists>recovered b stack. hr_response h = run_handler (hr_event h) (handler_ops s es) recovered b stack (newResponse s)
          else hr_response h = fold response_op (handler_ops s es) (newResponse s))"

lemma run_of_quiet: "run_of s es ho \<Longrightarrow> handler_op s e = [] \<Longrightarrow> run_of s (es @ [e]) ho"
  by (cases ho) (simp_all add: run_of_def)

lemma message_runs:
  assumes "worker_onMessage spent c msg w = Some (Continue v err)"
  shows "w_runs v = w_runs w \<or> maxSession (w_proto w) < Session msg \<and> (\<exists>e c. w_runs v = (w_runs w)(Session msg \<mapsto>
       \<lparr>hr_event = e, hr_trace = c, hr_response = newResponse (Session msg), hr_done = False\<rparr>))"
  using assms
proof (cases rule: worker_onMessage_cases)
  case terminate
  then show ?thesis by (auto elim!: onTerminate_Continue dest!: conn_write_frame worker_Stop_frame)
next
  case invoke
  from onInvoke_runs [OF invoke(3) [symmetric]] invoke(2) show ?thesis by simp
qed (auto simp: onHeartbeat_def push_session_def onChoke_def split: go.splits if_splits option.splits)

lemma run_of_message:
  assumes "worker_onMessage spent c msg w = Some (Continue v err)" and "runs_inv w" and "run_of s es (w_runs w s)"
  shows "run_of s es (w_runs v s)"
  using message_runs [OF assms(1)]
proof
  assume "w_runs v = w_runs w"
  with assms(3) show ?thesis by simp
next
  assume new: "maxSession (w_proto w) < Session msg \<and> (\<exists>e c. w_runs v = (w_runs w)(Session msg \<mapsto>
       \<lparr>hr_event = e, hr_trace = c, hr_response = newResponse (Session msg), hr_done = False\<rparr>))"
  then have "w_runs w (Session msg) = None"
    using assms(2) by (cases "w_runs w (Session msg)") (fastforce simp: runs_inv_def run_ok_def)+
  with new assms(3) show ?thesis by (cases "s = Session msg") (auto simp: run_of_def [of "Session msg"])
qed

lemma run_of_step:
  assumes "worker_loop w e = Some v" and "runs_inv w" and "run_of s es (w_runs w s)"
  shows "run_of s (es @ [e]) (w_runs v s)"
proof (cases e)
  case (EvMessage spent c msg)
  then show ?thesis
    using assms run_of_message [OF _ assms(2,3)]
    by (auto split: option.splits outcome.splits if_splits intro: run_of_quiet)
next
  case (EvHeartbeatTick c)
  with assms show ?thesis
    by (auto simp: onHeartbeatTimeout_def split: if_splits intro: run_of_quiet dest!: conn_write_frame)
next
  case (EvHandlerOp t op dropped)
  with assms obtain h where "w_runs w t = Some h" "\<not> hr_done h"
      "w_runs v = (w_runs w)(t \<mapsto> h\<lparr>hr_response := response_op op (hr_response h), hr_done := False\<rparr>)"
    by (auto simp: set_response_def Let_def split: option.splits if_splits)
  with EvHandlerOp assms(3) show ?thesis
    by (cases "s = t") (auto simp: run_of_def [of t] intro: run_of_quiet)
next
  case (EvHandlerEnd t recovered stack dropped)
  with assms obtain h where h: "w_runs w t = Some h" "\<not> hr_done h"
      "w_runs v = (w_runs w)(t \<mapsto> h\<lparr>hr_response := trapRecoverAndClose response_Close response_ErrorMsg (hr_event h)
         recovered (w_debug w) stack (hr_response h), hr_done := True\<rparr>)"
    by (auto simp: set_response_def Let_def split: option.splits if_splits)
  show ?thesis
  proof (cases "s = t")
    case True
    with EvHandlerEnd assms(3) h show ?thesis
      by (auto simp: run_of_def run_handler_def intro!: exI [of _ recovered] exI [of _ "w_debug w"] exI [of _ stack])
  qed (use EvHandlerEnd assms(3) h in \<open>auto intro: run_of_quiet\<close>)
qed (use assms in \<open>auto simp: worker_Stop_def split: if_splits go.splits intro: run_of_quiet\<close>)

lemma run_of_run:
  assumes "worker_started i lost debug stackSignal termination c1 c2 = Some w0" and "run worker_loop w0 es = Some w"
  shows "run_of s es (w_runs w s)"
  using assms(2)
proof (induction rule: run_induct)
  case start
  have "w_runs w0 s = None"
    using assms(1) by (auto simp: worker_started_def newWorkerNG_def worker_Run_def worker_SetDebug_def
        worker_EnableStackSignal_def newWorker0_def onHeartbeatTimeout_def split: option.splits if_splits
        dest!: conn_write_frame)
  then show ?case by (simp add: run_of_def)
next
  case (step es t e u)
  from worker_inv_run [OF assms(1) step(1)] run_of_step [OF step(2) _ step(3)] show ?case
    by (simp add: worker_inv_def)
qed

text \<open>A handler that has ended: what the worker sent for its session.\<close>

lemma ended_answer:
  assumes "worker_started i lost debug stackSignal termination c1 c2 = Some w0" and "run worker_loop w0 es = Some w"
    and "w_runs w s = Some h" and "hr_done h" and "\<not> w_conn_closed w"
  obtains recovered b stack where
    "session_out s w = answer_msgs s (answer (handler_ops s es) (handler_ending (hr_event h) recovered b stack))"
proof -
  have inv: "runs_inv w" using worker_inv_run [OF assms(1,2)] by (simp add: worker_inv_def)
  then have "s \<noteq> v1UtilitySession" using assms(3) by (auto simp: runs_inv_def run_ok_def)
  with inv assms(3,5) have "session_out s w = rs_out (hr_response h)" by (simp add: runs_inv_def run_out_def)
  moreover obtain recovered b stack where
    "hr_response h = run_handler (hr_event h) (handler_ops s es) recovered b stack (newResponse s)"
    using run_of_run [OF assms(1,2), of s] assms(3,4) by (auto simp: run_of_def)
  ultimately show ?thesis by (intro that) (simp add: run_handler_answer)
qed

section \<open>The caller's side\<close>

lemma conversation_flat:
  assumes "conversation tree ms t d" and "flat_stream tree" and "set ms \<subseteq> stream_methods tree"
  shows "t = tree \<and> (d \<longleftrightarrow> ms \<noteq> [] \<and> stream_ends tree (last ms))"
  using assms
proof (induction rule: conversation.induct)
  case (conv_step tree ms t m it u d)
  then have t: "t = tree" by simp
  obtain it' where "tree_item tree m = Ret it'" "stream_Type (Description it') \<noteq> otherDispatch"
    using flat_item [of tree m] conv_step.prems by auto
  with t conv_step.hyps flat_advance [of tree m it] show ?case by simp
qed simp

lemma write_stream_shape:
  "flat_stream write_stream" "stream_methods write_stream = {0, 1, 2}"
  "stream_ends write_stream m \<longleftrightarrow> m = 1 \<or> m = 2"
  by (auto simp: write_stream_def flat_stream_def stream_methods_def stream_ends_def recursiveDescription_def
      emptyDescription_def)

lemma ending_type: "stream_ends write_stream (MsgType (ending_msg s e))" "MsgType (ending_msg s e) \<in> {1, 2}"
  by (cases e; simp add: write_stream_shape v1_messages v1_consts)+

lemma chunk_type: "MsgType (newChunkV1 s d) = 0"
  by (simp add: v1_messages v1_consts)

lemma answer_types_answer: "answer_types write_stream (answer_msgs s a)"
  using ending_type(2) [of s "snd a"]
  by (auto simp: answer_types_def answer_msgs_def list_all_iff write_stream_shape chunk_type)

lemma answer_types_cong:
  assumes "map res_of_msg ms = map res_of_msg ns"
  shows "answer_types tree ms = answer_types tree ns"
proof -
  have all: "list_all (\<lambda>m. P (MsgType m)) xs = list_all P (map sr_method (map res_of_msg xs))" for P xs
    by (induction xs) (simp_all add: res_of_msg_def)
  have "map res_of_msg (butlast ms) = map res_of_msg (butlast ns)" by (simp only: map_butlast assms)
  with assms show ?thesis unfolding answer_types_def all [where P = "\<lambda>t. t \<in> stream_methods tree"]
      all [where P = "\<lambda>t. \<not> stream_ends tree t"] by simp
qed

lemma reader_events:
  assumes "filter rx_by_reader ces = xs"
  shows "concat (map rx_taken ces) = concat (map rx_taken xs)"
    and "\<forall>x \<in> set xs. rx_reader x \<subseteq> {n} \<Longrightarrow> \<forall>x \<in> set ces. rx_reader x \<subseteq> {n}"
proof -
  have "rx_taken x = []" "rx_reader x = {}" if "\<not> rx_by_reader x" for x using that by (cases x; simp)+
  note push = this
  show "concat (map rx_taken ces) = concat (map rx_taken xs)"
    unfolding assms [symmetric] by (induction ces) (simp_all add: push)
  show "\<forall>x \<in> set ces. rx_reader x \<subseteq> {n}" if "\<forall>x \<in> set xs. rx_reader x \<subseteq> {n}"
    using that push(2) unfolding assms [symmetric] by fastforce
qed

text \<open>A channel whose pushes are an answer, with one reader, is closed exactly when all of it was read.\<close>

lemma answer_read:
  assumes "run (rx_step conv) (newRx write_stream i) ces = Some x" and "\<forall>e \<in> set ces. rx_reader e \<subseteq> {n}"
    and "concat (map rx_pushed ces) = map res_of_msg (answer_msgs s a)" and "rx_crash x = None" and "rx_pc x n = Outside"
  shows "rx_done x \<longleftrightarrow> rx_pending x = []"
proof -
  let ?all = "map res_of_msg (answer_msgs s a)" and ?taken = "concat (map rx_taken ces)"
  have fifo: "?all = ?taken @ rx_pending x" using rx_conserve [OF assms(1)] assms(3) by simp
  have types: "sr_method (res_of_msg m) = MsgType m" for m by (simp add: res_of_msg_def)
  have conv: "conversation write_stream (map sr_method ?taken) (rx_tree x) (rx_done x)"
    using rx_follows_run [OF assms(1,2)] assms(4,5) by (auto simp: rx_follows_def rx_inflight_def)
  have "set (map sr_method ?all) \<subseteq> stream_methods write_stream"
    using answer_types_answer [of s a] by (auto simp: answer_types_def list_all_iff types)
  then have "set (map sr_method ?taken) \<subseteq> stream_methods write_stream" unfolding fifo by auto
  with conversation_flat [OF conv write_stream_shape(1)]
  have closed: "rx_done x \<longleftrightarrow> ?taken \<noteq> [] \<and> stream_ends write_stream (last (map sr_method ?taken))" by simp
  show ?thesis
  proof (cases "rx_pending x" rule: rev_cases)
    case Nil
    then have "?taken = ?all" using fifo by simp
    then have "?taken = map res_of_msg (map (newChunkV1 s) (fst a)) @ [res_of_msg (ending_msg s (snd a))]"
      by (simp add: answer_msgs_def)
    with closed Nil ending_type(1) show ?thesis by (simp add: types)
  next
    case (snoc ys y)
    with fifo have "map res_of_msg (map (newChunkV1 s) (fst a)) @ [res_of_msg (ending_msg s (snd a))] = (?taken @ ys) @ [y]"
      by (simp add: answer_msgs_def)
    then have "set ?taken \<subseteq> (\<lambda>d. res_of_msg (newChunkV1 s d)) ` set (fst a)"
      by (metis append1_eq_conv image_image list.set_map set_append sup_ge1)
    then have "?taken \<noteq> [] \<Longrightarrow> sr_method (last ?taken) = 0" using last_in_set [of ?taken] by (auto simp: types chunk_type)
    moreover have "\<not> stream_ends write_stream (last (map sr_method xs))" if "xs \<noteq> []" "sr_method (last xs) = 0" for xs
      using that by (simp add: last_map write_stream_shape)
    ultimately have "\<not> rx_done x" unfolding closed by blast
    with snoc show ?thesis by simp
  qed
qed

section \<open>From the call to the answer\<close>

text \<open>What the caller sees of an answer that is relayed to it.\<close>

lemma relayed_answer:
  assumes client: "run (service_step conv) (newService api) cs = Some v0"
      "service_call name args ti dropped v0 = Some (v1, Inr r)" "\<not> disconnected v1"
      "rx_tree (ch_rx (sv_chans v1 ! r)) = write_stream"
      "run (service_step conv) v1 fs = Some v2" "list_all steady fs" "length (sv_chans v2) < 2 ^ 64 - 2"
      "\<forall>x \<in> set (readings_on r fs). rx_reader x \<subseteq> {n}"
    and relay: "map res_of_msg (msgs_for (id_of r) fs) = map res_of_msg (answer_msgs s a)"
  shows "concat (map rx_taken (readings_on r fs)) @ rx_pending (ch_rx (sv_chans v2 ! r)) = map res_of_msg (answer_msgs s a) \<and>
      rx_crash (ch_rx (sv_chans v2 ! r)) = None \<and>
      (rx_pc (ch_rx (sv_chans v2 ! r)) n = Outside \<longrightarrow>
        (rx_done (ch_rx (sv_chans v2 ! r)) \<longleftrightarrow> rx_pending (ch_rx (sv_chans v2 ! r)) = []))"
proof -
  let ?x = "ch_rx (sv_chans v2 ! r)"
  have "answer_types write_stream (msgs_for (id_of r) fs)"
    using answer_types_cong [OF relay] answer_types_answer by blast
  then obtain ces where ces: "run (rx_step conv) (newRx write_stream (id_of r)) ces = Some ?x"
      "concat (map rx_pushed ces) = map res_of_msg (msgs_for (id_of r) fs)"
      "filter rx_by_reader ces = readings_on r fs" "rx_flat_inv write_stream ?x"
    by (rule call_delivers [OF client(1-4) write_stream_shape(1) client(5-7)])
  have pushed: "concat (map rx_pushed ces) = map res_of_msg (answer_msgs s a)" using ces(2) relay by simp
  have crash: "rx_crash ?x = None" using ces(4) by (simp add: rx_flat_inv_def)
  note events = reader_events [OF ces(3)]
  have "concat (map rx_taken (readings_on r fs)) @ rx_pending ?x = map res_of_msg (answer_msgs s a)"
    using rx_conserve [OF ces(1)] pushed events(1) by simp
  with crash answer_read [OF ces(1) events(2) [OF client(8)] pushed crash] show ?thesis by blast
qed


definition demo_relay :: "svevent list" where
  "demo_relay = [SvMsg 0 (newChunkV1 2 (Some [1])), SvDetach 0,
     SvRx 0 (RxFast 0 (res_of_msg (newChunkV1 2 (Some [1])))), SvRx 0 (RxFinish 0),
     SvMsg 0 (newChokeV1 2), SvDetach 0, SvRx 0 (RxFast 0 (res_of_msg (newChokeV1 2))), SvRx 0 (RxFinish 0)]"

lemma demo_client:
  obtains v0 v1 v2 where "run (service_step demo_conv) (newService demo_api) [SvLoopStart] = Some v0"
    "service_call ''enqueue'' [] None False v0 = Some (v1, Inr 0)" "\<not> disconnected v1"
    "rx_tree (ch_rx (sv_chans v1 ! 0)) = write_stream"
    "run (service_step demo_conv) v1 demo_relay = Some v2" "length (sv_chans v2) < 2 ^ 64 - 2"
  by (simp add: service_demo_simps demo_relay_def loop_detach_def reader_step_def newChunkV1_def newChokeV1_def
      v1_consts write_stream_def Let_def)


end
