(* ===== verification/Adapter.thy ===== *)
theory Adapter
  imports Worker EventHandlers
begin

text \<open>
  \<open>Worker\<close> (\<open>cocaine12/worker.go\<close>), the adapter applications use: a \<open>WorkerNG\<close>, a table of handlers and
  a termination handler, set up by the methods below and started by \<open>Run\<close>.
\<close>

record ('h, 'f) adapter =
  ad_impl :: worker
  ad_handlers :: "('h, 'f) eventHandlers"
  ad_termination :: bool

definition adapter_newWorker :: "'f \<Rightarrow> worker \<Rightarrow> ('h, 'f) adapter" where
  "adapter_newWorker DefaultFallback impl =
     \<lparr>ad_impl = impl, ad_handlers = NewEventHandlers DefaultFallback, ad_termination = False\<rparr>"

definition adapter_NewWorker :: "'f \<Rightarrow> (goerr + worker) option \<Rightarrow> (goerr + ('h, 'f) adapter) option" where
  "adapter_NewWorker DefaultFallback impl =
     map_option (\<lambda>r. case r of Inl err \<Rightarrow> Inl err | Inr w \<Rightarrow> Inr (adapter_newWorker DefaultFallback w)) impl"

definition adapter_SetDebug :: "bool \<Rightarrow> ('h, 'f) adapter \<Rightarrow> ('h, 'f) adapter" where
  "adapter_SetDebug debug a = a\<lparr>ad_impl := worker_SetDebug debug (ad_impl a)\<rparr>"

definition adapter_EnableStackSignal :: "bool \<Rightarrow> ('h, 'f) adapter \<Rightarrow> ('h, 'f) adapter" where
  "adapter_EnableStackSignal enable a = a\<lparr>ad_impl := worker_EnableStackSignal enable (ad_impl a)\<rparr>"

definition adapter_SetTerminationHandler :: "bool \<Rightarrow> ('h, 'f) adapter \<Rightarrow> ('h, 'f) adapter" where
  "adapter_SetTerminationHandler handler a = a\<lparr>ad_termination := handler\<rparr>"

definition adapter_On :: "string \<Rightarrow> 'h option \<Rightarrow> ('h, 'f) adapter \<Rightarrow> ('h, 'f) adapter" where
  "adapter_On event handler a = a\<lparr>ad_handlers := EventHandlers_On event handler (ad_handlers a)\<rparr>"

definition adapter_SetFallbackHandler :: "'f option \<Rightarrow> ('h, 'f) adapter \<Rightarrow> ('h, 'f) adapter" where
  "adapter_SetFallbackHandler handler a = a\<lparr>ad_handlers := SetFallbackHandler handler (ad_handlers a)\<rparr>"

definition adapter_Run :: "(string \<times> 'h option) list \<Rightarrow> sendCase \<Rightarrow> ('h, 'f) adapter \<Rightarrow> ('h, 'f) adapter option" where
  "adapter_Run hs c a =
     (let a' = fold (\<lambda>(event, handler). adapter_On event handler) hs a in
      map_option (\<lambda>w. a'\<lparr>ad_impl := w\<rparr>) (worker_Run (ad_termination a') c (ad_impl a')))"

definition adapter_Stop :: "('h, 'f) adapter \<Rightarrow> ('h, 'f) adapter go" where
  "adapter_Stop a = go_bind (worker_Stop (ad_impl a)) (\<lambda>w. Ret (a\<lparr>ad_impl := w\<rparr>))"

section \<open>Programs that set up a worker\<close>

datatype ('h, 'f) setupOp =
    DoSetDebug bool
  | DoStackSignal bool
  | DoTermination bool
  | DoOn string "'h option"
  | DoFallback "'f option"

fun adapter_do :: "('h, 'f) setupOp \<Rightarrow> ('h, 'f) adapter \<Rightarrow> ('h, 'f) adapter" where
  "adapter_do (DoSetDebug b) = adapter_SetDebug b"
| "adapter_do (DoStackSignal b) = adapter_EnableStackSignal b"
| "adapter_do (DoTermination b) = adapter_SetTerminationHandler b"
| "adapter_do (DoOn event h) = adapter_On event h"
| "adapter_do (DoFallback f) = adapter_SetFallbackHandler f"

text \<open>What a program asks for: the last value set of each kind, and the last handler of each event.\<close>

fun asked_debug :: "bool \<Rightarrow> ('h, 'f) setupOp list \<Rightarrow> bool" where
  "asked_debug d [] = d"
| "asked_debug d (DoSetDebug b # ops) = asked_debug b ops"
| "asked_debug d (_ # ops) = asked_debug d ops"

fun asked_signal :: "bool \<Rightarrow> ('h, 'f) setupOp list \<Rightarrow> bool" where
  "asked_signal d [] = d"
| "asked_signal d (DoStackSignal b # ops) = asked_signal b ops"
| "asked_signal d (_ # ops) = asked_signal d ops"

fun asked_termination :: "bool \<Rightarrow> ('h, 'f) setupOp list \<Rightarrow> bool" where
  "asked_termination d [] = d"
| "asked_termination d (DoTermination b # ops) = asked_termination b ops"
| "asked_termination d (_ # ops) = asked_termination d ops"

fun asked_fallback :: "'f option \<Rightarrow> ('h, 'f) setupOp list \<Rightarrow> 'f option" where
  "asked_fallback d [] = d"
| "asked_fallback d (DoFallback f # ops) = asked_fallback f ops"
| "asked_fallback d (_ # ops) = asked_fallback d ops"

fun asked_handlers :: "('h, 'f) setupOp list \<Rightarrow> string \<rightharpoonup> 'h option" where
  "asked_handlers [] = Map.empty"
| "asked_handlers (DoOn event h # ops) = [event \<mapsto> h] ++ asked_handlers ops"
| "asked_handlers (_ # ops) = asked_handlers ops"

lemma worker_setters:
  "w_debug (worker_SetDebug b w) = b" "w_stackSignalEnabled (worker_SetDebug b w) = w_stackSignalEnabled w"
  "w_debug (worker_EnableStackSignal b w) = w_debug w" "w_stackSignalEnabled (worker_EnableStackSignal b w) = b"
  by (simp_all add: worker_SetDebug_def worker_EnableStackSignal_def)

lemma fold_setup:
  "ad_impl (fold adapter_do ops a) = worker_EnableStackSignal (asked_signal (w_stackSignalEnabled (ad_impl a)) ops)
       (worker_SetDebug (asked_debug (w_debug (ad_impl a)) ops) (ad_impl a)) \<and>
   ad_termination (fold adapter_do ops a) = asked_termination (ad_termination a) ops \<and>
   fallback (ad_handlers (fold adapter_do ops a)) = asked_fallback (fallback (ad_handlers a)) ops \<and>
   map_of (handlers (ad_handlers (fold adapter_do ops a))) = map_of (handlers (ad_handlers a)) ++ asked_handlers ops"
proof (induction ops arbitrary: a)
  case Nil
  then show ?case by (simp add: worker_EnableStackSignal_def worker_SetDebug_def)
next
  case (Cons op ops)
  then show ?case
    by (cases op) (auto simp: adapter_SetDebug_def adapter_EnableStackSignal_def adapter_SetTerminationHandler_def
        adapter_On_def adapter_SetFallbackHandler_def EventHandlers_On_def SetFallbackHandler_def
        worker_EnableStackSignal_def worker_SetDebug_def map_add_def fun_eq_iff split: option.splits)
qed

lemma fold_On:
  "fold (\<lambda>(event, handler). adapter_On event handler) hs a = a\<lparr>ad_handlers := Worker_Run_bind hs (ad_handlers a)\<rparr>"
  by (induction hs arbitrary: a) (auto simp: adapter_On_def)

section \<open>Properties\<close>

text \<open>C23: setting up and running a worker. Whatever the sequence of setter calls before \<open>Run\<close>, the state
  the worker starts in is the one of a \<open>WorkerNG\<close> started with the last value given to each setter (and
  the defaults for the others), so everything shown of a started worker holds of it; and an event
  reaches the handler of the map given to \<open>Run\<close> if it has one, else the one bound last, and the last
  fallback set when there is none.\<close>

theorem adapter_program:
  assumes "newWorkerNG i 1 False lost c1 = Some (Inr w)" and "alist_ok hs"
    and "adapter_Run hs c2 (fold adapter_do ops (adapter_newWorker f w)) = Some a"
  shows "worker_started i lost (asked_debug False ops) (asked_signal True ops) (asked_termination False ops) c1 c2 =
      Some (ad_impl a) \<and>
    EventHandlers_Call (ad_handlers a) event =
      (case (asked_handlers ops ++ map_of hs) event of
         Some (Some h) \<Rightarrow> Ret (CallHandler h)
       | _ \<Rightarrow> (case asked_fallback (Some f) ops of Some g \<Rightarrow> Ret (CallFallback g event) | None \<Rightarrow> Panic NilDeref))"
proof -
  let ?a = "fold adapter_do ops (adapter_newWorker f w)"
  have w: "w_debug w = False" "w_stackSignalEnabled w = True"
    using assms(1) by (auto simp: newWorkerNG_def newWorker0_def conn_write_def elapse_def split: option.splits if_splits
        sendCase.splits)
  note s = fold_setup [of ops "adapter_newWorker f w"]
  have a: "Some (ad_impl a) = worker_Run (ad_termination ?a) c2 (ad_impl ?a)"
      "ad_handlers a = Worker_Run_bind hs (ad_handlers ?a)"
    using assms(3) by (auto simp: adapter_Run_def fold_On Let_def)
  have "map_of (handlers (ad_handlers a)) = asked_handlers ops ++ map_of hs"
      "fallback (ad_handlers a) = asked_fallback (Some f) ops"
    using Worker_Run_bind_handlers [OF assms(2), of "ad_handlers ?a"] s unfolding a(2)
    by (simp_all add: adapter_newWorker_def NewEventHandlers_def NewEventHandlersFromMap_def)
  moreover have "worker_started i lost (asked_debug False ops) (asked_signal True ops) (asked_termination False ops) c1 c2 =
      Some (ad_impl a)"
    using s w a(1) assms(1) by (simp add: worker_started_def adapter_newWorker_def)
  ultimately show ?thesis unfolding EventHandlers_Call_def by (simp only: HOL.simp_thms)
qed
theorem adapter_program_witness:
  "\<exists>w a. newWorkerNG ''id'' 1 False False Sent = Some (Inr w) \<and>
     adapter_Run [(''ping'', Some (1::nat))] Sent
       (fold adapter_do [DoOn ''ping'' (Some 2), DoSetDebug True, DoFallback (Some CHR ''g'')] (adapter_newWorker CHR ''f'' w)) = Some a \<and>
     w_debug (ad_impl a) \<and> EventHandlers_Call (ad_handlers a) ''ping'' = Ret (CallHandler 1)"
proof -
  obtain w where w: "newWorkerNG ''id'' 1 False False Sent = Some (Inr w)"
    by (simp add: newWorkerNG_def conn_write_def)
  let ?ops = "[DoOn ''ping'' (Some 2), DoSetDebug True, DoFallback (Some CHR ''g'')]"
  obtain a where a: "adapter_Run [(''ping'', Some (1::nat))] Sent (fold adapter_do ?ops (adapter_newWorker CHR ''f'' w)) = Some a"
      "w_debug (ad_impl a)"
    by (auto simp: adapter_Run_def worker_Run_def onHeartbeatTimeout_def conn_write_def adapter_SetDebug_def adapter_On_def
        worker_SetDebug_def adapter_SetFallbackHandler_def adapter_newWorker_def)
  have "alist_ok [(''ping'', Some (1::nat))]" by (simp add: alist_ok_def)
  from adapter_program [OF w this a(1), of "''ping''"] w a show ?thesis by auto
qed

end
