(* ===== verification/EchoExample.thy ===== *)
theory EchoExample
  imports System Adapter
begin

text \<open>
  The example application (\<open>example/echo.go\<close>): a worker with one handler, which answers with the
  first chunk it reads. The theory puts the parts of the framework together in a program: the
  adapter and its table of handlers, the worker, the handler's request and response, the runtime in
  between, and the client with its channel.
\<close>

section \<open>The program\<close>

text \<open>
  The calls \<open>Echo\<close> makes on its response, from what \<open>req.Read\<close> returned; the deferred \<open>Close\<close> comes
  last. The span only logs, and sleeping changes nothing. \<open>Error\<close> is \<open>err.Error()\<close>.
\<close>

definition Echo :: "(goerr \<Rightarrow> string) \<Rightarrow> goerr + slice \<Rightarrow> respOp list" where
  "Echo Error res =
     (case res of
        Inl err \<Rightarrow> [ErrorMsgOp 999 (Error err), CloseOp]
      | Inr body \<Rightarrow> [WriteOp body, CloseOp])"

type_synonym handlerFun = "goerr + slice \<Rightarrow> respOp list"
type_synonym fallbackFun = "string \<Rightarrow> respOp list"

definition echo_main :: "(goerr \<Rightarrow> string) \<Rightarrow> (goerr + worker) option \<Rightarrow> sendCase
    \<Rightarrow> (handlerFun, fallbackFun) adapter go option" where
  "echo_main Error impl c =
     (case adapter_NewWorker DefaultFallbackHandler_ops impl of
        None \<Rightarrow> None
      | Some (Inl err) \<Rightarrow> Some (Panic (UserPanic (Error err)))
      | Some (Inr a) \<Rightarrow>
          map_option Ret (adapter_Run [] c
            (adapter_On ''ping'' (Some (Echo Error))
              (adapter_EnableStackSignal False (adapter_SetTerminationHandler True a)))))"

text \<open>What the callee of an event does with what it reads.\<close>

fun callee_ops :: "(handlerFun, fallbackFun) callee \<Rightarrow> goerr + slice \<Rightarrow> respOp list" where
  "callee_ops (CallHandler f) res = f res"
| "callee_ops (CallFallback g event) res = g event"

section \<open>Lemmas\<close>

lemma echo_main_started:
  assumes "echo_main Error (newWorkerNG i 1 False lost c1) c2 = Some (Ret a)"
  shows "worker_started i lost False False True c1 c2 = Some (ad_impl a)"
    and "EventHandlers_Call (ad_handlers a) event =
      Ret (if event = ''ping'' then CallHandler (Echo Error) else CallFallback DefaultFallbackHandler_ops event)"
proof -
  obtain w where w: "newWorkerNG i 1 False lost c1 = Some (Inr w)"
    using assms by (auto simp: echo_main_def adapter_NewWorker_def split: option.splits sum.splits)
  then have "w_debug w = False"
    by (auto simp: newWorkerNG_def newWorker0_def conn_write_def elapse_def split: option.splits if_splits sendCase.splits)
  then have "worker_SetDebug False w = w" by (simp add: worker_SetDebug_def)
  with w assms show "worker_started i lost False False True c1 c2 = Some (ad_impl a)"
    by (auto simp: echo_main_def adapter_NewWorker_def adapter_newWorker_def adapter_Run_def adapter_On_def
        adapter_EnableStackSignal_def adapter_SetTerminationHandler_def worker_started_def)
  from w assms show "EventHandlers_Call (ad_handlers a) event =
      Ret (if event = ''ping'' then CallHandler (Echo Error) else CallFallback DefaultFallbackHandler_ops event)"
    by (auto simp: echo_main_def adapter_NewWorker_def adapter_newWorker_def adapter_Run_def adapter_On_def
        adapter_EnableStackSignal_def adapter_SetTerminationHandler_def EventHandlers_On_def NewEventHandlers_def
        NewEventHandlersFromMap_def EventHandlers_Call_def)
qed

text \<open>The answer does not depend on how the handler's goroutine ends: the response is closed by then.\<close>

lemma answer_Echo:
  "answer (Echo Error res) e =
     (case res of
        Inl err \<Rightarrow> ([], Failed 999 (Error err))
      | Inr body \<Rightarrow> ([if slice_bytes body = [] then None else body], Completed))"
  by (simp add: Echo_def split: sum.split)

section \<open>Property\<close>

text \<open>C3: the echo service echoes. A worker runs the program of the example; the runtime has opened a
  session of it for a call of some client and relays its messages; the handler has run its course on
  what it read first. Then what the caller has read and what is waiting for it is one chunk with the
  bytes the handler read and the end of the stream, or, when reading failed, the error 999, and for
  any event but \<open>ping\<close> the error that there is no handler; whatever else the two sides are doing.\<close>

theorem echo_answers:
  assumes main: "echo_main Error (newWorkerNG i 1 False lost c1) c2 = Some (Ret a)" "run worker_loop (ad_impl a) es = Some w"
      "w_runs w s = Some h" "hr_done h" "\<not> w_conn_closed w"
    and handler: "EventHandlers_Call (ad_handlers a) (hr_event h) = Ret callee" "handler_ops s es = callee_ops callee res"
    and client: "run (service_step conv) (newService api) cs = Some v0"
      "service_call name args ti dropped v0 = Some (v1, Inr r)" "\<not> disconnected v1"
      "rx_tree (ch_rx (sv_chans v1 ! r)) = write_stream"
      "run (service_step conv) v1 fs = Some v2" "list_all steady fs" "length (sv_chans v2) < 2 ^ 64 - 2"
      "\<forall>x \<in> set (readings_on r fs). rx_reader x \<subseteq> {n}"
    and relay: "map res_of_msg (msgs_for (id_of r) fs) = map res_of_msg (session_out s w)"
  shows "concat (map rx_taken (readings_on r fs)) @ rx_pending (ch_rx (sv_chans v2 ! r)) =
    map res_of_msg
      (if hr_event h \<noteq> ''ping''
       then [newErrorV1 s cworkererrorcategory ErrorNoEventHandler (''There is no handler for an event '' @ hr_event h)]
       else (case res of
               Inr body \<Rightarrow> [newChunkV1 s (if slice_bytes body = [] then None else body), newChokeV1 s]
             | Inl err \<Rightarrow> [newErrorV1 s cworkererrorcategory 999 (Error err)]))"
proof -
  note started = echo_main_started [OF main(1)]
  obtain recovered b stack where out: "session_out s w =
      answer_msgs s (answer (handler_ops s es) (handler_ending (hr_event h) recovered b stack))"
    by (rule ended_answer [OF started(1) main(2-5)])
  have callee: "callee = (if hr_event h = ''ping'' then CallHandler (Echo Error)
      else CallFallback DefaultFallbackHandler_ops (hr_event h))"
    using handler(1) started(2) [of "hr_event h"] by simp
  have "answer_msgs s (answer (handler_ops s es) (handler_ending (hr_event h) recovered b stack)) =
      (if hr_event h \<noteq> ''ping''
       then [newErrorV1 s cworkererrorcategory ErrorNoEventHandler (''There is no handler for an event '' @ hr_event h)]
       else (case res of
               Inr body \<Rightarrow> [newChunkV1 s (if slice_bytes body = [] then None else body), newChokeV1 s]
             | Inl err \<Rightarrow> [newErrorV1 s cworkererrorcategory 999 (Error err)]))"
    unfolding handler(2) callee
    by (simp add: answer_Echo DefaultFallbackHandler_ops_def answer_msgs_def split: sum.split)
  with relayed_answer [OF client relay [unfolded out]] show ?thesis by simp
qed

definition echo_events :: "wevent list" where
  "echo_events = [EvMessage 0 Sent (newInvokeV1 2 ''ping''), EvHandlerOp 2 (WriteOp (Some [1])) False,
     EvHandlerOp 2 CloseOp False, EvHandlerEnd 2 None '''' False]"

theorem echo_answers_witness:
  "\<exists>a w v0 v1 v2. echo_main (\<lambda>_. '''') (newWorkerNG ''id'' 1 False False Sent) Sent = Some (Ret a) \<and>
     run worker_loop (ad_impl a) echo_events = Some w \<and>
     run (service_step demo_conv) (newService demo_api) [SvLoopStart] = Some v0 \<and>
     service_call ''enqueue'' [] None False v0 = Some (v1, Inr 0) \<and>
     run (service_step demo_conv) v1 demo_relay = Some v2 \<and>
     concat (map rx_taken (readings_on 0 demo_relay)) @ rx_pending (ch_rx (sv_chans v2 ! 0)) =
       map res_of_msg [newChunkV1 2 (Some [1]), newChokeV1 2]"
proof -
  note simps = demo_simps echo_main_def adapter_NewWorker_def adapter_newWorker_def adapter_Run_def adapter_On_def
    adapter_EnableStackSignal_def adapter_SetTerminationHandler_def
  obtain a w h where w: "echo_main (\<lambda>_. '''') (newWorkerNG ''id'' 1 False False Sent) Sent = Some (Ret a)"
      "run worker_loop (ad_impl a) echo_events = Some w" "w_runs w 2 = Some h" "hr_done h" "\<not> w_conn_closed w"
      "hr_event h = ''ping''" "session_out 2 w = [newChunkV1 2 (Some [1]), newChokeV1 2]"
    by (simp add: simps echo_events_def Let_def session_out_def)
  obtain v0 v1 v2 where v: "run (service_step demo_conv) (newService demo_api) [SvLoopStart] = Some v0"
      "service_call ''enqueue'' [] None False v0 = Some (v1, Inr 0)" "\<not> disconnected v1"
      "rx_tree (ch_rx (sv_chans v1 ! 0)) = write_stream"
      "run (service_step demo_conv) v1 demo_relay = Some v2" "length (sv_chans v2) < 2 ^ 64 - 2"
    by (rule demo_client)
  have fs: "list_all steady demo_relay" "\<forall>x \<in> set (readings_on 0 demo_relay). rx_reader x \<subseteq> {0}"
      "map res_of_msg (msgs_for (id_of 0) demo_relay) = map res_of_msg (session_out 2 w)"
    by (simp_all add: demo_relay_def readings_on_def msgs_for_def id_of_def w(7) newChunkV1_def newChokeV1_def)
  have h: "EventHandlers_Call (ad_handlers a) (hr_event h) = Ret (CallHandler (Echo (\<lambda>_. '''')))"
      "handler_ops 2 echo_events = callee_ops (CallHandler (Echo (\<lambda>_. ''''))) (Inr (Some [1]))"
    using echo_main_started(2) [OF w(1)] w(6) by (simp_all add: Echo_def echo_events_def handler_ops_def)
  from echo_answers [OF w(1-5) h v(1-5) fs(1) v(6) fs(2,3)] w(1,2,6) v(1,2,5) show ?thesis by auto
qed

end
