(* ===== verification/Defaults.thy ===== *)
theory Defaults
  imports HttpHeader
begin

text \<open>
  The configuration of a worker (\<open>cocaine12/defaults.go\<close>): command-line flags, parsed as the
  package \<open>flag\<close> parses them, and environment variables. The integer syntax of a flag
  (\<open>strconv.ParseInt\<close> with base 0) is a parameter: the value stored and whether it was accepted.
\<close>

section \<open>Lists of locators\<close>

fun split_on :: "char \<Rightarrow> string \<Rightarrow> string list" where
  "split_on sep [] = [[]]"
| "split_on sep (c # cs) =
     (if c = sep then [] # split_on sep cs
      else (case split_on sep cs of w # ws \<Rightarrow> (c # w) # ws | [] \<Rightarrow> [[c]]))"

fun join_with :: "string \<Rightarrow> string list \<Rightarrow> string" where
  "join_with sep [] = []"
| "join_with sep [w] = w"
| "join_with sep (w # ws) = w @ sep @ join_with sep ws"

definition comma :: char where "comma = CHR '',''"

definition parseLocators :: "string \<Rightarrow> string list" where
  "parseLocators arg = (if comma \<notin> set arg then [arg] else split_on comma arg)"

definition locators_String :: "string list \<Rightarrow> string" where
  "locators_String l = join_with [comma] l"

section \<open>Values\<close>

record defaultValues =
  dv_appName :: string
  dv_endpoint :: string
  dv_locators :: "string list"
  dv_protocol :: i64
  dv_uuid :: string
  dv_debug :: bool
  dv_token :: "string \<times> string"
  dv_showVersion :: bool

definition defaultProtocolVersion :: i64 where "defaultProtocolVersion = 0"
definition defaultLocatorEndpoint :: string where "defaultLocatorEndpoint = ''localhost:10053''"

section \<open>Flags\<close>

definition ParseBool :: "string \<Rightarrow> bool option" where
  "ParseBool s =
     (if s \<in> set [''1'', ''t'', ''T'', ''true'', ''TRUE'', ''True''] then Some True
      else if s \<in> set [''0'', ''f'', ''F'', ''false'', ''FALSE'', ''False''] then Some False else None)"

text \<open>Setting a flag: the new values and whether the value was accepted; None for an unknown flag.\<close>

definition set_flag :: "(string \<Rightarrow> i64 \<times> bool) \<Rightarrow> string \<Rightarrow> string \<Rightarrow> defaultValues \<Rightarrow> (defaultValues \<times> bool) option" where
  "set_flag parseInt0 name value v =
     (if name = ''app'' then Some (v\<lparr>dv_appName := value\<rparr>, True)
      else if name = ''endpoint'' then Some (v\<lparr>dv_endpoint := value\<rparr>, True)
      else if name = ''locator'' then Some (v\<lparr>dv_locators := parseLocators value\<rparr>, True)
      else if name = ''protocol'' then Some (v\<lparr>dv_protocol := fst (parseInt0 value)\<rparr>, snd (parseInt0 value))
      else if name = ''uuid'' then Some (v\<lparr>dv_uuid := value\<rparr>, True)
      else if name = ''showcocaineversion''
      then Some (v\<lparr>dv_showVersion := (ParseBool value = Some True)\<rparr>, ParseBool value \<noteq> None)
      else None)"

definition is_bool_flag :: "string \<Rightarrow> bool" where "is_bool_flag name \<longleftrightarrow> name = ''showcocaineversion''"

text \<open>
  The name and the value of an argument that is a flag: \<open>-name\<close>, \<open>--name\<close>, \<open>-name=value\<close>. NotFlag
  ends the flags; BadFlag is a syntax error.
\<close>

datatype flagArg = NotFlag | BadFlag | FlagArg string "string option"

definition flag_syntax :: "string \<Rightarrow> flagArg" where
  "flag_syntax s =
     (case s of
        CHR ''-'' # rest \<Rightarrow>
          (if rest = [] then NotFlag
           else if s = ''--'' then NotFlag
           else
             (let name = (if hd rest = CHR ''-'' then tl rest else rest) in
              if name = [] \<or> hd name = CHR ''-'' \<or> hd name = CHR ''='' then BadFlag
              else (case split_on (CHR ''='') name of
                      n # [] \<Rightarrow> FlagArg n None
                    | n # vs \<Rightarrow> FlagArg n (Some (join_with ''='' vs))
                    | [] \<Rightarrow> BadFlag)))
      | _ \<Rightarrow> NotFlag)"

text \<open>A flag with its value, which may be the next argument, and the arguments left.\<close>

definition flag_take :: "string \<Rightarrow> string list \<Rightarrow> (string \<times> string \<times> string list) option" where
  "flag_take a args =
     (case flag_syntax a of
        FlagArg name value \<Rightarrow>
          (if is_bool_flag name then Some (name, (case value of Some x \<Rightarrow> x | None \<Rightarrow> ''true''), args)
           else (case (value, args) of
                   (Some x, _) \<Rightarrow> Some (name, x, args)
                 | (None, x # args') \<Rightarrow> Some (name, x, args')
                 | (None, []) \<Rightarrow> None))
      | _ \<Rightarrow> None)"

lemma flag_take_length: "flag_take a args = Some (name, value, args') \<Longrightarrow> length args' \<le> length args"
  by (auto simp: flag_take_def split: flagArg.splits option.splits list.splits if_splits)

text \<open>
  \<open>FlagSet.Parse\<close> with \<open>ContinueOnError\<close>: it stops at the first argument that is not a flag and at
  the first error, silently, and keeps what was set before.
\<close>

function parse_args :: "(string \<Rightarrow> string \<Rightarrow> 'v \<Rightarrow> ('v \<times> bool) option) \<Rightarrow> string list \<Rightarrow> 'v \<Rightarrow> 'v" where
  "parse_args setter [] v = v"
| "parse_args setter (a # args) v =
     (case flag_take a args of
        None \<Rightarrow> v
      | Some (name, value, args') \<Rightarrow>
          (case setter name value v of
             None \<Rightarrow> v
           | Some (v', ok) \<Rightarrow> if ok then parse_args setter args' v' else v'))"
  by pat_completeness auto

termination
  by (relation "measure (\<lambda>(_, args, _). length args)") (auto dest: flag_take_length)

definition parse_flags :: "(string \<Rightarrow> i64 \<times> bool) \<Rightarrow> string list \<Rightarrow> defaultValues \<Rightarrow> defaultValues" where
  "parse_flags parseInt0 = parse_args (set_flag parseInt0)"

section \<open>The defaults\<close>

definition ascii_upper :: "char \<Rightarrow> char" where
  "ascii_upper c = (if 97 \<le> (of_char c :: nat) \<and> (of_char c :: nat) \<le> 122 then char_of (of_char c - 32 :: nat) else c)"

text \<open>None: the process prints the version and exits.\<close>

definition newDefaults :: "(string \<Rightarrow> i64 \<times> bool) \<Rightarrow> (string \<Rightarrow> string) \<Rightarrow> string list \<Rightarrow> defaultValues option" where
  "newDefaults parseInt0 getenv args =
     (let values = \<lparr>dv_appName = ''gostandalone'', dv_endpoint = '''', dv_locators = [defaultLocatorEndpoint],
            dv_protocol = defaultProtocolVersion, dv_uuid = '''',
            dv_debug = (map ascii_upper (getenv ''DEBUG'') = ''DEBUG''), dv_token = ('''', ''''), dv_showVersion = False\<rparr>;
          parsed = (parse_flags parseInt0 args values)
            \<lparr>dv_token := (getenv ''COCAINE_APP_TOKEN_TYPE'', getenv ''COCAINE_APP_TOKEN_BODY'')\<rparr> in
      if dv_showVersion parsed then None else Some parsed)"

text \<open>\<open>DC()\<close> answers the same for every configuration.\<close>

definition defaults_DC :: "defaultValues \<Rightarrow> string" where "defaults_DC v = ''global''"

section \<open>Lemmas\<close>

lemma split_on_ne [simp]: "split_on sep s \<noteq> []"
  by (induction s) (auto split: list.splits)

lemma join_split: "join_with [sep] (split_on sep s) = s"
proof (induction s)
  case (Cons c cs)
  show ?case
  proof (cases "split_on sep cs")
    case (Cons w ws)
    with Cons.IH show ?thesis by (cases ws) auto
  qed simp
qed simp

lemma split_join:
  "ls \<noteq> [] \<Longrightarrow> \<forall>l \<in> set ls. sep \<notin> set l \<Longrightarrow> split_on sep (join_with [sep] ls) = ls"
proof (induction "[sep]" ls rule: join_with.induct)
  case (2 w)
  then have "sep \<notin> set w" by simp
  then show ?case by (induction w) auto
next
  case (3 w x ws)
  have "split_on sep (u @ sep # s) = u # split_on sep s" if "sep \<notin> set u" for u s
    using that by (induction u) auto
  with 3 show ?case by simp
qed simp

lemma parseLocators_split: "parseLocators s = split_on comma s"
proof -
  have "comma \<notin> set s \<Longrightarrow> split_on comma s = [s]" by (induction s) auto
  then show ?thesis by (simp add: parseLocators_def)
qed

lemma parse_flags_simps [simp]:
  "parse_flags p [] v = v"
  "parse_flags p (a # args) v =
     (case flag_take a args of
        None \<Rightarrow> v
      | Some (name, value, args') \<Rightarrow>
          (case set_flag p name value v of
             None \<Rightarrow> v
           | Some (v', ok) \<Rightarrow> if ok then parse_flags p args' v' else v'))"
  unfolding parse_flags_def parse_args.simps by (rule refl)+

lemma set_flag_locators: "set_flag p name value v = Some (v', ok) \<Longrightarrow> dv_locators v \<noteq> [] \<Longrightarrow> dv_locators v' \<noteq> []"
  by (auto simp: set_flag_def parseLocators_split split: if_splits)

lemma parse_flags_locators: "dv_locators v \<noteq> [] \<Longrightarrow> dv_locators (parse_flags p args v) \<noteq> []"
proof (induction "set_flag p" args v rule: parse_args.induct)
  case (2 a args v)
  show ?case
  proof (cases "flag_take a args")
    case (Some t)
    obtain name x args' where t: "t = (name, x, args')" by (cases t) auto
    show ?thesis
    proof (cases "set_flag p name x v")
      case (Some r)
      obtain v' ok where r: "r = (v', ok)" by (cases r)
      have "dv_locators v' \<noteq> []" using set_flag_locators Some r "2.prems" by blast
      with "2.hyps" [OF \<open>flag_take a args = Some t\<close> t [symmetric] refl Some r [symmetric]] show ?thesis
        by (simp add: \<open>flag_take a args = Some t\<close> t Some r)
    qed (use "2.prems" in \<open>simp add: Some t\<close>)
  qed (use "2.prems" in simp)
qed simp

lemma newDefaults_locators: "newDefaults p getenv args = Some v \<Longrightarrow> dv_locators v \<noteq> []"
  by (auto simp: newDefaults_def Let_def parse_flags_locators split: if_splits)

text \<open>An argument \<open>--name\<close> followed by a value.\<close>

lemma flag_take_pair:
  assumes "name \<noteq> []" and "CHR ''-'' \<noteq> hd name" and "CHR ''='' \<notin> set name" and "\<not> is_bool_flag name"
  shows "flag_take (''--'' @ name) (x # args) = Some (name, x, args)"
proof -
  have "split_on (CHR ''='') name = [name]" using assms(3) by (induction name) auto
  moreover have "hd name \<noteq> CHR ''=''" using assms(1,3) by (cases name) auto
  ultimately show ?thesis using assms by (simp add: flag_take_def flag_syntax_def)
qed

section \<open>Properties\<close>

text \<open>A locator can always be tried. Whatever arguments and environment a process is started with,
  its configuration names at least one locator; hence \<open>NewLocator\<close> without endpoints always dials
  one, and returns a connection or the error of the last one tried, never neither.\<close>

theorem defaults_locator_dialled:
  assumes "newDefaults parseInt0 getenv args = Some v"
  shows "(\<exists>e. e \<in> set (dv_locators v) \<and>
           NewLocator_dial (dv_locators v) dial [] = Inr (Some (projr (dial e))) \<and> \<not> isl (dial e)) \<or>
         NewLocator_dial (dv_locators v) dial [] = Inl (projl (dial (last (dv_locators v)))) \<and>
           (\<forall>e \<in> set (dv_locators v). isl (dial e))"
proof -
  let ?ls = "dv_locators v"
  have ne: "?ls \<noteq> []" by (rule newDefaults_locators [OF assms])
  show ?thesis
  proof (cases "List.find (\<lambda>e. \<not> isl (dial e)) ?ls")
    case None
    then have "\<forall>e \<in> set ?ls. isl (dial e)" by (auto simp: find_None_iff)
    with None locator_dial_spec [OF ne, of dial] show ?thesis by (simp add: NewLocator_dial_def)
  next
    case (Some e)
    then have "e \<in> set ?ls" "\<not> isl (dial e)" by (auto simp: find_Some_iff)
    with Some locator_dial_spec [OF ne, of dial] show ?thesis by (auto simp: NewLocator_dial_def)
  qed
qed

theorem defaults_locator_dialled_witness:
  "NewLocator_dial [''a:1'', ''b:2''] (\<lambda>e. if e = ''b:2'' then Inr e else Inl EOF) [] = Inr (Some ''b:2'')"
proof -
  have syn: "flag_take ''--locator'' [''a:1,b:2''] = Some (''locator'', ''a:1,b:2'', [])"
    using flag_take_pair [of "''locator''" "''a:1,b:2''" "[]"] by (simp add: is_bool_flag_def)
  have "newDefaults (\<lambda>_. (0, True)) (\<lambda>_. '''') [''--locator'', ''a:1,b:2''] =
     Some \<lparr>dv_appName = ''gostandalone'', dv_endpoint = '''', dv_locators = [''a:1'', ''b:2''],
            dv_protocol = defaultProtocolVersion, dv_uuid = '''', dv_debug = False, dv_token = ('''', ''''),
            dv_showVersion = False\<rparr>"
    by (simp add: newDefaults_def syn set_flag_def parseLocators_def comma_def)
  from defaults_locator_dialled [OF this, of "\<lambda>e. if e = ''b:2'' then Inr e else Inl EOF"] show ?thesis by auto
qed

text \<open>The flags the runtime passes are understood. Given as \<open>--name value\<close> pairs, in any order and
  number, with any values (a value may look like a flag), they are applied in order, so the last of
  a name wins; parsing stops without an error at the first argument that is not a flag.\<close>

theorem parse_flags_pairs:
  assumes "\<forall>(name, x) \<in> set kvs. name \<in> set [''app'', ''endpoint'', ''locator'', ''uuid'']"
  shows "parse_flags parseInt0 (concat (map (\<lambda>(name, x). [''--'' @ name, x]) kvs) @ rest) v =
    parse_flags parseInt0 rest (fold (\<lambda>(name, x) v. fst (the (set_flag parseInt0 name x v))) kvs v)"
  using assms
proof (induction kvs arbitrary: v)
  case (Cons kv kvs)
  obtain name x where kv: "kv = (name, x)" by (cases kv)
  with Cons.prems have name: "name \<in> set [''app'', ''endpoint'', ''locator'', ''uuid'']" by simp
  then have "flag_take (''--'' @ name) (x # as) = Some (name, x, as)" for as
    by (intro flag_take_pair) (auto simp: is_bool_flag_def)
  moreover have "\<exists>v'. set_flag parseInt0 name x v = Some (v', True)" using name by (auto simp: set_flag_def)
  ultimately show ?case using Cons.IH Cons.prems by (auto simp: kv)
qed simp

theorem parse_flags_pairs_witness:
  "\<forall>v. dv_uuid (parse_flags (\<lambda>_. (0, True)) [''--uuid'', ''x'', ''--uuid'', ''--app'', ''file''] v) = ''--app''"
  using parse_flags_pairs [of "[(''uuid'', ''x''), (''uuid'', ''--app'')]" "\<lambda>_. (0, True)" "[''file'']"]
  by (simp add: set_flag_def flag_take_def flag_syntax_def)

text \<open>Locator lists survive printing and parsing, in both directions.\<close>

theorem locators_roundtrip:
  "locators_String (parseLocators s) = s \<and>
   (ls \<noteq> [] \<longrightarrow> (\<forall>l \<in> set ls. comma \<notin> set l) \<longrightarrow> parseLocators (locators_String ls) = ls)"
  by (simp add: locators_String_def parseLocators_split join_split split_join)

end
