(* ===== verification/Tokens.thy ===== *)
theory Tokens
  imports Prelude "HOL-Library.List_Lexorder" "HOL-Library.Char_ord"
begin

text \<open>
  Authorization tokens: the registry of token managers (\<open>cocaine12/token.go\<close>) and the manager of
  TVM tickets (\<open>auth/tvm/tvm.go\<close>), whose goroutine refreshes its ticket every
  \<open>tokenRefreshTimeout\<close>. The interface \<open>TokenManager\<close> is the locale \<open>token_manager\<close>.
\<close>

section \<open>Tokens and the registry\<close>

record token =
  ty :: string
  body :: string

definition NewToken :: "string \<Rightarrow> string \<Rightarrow> token" where
  "NewToken t b = \<lparr>ty = t, body = b\<rparr>"

text \<open>The registry is a map that is iterated over, so a list; a nil factory is None.\<close>

type_synonym 'f registry = "(string \<times> 'f) list"

definition Register :: "string \<Rightarrow> 'f option \<Rightarrow> 'f registry \<Rightarrow> 'f registry go" where
  "Register name factory factories =
     (case factory of
        None \<Rightarrow> Panic (UserPanic ''cocaine: TokenManagerFactory is nil'')
      | Some f \<Rightarrow>
          if name \<in> fst ` set factories
          then Panic (UserPanic (''cocaine: Register called twice for token manager factory '' @ name))
          else Ret (factories @ [(name, f)]))"

definition TokenManagers :: "'f registry \<Rightarrow> string list" where
  "TokenManagers factories = sort (map fst factories)"

text \<open>The manager a token's type selects: Inl the no-op one, Inr what the factory creates.\<close>

definition NewTokenManager :: "'f registry \<Rightarrow> ('f \<Rightarrow> string \<Rightarrow> token \<Rightarrow> goerr + 'm) \<Rightarrow> string \<Rightarrow> token
    \<Rightarrow> goerr + (unit + 'm)" where
  "NewTokenManager factories Create appName t =
     (case map_of factories (ty t) of
        Some factory \<Rightarrow> (case Create factory appName t of Inl err \<Rightarrow> Inl err | Inr m \<Rightarrow> Inr (Inr m))
      | None \<Rightarrow> Inr (Inl ()))"

text \<open>The no-op manager: always the empty token.\<close>

definition NullTokenManager_Token :: "unit \<Rightarrow> token" where "NullTokenManager_Token m = \<lparr>ty = '''', body = ''''\<rparr>"
definition NullTokenManager_Stop :: "unit \<Rightarrow> unit" where "NullTokenManager_Stop m = m"

section \<open>TVM tickets\<close>

definition tvmTokenType :: string where "tvmTokenType = ''TVM''"
definition tokenRefreshTimeout :: nat where "tokenRefreshTimeout = 15"

text \<open>\<open>tv_asked\<close>: the arguments of the \<open>refresh_ticket\<close> calls made so far.\<close>

record tvm =
  tv_appName :: string
  tv_ticket :: token
  tv_cancelled :: bool
  tv_ticker_stopped :: bool
  tv_returned :: bool
  tv_asked :: "(string \<times> string) list"

definition tvm_Create :: "goerr option \<Rightarrow> string \<Rightarrow> token \<Rightarrow> goerr + tvm" where
  "tvm_Create serviceErr appName t =
     (case serviceErr of
        Some err \<Rightarrow> Inl err
      | None \<Rightarrow> Inr \<lparr>tv_appName = appName, tv_ticket = t, tv_cancelled = False, tv_ticker_stopped = False,
                    tv_returned = False, tv_asked = []\<rparr>)"

definition tvm_Token :: "tvm \<Rightarrow> token" where "tvm_Token t = tv_ticket t"

definition tvm_Stop :: "tvm \<Rightarrow> tvm" where "tvm_Stop t = t\<lparr>tv_cancelled := True\<rparr>"

text \<open>
  The goroutine: a tick, with how the call, the answer and its extraction went, and the end of
  the context. \<open>TvmStop\<close> is a call of \<open>Stop\<close> from outside.
\<close>

datatype refresh = CallFailed goerr | GetFailed goerr | ExtractFailed goerr | Refreshed string

datatype tvmevent = Tick refresh | CtxEnd | TvmStop

fun tvm_run :: "tvm \<Rightarrow> tvmevent \<Rightarrow> tvm option" where
  "tvm_run t (Tick outcome) =
     (if tv_returned t \<or> tv_ticker_stopped t then None
      else
        (let t1 = t\<lparr>tv_asked := tv_asked t @ [(tv_appName t, body (tv_ticket t))]\<rparr> in
         Some (case outcome of Refreshed result \<Rightarrow> t1\<lparr>tv_ticket := NewToken tvmTokenType result\<rparr> | _ \<Rightarrow> t1)))"
| "tvm_run t CtxEnd =
     (if tv_returned t \<or> \<not> tv_cancelled t then None else Some (t\<lparr>tv_ticker_stopped := True, tv_returned := True\<rparr>))"
| "tvm_run t TvmStop = Some (tvm_Stop t)"

section \<open>The interface\<close>

locale token_manager =
  fixes Token :: "'m \<Rightarrow> token"
    and Stop :: "'m \<Rightarrow> 'm"
  assumes stop_token: "Token (Stop m) = Token m"
    and stop_twice: "Stop (Stop m) = Stop m"
begin

lemma stops_token: "Token ((Stop ^^ n) m) = Token m"
  by (induction n) (simp_all add: stop_token)

lemma stops_once: "0 < n \<Longrightarrow> (Stop ^^ n) m = Stop m"
proof (induction n)
  case (Suc n)
  then show ?case by (cases n) (simp_all add: stop_twice)
qed simp

end

interpretation ntm: token_manager NullTokenManager_Token NullTokenManager_Stop
  by unfold_locales (simp_all add: NullTokenManager_Stop_def)

interpretation tvm: token_manager tvm_Token tvm_Stop
  by unfold_locales (simp_all add: tvm_Token_def tvm_Stop_def)

section \<open>Histories\<close>

fun refreshed :: "tvmevent \<Rightarrow> string list" where
  "refreshed (Tick (Refreshed r)) = [r]"
| "refreshed _ = []"

text \<open>The ticket presented by each refresh, starting from the ticket \<open>b\<close>.\<close>

fun presented :: "string \<Rightarrow> tvmevent list \<Rightarrow> string list" where
  "presented b [] = []"
| "presented b (Tick (Refreshed r) # es) = b # presented r es"
| "presented b (Tick _ # es) = b # presented b es"
| "presented b (_ # es) = presented b es"

definition tickets :: "tvmevent list \<Rightarrow> string list" where "tickets es = concat (map refreshed es)"

lemma tickets_simps [simp]: "tickets [] = []" "tickets (e # es) = refreshed e @ tickets es"
  by (simp_all add: tickets_def)

lemma tvm_run_history:
  "run tvm_run m es = Some t \<Longrightarrow>
     tv_ticket t = (if tickets es = [] then tv_ticket m else NewToken tvmTokenType (last (tickets es))) \<and>
     tv_asked t = tv_asked m @ map (Pair (tv_appName m)) (presented (body (tv_ticket m)) es)"
proof (induction es arbitrary: m)
  case (Cons e es)
  then obtain u where u: "tvm_run m e = Some u" "run tvm_run u es = Some t" by (auto split: option.splits)
  from Cons.IH [OF u(2)] u(1) show ?case
    by (cases "(m, e)" rule: tvm_run.cases)
      (auto simp: Let_def tvm_Stop_def NewToken_def split: if_splits refresh.splits)
qed simp

lemma tvm_run_stops:
  "run tvm_run m es = Some t \<Longrightarrow> (tv_returned m \<longrightarrow> tv_cancelled m \<and> tv_ticker_stopped m) \<Longrightarrow>
     (tv_cancelled t \<longrightarrow> tv_cancelled m \<or> TvmStop \<in> set es) \<and> (tv_returned t \<longrightarrow> tv_cancelled t \<and> tv_ticker_stopped t)"
proof (induction es arbitrary: m)
  case (Cons e es)
  then obtain u where u: "tvm_run m e = Some u" "run tvm_run u es = Some t" by (auto split: option.splits)
  from Cons.prems(2) u(1) have "tv_returned u \<longrightarrow> tv_cancelled u \<and> tv_ticker_stopped u"
      "tv_cancelled u \<longrightarrow> tv_cancelled m \<or> e = TvmStop"
    by (cases e; auto simp: Let_def tvm_Stop_def split: if_splits refresh.splits)+
  with Cons.IH [OF u(2)] show ?case by auto
qed simp

text \<open>The registry under any sequence of registrations that do not panic.\<close>

fun Registers :: "(string \<times> 'f option) list \<Rightarrow> 'f registry \<Rightarrow> 'f registry go" where
  "Registers [] reg = Ret reg"
| "Registers ((name, f) # rs) reg = go_bind (Register name f reg) (Registers rs)"

lemma Registers_eq: "Registers rs reg = Ret reg' \<Longrightarrow> alist_ok reg \<Longrightarrow>
    alist_ok reg' \<and> reg' = reg @ map (\<lambda>(n, f). (n, the f)) rs \<and> list_all (\<lambda>(n, f). f \<noteq> None) rs"
proof (induction rs reg rule: Registers.induct)
  case (2 name f rs reg)
  then obtain g where g: "f = Some g" "name \<notin> fst ` set reg" "Registers rs (reg @ [(name, g)]) = Ret reg'"
    by (auto simp: Register_def split: option.splits if_splits)
  have "Register name f reg = Ret (reg @ [(name, g)])" using g by (simp add: Register_def)
  moreover have "alist_ok (reg @ [(name, g)])" using g(2) "2.prems"(2) by (auto simp: alist_ok_def)
  ultimately have "alist_ok reg' \<and> reg' = (reg @ [(name, g)]) @ map (\<lambda>(n, f). (n, the f)) rs \<and>
      list_all (\<lambda>(n, f). f \<noteq> None) rs"
    using "2.IH" g(3) by blast
  then show ?case unfolding g(1) by auto
qed simp

section \<open>Properties\<close>

text \<open>C39: a ticket is always the freshest one obtained. Whatever the order of ticks, failures and
  stops, the manager's token is the last ticket the service returned (of type TVM), or the one it
  was created with if there was none; each refresh presents the ticket in force at that moment;
  and once the goroutine has returned, which it does only after \<open>Stop\<close>, the ticket never changes.\<close>

theorem tvm_ticket_fresh:
  assumes "tvm_Create None appName t0 = Inr m" and "run tvm_run m es = Some t"
  shows "tvm_Token t = (if tickets es = [] then t0 else NewToken tvmTokenType (last (tickets es))) \<and>
    tv_asked t = map (Pair appName) (presented (body t0) es) \<and>
    (tv_returned t \<longrightarrow> TvmStop \<in> set es) \<and>
    (tv_returned t \<longrightarrow> (\<forall>e u. tvm_run t e = Some u \<longrightarrow> tvm_Token u = tvm_Token t))"
proof -
  have m: "m = \<lparr>tv_appName = appName, tv_ticket = t0, tv_cancelled = False, tv_ticker_stopped = False,
      tv_returned = False, tv_asked = []\<rparr>" using assms(1) by (simp add: tvm_Create_def)
  have "tv_returned t \<Longrightarrow> tvm_run t e = Some u \<Longrightarrow> tv_ticket u = tv_ticket t" for e u
    by (cases e) (auto simp: tvm_Stop_def)
  with tvm_run_history [OF assms(2)] tvm_run_stops [OF assms(2)] show ?thesis by (auto simp: tvm_Token_def m)
qed

theorem tvm_ticket_fresh_witness:
  "tvm_Token \<lparr>tv_appName = ''app'', tv_ticket = NewToken tvmTokenType ''b'', tv_cancelled = False,
      tv_ticker_stopped = False, tv_returned = False, tv_asked = [(''app'', ''a''), (''app'', ''b'')]\<rparr> =
    NewToken tvmTokenType ''b''"
proof -
  let ?t = "\<lparr>tv_appName = ''app'', tv_ticket = NewToken tvmTokenType ''b'', tv_cancelled = False,
      tv_ticker_stopped = False, tv_returned = False, tv_asked = [(''app'', ''a''), (''app'', ''b'')]\<rparr>"
  have c: "tvm_Create None ''app'' (NewToken tvmTokenType ''a'') = Inr \<lparr>tv_appName = ''app'',
      tv_ticket = NewToken tvmTokenType ''a'', tv_cancelled = False, tv_ticker_stopped = False, tv_returned = False, tv_asked = []\<rparr>"
    by (simp add: tvm_Create_def)
  have r: "run tvm_run \<lparr>tv_appName = ''app'', tv_ticket = NewToken tvmTokenType ''a'', tv_cancelled = False,
      tv_ticker_stopped = False, tv_returned = False, tv_asked = []\<rparr> [Tick (Refreshed ''b''), Tick (GetFailed EOF)] = Some ?t"
    by (simp add: NewToken_def)
  from tvm_ticket_fresh [OF c r] show ?thesis by (simp add: tickets_def)
qed

text \<open>The registry is a map. After any registrations that do not panic, \<open>TokenManagers\<close> lists
  every registered name once, in order; the type of a token selects the factory registered under
  it, or the no-op manager; and registering a name twice, or nil, panics.\<close>

theorem token_registry:
  assumes "Registers rs [] = Ret reg"
  shows "sorted (TokenManagers reg) \<and> distinct (TokenManagers reg) \<and> set (TokenManagers reg) = fst ` set rs \<and>
    (\<forall>f appName t. (ty t, f) \<in> set rs \<longrightarrow> NewTokenManager reg Create appName t =
       (case Create (the f) appName t of Inl err \<Rightarrow> Inl err | Inr m \<Rightarrow> Inr (Inr m))) \<and>
    (\<forall>appName t. ty t \<notin> fst ` set rs \<longrightarrow> NewTokenManager reg Create appName t = Inr (Inl ())) \<and>
    (\<forall>name \<in> fst ` set rs. \<forall>f. \<exists>p. Register name f reg = Panic p)"
proof -
  from Registers_eq [OF assms] have reg: "reg = map (\<lambda>(n, f). (n, the f)) rs" and ok: "distinct (map fst reg)"
    unfolding alist_ok_def by auto
  have names: "fst ` set reg = fst ` set rs" by (force simp: reg)
  have found: "map_of reg (ty t) = Some (the f)" if "(ty t, f) \<in> set rs" for t f
    using that ok by (intro map_of_is_SomeI) (force simp: reg)+
  have missing: "map_of reg (ty t) = None" if "ty t \<notin> fst ` set rs" for t
    using that by (simp add: map_of_eq_None_iff names)
  have "\<exists>p. Register name f reg = Panic p" if "name \<in> fst ` set rs" for name f
    using that by (auto simp: Register_def names split: option.splits)
  then show ?thesis
    using ok names by (auto simp: TokenManagers_def NewTokenManager_def found missing)
qed

theorem token_registry_witness:
  "TokenManagers [(''TVM'', 1), (''OAUTH'', 2::nat)] = [''OAUTH'', ''TVM''] \<and>
   NewTokenManager [(''TVM'', 1), (''OAUTH'', 2::nat)] (\<lambda>f a t. Inr f) ''app'' (NewToken ''OAUTH'' ''x'') = Inr (Inr 2)"
proof -
  have "Registers [(''TVM'', Some 1), (''OAUTH'', Some (2::nat))] [] = Ret [(''TVM'', 1), (''OAUTH'', 2)]"
    by (simp add: Register_def)
  from token_registry [OF this, of "\<lambda>f a t. Inr f"] show ?thesis
    by (auto simp: NewToken_def TokenManagers_def)
qed

end
