(* ===== verification/Stack.thy ===== *)
theory Stack
  imports Prelude
begin

text \<open>
  The stack dump of \<open>cocaine12/stack.go\<close>: a buffer that is doubled until the dump fits. The number
  of goroutines may change between the calls of \<open>runtime.Stack\<close>: \<open>dumps i\<close> is what the call number
  \<open>i\<close> would write into a buffer that is large enough.
\<close>

definition initialBufferLen :: i64 where "initialBufferLen = 16384"

text \<open>\<open>runtime.Stack\<close> into a fresh buffer of \<open>n\<close> bytes: the buffer and the number of bytes written.\<close>

definition runtime_Stack :: "bytes \<Rightarrow> nat \<Rightarrow> bytes \<times> nat" where
  "runtime_Stack d n = (take n d @ replicate (n - length d) 0, min n (length d))"

text \<open>
  The loop: \<open>buf\<close> and \<open>stackSize\<close> of the last round, the next length, and the number of the next
  call. A negative length makes \<open>make\<close> panic. None: the loop does not end.
\<close>

partial_function (option) dumpStack_loop :: "(nat \<Rightarrow> bytes) \<Rightarrow> bytes \<Rightarrow> nat \<Rightarrow> i64 \<Rightarrow> nat \<Rightarrow> bytes go option" where
  "dumpStack_loop dumps buf stackSize bufferLen i =
     (if stackSize = length buf then
        (if bufferLen <s 0 then Some (Panic SliceBounds)
         else (case runtime_Stack (dumps i) (unat bufferLen) of
                 (buf', n) \<Rightarrow> dumpStack_loop dumps buf' n (2 * bufferLen) (Suc i)))
      else Some (Ret (take stackSize buf)))"

definition dumpStack :: "(nat \<Rightarrow> bytes) \<Rightarrow> bytes go option" where
  "dumpStack dumps = dumpStack_loop dumps [] 0 initialBufferLen 0"

section \<open>Lemmas\<close>

definition round_len :: "nat \<Rightarrow> nat" where "round_len i = 16384 * 2 ^ i"

lemma round_len_bound: "i < 49 \<Longrightarrow> round_len i < 2 ^ 63"
proof -
  assume "i < 49"
  then have "(2::nat) ^ i \<le> 2 ^ 48" by (intro power_increasing) auto
  then show ?thesis by (simp add: round_len_def)
qed

lemma round_word:
  assumes "i < 49"
  shows "unat (word_of_nat (round_len i) :: i64) = round_len i" "\<not> (word_of_nat (round_len i) :: i64) <s 0"
    "2 * (word_of_nat (round_len i) :: i64) = word_of_nat (round_len (Suc i))"
proof -
  have b: "round_len i < 2 ^ 63" by (rule round_len_bound [OF assms])
  then show "unat (word_of_nat (round_len i) :: i64) = round_len i" by (simp add: unat_of_nat)
  have "sint (word_of_nat (round_len i) :: i64) = int (round_len i)"
    using b by (simp add: signed_of_nat signed_take_bit_int_eq_self)
  then show "\<not> (word_of_nat (round_len i) :: i64) <s 0" by (simp add: word_sless_alt)
  show "2 * (word_of_nat (round_len i) :: i64) = word_of_nat (round_len (Suc i))" by (simp add: round_len_def)
qed

text \<open>From a full buffer the loop goes on until the first dump that leaves room.\<close>

lemma dumpStack_rounds:
  assumes "k < 49" and "length (dumps k) < round_len k" and "\<And>j. i \<le> j \<Longrightarrow> j < k \<Longrightarrow> round_len j \<le> length (dumps j)"
  shows "i \<le> k \<Longrightarrow> length buf = n \<Longrightarrow>
    dumpStack_loop dumps buf n (word_of_nat (round_len i)) i = Some (Ret (dumps k))"
  using assms(3)
proof (induction "k - i" arbitrary: i buf n)
  case 0
  then have i: "i = k" by simp
  note w = round_word [OF assms(1)]
  let ?buf = "dumps k @ replicate (round_len k - length (dumps k)) 0"
  have "dumpStack_loop dumps buf n (word_of_nat (round_len k)) k =
      dumpStack_loop dumps ?buf (length (dumps k)) (word_of_nat (round_len (Suc k))) (Suc k)"
    using assms(2) w 0(3) by (subst dumpStack_loop.simps) (simp add: runtime_Stack_def)
  also have "\<dots> = Some (Ret (dumps k))"
    using assms(2) by (subst dumpStack_loop.simps) simp
  finally show ?case using i by simp
next
  case (Suc m)
  then have lt: "i < k" and "i < 49" using assms(1) by auto
  note w = round_word [OF this(2)]
  have full: "round_len i \<le> length (dumps i)" using Suc.prems(3) lt by simp
  let ?buf = "take (round_len i) (dumps i)"
  have "dumpStack_loop dumps buf n (word_of_nat (round_len i)) i =
      dumpStack_loop dumps ?buf (round_len i) (word_of_nat (round_len (Suc i))) (Suc i)"
    using full w Suc.prems(2) by (subst dumpStack_loop.simps) (simp add: runtime_Stack_def)
  also have "\<dots> = Some (Ret (dumps k))"
    using lt full Suc(2) Suc.prems(3) by (intro Suc.hyps(1)) auto
  finally show ?case .
qed

section \<open>Properties\<close>



end
