(* ===== verification/AsyncBuf.thy ===== *)
theory AsyncBuf
  imports Relay
begin

text \<open>
  The unbounded message buffer \<open>asyncBuff\<close> of \<open>cocaine12/asocket.go\<close>: a goroutine that loops
  around a \<open>select\<close>. The record holds the goroutine's variables and the state of the channels
  it shares (whether \<open>in\<close> and \<open>stop\<close> are closed; \<open>out\<close> and \<open>wait\<close> are closed exactly when
  the goroutine has returned). A channel variable set to nil is a flag set to False.
\<close>

section \<open>The loop\<close>

record 'm asyncBuff =
  pending :: "'m list"
  ab_input :: bool \<comment> \<open>\<open>input\<close> is not nil\<close>
  ab_stopped :: bool \<comment> \<open>\<open>stopped\<close> is not nil\<close>
  ab_quit :: bool \<comment> \<open>\<open>quitAfterTimeout\<close> is not nil\<close>
  ab_finished :: bool
  ab_returned :: bool
  ab_in_closed :: bool
  ab_stop_closed :: bool

definition newAsyncBuf :: "'m asyncBuff" where
  "newAsyncBuf = \<lparr>pending = [], ab_input = True, ab_stopped = True, ab_quit = False,
     ab_finished = False, ab_returned = False, ab_in_closed = False, ab_stop_closed = False\<rparr>"

text \<open>
  The cases of the \<open>select\<close>, and the two closings the environment does. \<open>Incoming\<close> and
  \<open>Deliver\<close> are rendezvous on unbuffered channels, so they carry the message.
\<close>

datatype 'm abevent =
    Incoming 'm
  | InputClosed
  | Deliver 'm
  | StopTimeout \<comment> \<open>\<open>Drain\<close> passed a timeout channel\<close>
  | StopClosed
  | TimeoutFired
  | EnvCloseIn
  | EnvCloseStop

fun asyncBuff_select :: "'m asyncBuff \<Rightarrow> 'm abevent \<Rightarrow> 'm asyncBuff option" where
  "asyncBuff_select b (Incoming m) =
     (if ab_input b \<and> \<not> ab_in_closed b then Some (b\<lparr>pending := pending b @ [m]\<rparr>) else None)"
| "asyncBuff_select b InputClosed =
     (if ab_input b \<and> ab_in_closed b then Some (b\<lparr>ab_finished := True, ab_input := False\<rparr>) else None)"
| "asyncBuff_select b (Deliver m) =
     (case pending b of
        [] \<Rightarrow> None
      | candidate # rest \<Rightarrow> if candidate = m then Some (b\<lparr>pending := rest\<rparr>) else None)"
| "asyncBuff_select b StopTimeout =
     (if ab_stopped b \<and> \<not> ab_stop_closed b then Some (b\<lparr>ab_stopped := False, ab_quit := True\<rparr>) else None)"
| "asyncBuff_select b StopClosed =
     (if ab_stopped b \<and> ab_stop_closed b then Some (b\<lparr>ab_returned := True\<rparr>) else None)"
| "asyncBuff_select b TimeoutFired =
     (if ab_quit b then Some (b\<lparr>ab_returned := True\<rparr>) else None)"
| "asyncBuff_select b EnvCloseIn = (if ab_in_closed b then None else Some (b\<lparr>ab_in_closed := True\<rparr>))"
| "asyncBuff_select b EnvCloseStop = (if ab_stop_closed b then None else Some (b\<lparr>ab_stop_closed := True\<rparr>))"

text \<open>The head of the \<open>for\<close> loop: return once the queue is empty and no more is expected.\<close>

definition asyncBuff_head :: "'m asyncBuff \<Rightarrow> 'm asyncBuff" where
  "asyncBuff_head b = (if pending b = [] \<and> ab_finished b then b\<lparr>ab_returned := True\<rparr> else b)"

definition asyncBuff_loop :: "'m asyncBuff \<Rightarrow> 'm abevent \<Rightarrow> 'm asyncBuff option" where
  "asyncBuff_loop b e =
     (if ab_returned b then None else map_option asyncBuff_head (asyncBuff_select b e))"

section \<open>Stop and Drain\<close>

text \<open>
  \<open>Stop\<close> closes \<open>stop\<close> (closing a closed channel panics) and waits a second at most for the
  goroutine. \<open>Drain\<close> offers a timeout channel first; \<open>accepted\<close> says which case of its
  \<open>select\<close> is taken, and the result is None when that case cannot be taken.
\<close>

definition asyncBuff_Stop :: "'m asyncBuff \<Rightarrow> 'm asyncBuff go" where
  "asyncBuff_Stop b = (if ab_stop_closed b then Panic CloseOfClosed else Ret (b\<lparr>ab_stop_closed := True\<rparr>))"

definition asyncBuff_Drain :: "bool \<Rightarrow> 'm asyncBuff \<Rightarrow> 'm asyncBuff go option" where
  "asyncBuff_Drain accepted b =
     (if accepted then
        (if ab_stop_closed b then Some (Panic SendOnClosed)
         else map_option asyncBuff_Stop (asyncBuff_loop b StopTimeout))
      else Some (asyncBuff_Stop b))"

section \<open>What an event receives and delivers\<close>

fun ab_recv :: "'m abevent \<Rightarrow> 'm list" where
  "ab_recv (Incoming m) = [m]"
| "ab_recv _ = []"

fun ab_sent :: "'m abevent \<Rightarrow> 'm list" where
  "ab_sent (Deliver m) = [m]"
| "ab_sent _ = []"

fun ab_abort :: "'m abevent \<Rightarrow> bool" where
  "ab_abort StopClosed = True"
| "ab_abort TimeoutFired = True"
| "ab_abort _ = False"

abbreviation received :: "'m abevent list \<Rightarrow> 'm list" where
  "received es \<equiv> concat (map ab_recv es)"

abbreviation delivered :: "'m abevent list \<Rightarrow> 'm list" where
  "delivered es \<equiv> concat (map ab_sent es)"

lemma asyncBuff_head_simps [simp]:
  "pending (asyncBuff_head b) = pending b" "ab_input (asyncBuff_head b) = ab_input b"
  "ab_stopped (asyncBuff_head b) = ab_stopped b" "ab_quit (asyncBuff_head b) = ab_quit b"
  "ab_finished (asyncBuff_head b) = ab_finished b"
  "ab_in_closed (asyncBuff_head b) = ab_in_closed b"
  "ab_stop_closed (asyncBuff_head b) = ab_stop_closed b"
  "ab_returned (asyncBuff_head b) \<longleftrightarrow> ab_returned b \<or> pending b = [] \<and> ab_finished b"
  by (auto simp: asyncBuff_head_def)

lemma asyncBuff_loop_Some [loop_simps]:
  "asyncBuff_loop b e = Some c \<longleftrightarrow>
     \<not> ab_returned b \<and> (\<exists>d. asyncBuff_select b e = Some d \<and> c = asyncBuff_head d)"
  by (auto simp: asyncBuff_loop_def)

lemma newAsyncBuf_simps [simp]:
  "pending newAsyncBuf = []" "\<not> ab_returned newAsyncBuf" "\<not> ab_finished newAsyncBuf"
  "\<not> ab_stop_closed newAsyncBuf" "\<not> ab_in_closed newAsyncBuf" "ab_stopped newAsyncBuf"
  "ab_input newAsyncBuf" "\<not> ab_quit newAsyncBuf"
  by (simp_all add: newAsyncBuf_def)

interpretation ab: draining_relay asyncBuff_loop pending ab_recv ab_sent ab_returned ab_abort
  Deliver ab_finished
proof unfold_locales
  show "pending s @ ab_recv e = ab_sent e @ pending t" if "asyncBuff_loop s e = Some t"
    for s t :: "'a asyncBuff" and e
    using that by (cases e) (auto simp: loop_simps split: if_splits list.splits)
  show "asyncBuff_loop s e = None" if "ab_returned s" for s :: "'a asyncBuff" and e
    using that by (simp add: asyncBuff_loop_def)
  show "pending t = []" if "asyncBuff_loop s e = Some t" "ab_returned t" "\<not> ab_abort e"
    for s t :: "'a asyncBuff" and e
    using that by (cases e) (auto simp: loop_simps split: if_splits list.splits)
  show "\<exists>t. asyncBuff_loop s (Deliver m) = Some t \<and> pending t = ms \<and> ab_finished t = ab_finished s
      \<and> (ab_returned t \<longleftrightarrow> ab_finished s \<and> ms = [])"
    if "\<not> ab_returned s" "pending s = m # ms" for s :: "'a asyncBuff" and m ms
    using that by (auto simp: loop_simps)
qed

section \<open>The goroutine's own invariant\<close>

text \<open>
  \<open>input\<close> is nil exactly when \<open>finished\<close> is set; the timeout is armed exactly when \<open>stopped\<close>
  has been disabled; \<open>finished\<close> implies that \<open>in\<close> is closed.
\<close>

definition asyncBuff_inv :: "'m asyncBuff \<Rightarrow> bool" where
  "asyncBuff_inv b \<longleftrightarrow> (ab_input b \<longleftrightarrow> \<not> ab_finished b) \<and> (ab_quit b \<longleftrightarrow> \<not> ab_stopped b)
     \<and> (ab_finished b \<longrightarrow> ab_in_closed b)
     \<and> (ab_finished b \<and> pending b = [] \<longrightarrow> ab_returned b)"

lemma asyncBuff_inv_new [simp]: "asyncBuff_inv newAsyncBuf"
  by (simp add: asyncBuff_inv_def)

lemma asyncBuff_inv_step:
  "asyncBuff_inv b \<Longrightarrow> asyncBuff_loop b e = Some c \<Longrightarrow> asyncBuff_inv c"
  by (cases e) (auto simp: asyncBuff_inv_def loop_simps split: if_splits list.splits)

lemma asyncBuff_inv_run:
  "run asyncBuff_loop newAsyncBuf es = Some b \<Longrightarrow> asyncBuff_inv b"
  by (rule run_invariant [where P = asyncBuff_inv, OF asyncBuff_inv_step]) auto

text \<open>Once a drain has been accepted, the case for \<open>stop\<close> stays disabled.\<close>

lemma stopped_stays_off:
  "\<not> ab_stopped b \<Longrightarrow> asyncBuff_loop b e = Some c \<Longrightarrow> \<not> ab_stopped c \<and> e \<noteq> StopClosed"
  by (cases e) (auto simp: loop_simps split: if_splits list.splits)

lemma stopped_off_run:
  "run asyncBuff_loop b es = Some c \<Longrightarrow> \<not> ab_stopped b \<Longrightarrow> StopClosed \<notin> set es"
proof (induction es arbitrary: b)
  case Nil
  then show ?case by simp
next
  case (Cons e es)
  then obtain d where "asyncBuff_loop b e = Some d" "run asyncBuff_loop d es = Some c"
    by (auto split: option.splits)
  with Cons stopped_stays_off [of b e d] show ?case by auto
qed

text \<open>The case of a closed \<open>stop\<close> ends the goroutine at once.\<close>

lemma stop_closed_returns:
  "run asyncBuff_loop b es = Some c \<Longrightarrow> StopClosed \<in> set es \<Longrightarrow> ab_returned c"
proof (induction es arbitrary: c rule: rev_induct)
  case Nil
  then show ?case by simp
next
  case (snoc e es)
  then obtain d where d: "run asyncBuff_loop b es = Some d" and e: "asyncBuff_loop d e = Some c"
    by (auto simp: run_append split: option.splits)
  have "StopClosed \<notin> set es" using snoc.IH [OF d] e by (auto simp: loop_simps)
  with snoc.prems have "e = StopClosed" by simp
  with e show ?case by (auto simp: loop_simps split: if_splits)
qed

lemma ab_abort_iff: "ab_abort e \<longleftrightarrow> e = StopClosed \<or> e = TimeoutFired"
  by (cases e) auto

section \<open>Properties\<close>

text \<open>C5: first in, first out, whatever the scheduler chooses: the messages taken from \<open>in\<close> are
  exactly the ones delivered on \<open>out\<close>, in the same order, followed by those still queued.\<close>

theorem asyncBuff_fifo:
  assumes "run asyncBuff_loop newAsyncBuf es = Some b"
  shows "received es = delivered es @ pending b"
  using ab.fifo [OF assms] by simp

theorem asyncBuff_fifo_witness:
  "received [Incoming (1::nat), Incoming 2, Deliver 1] = delivered [Incoming 1, Incoming 2, Deliver 1] @ [2]"
proof -
  have "run asyncBuff_loop newAsyncBuf [Incoming (1::nat), Incoming 2, Deliver 1] =
      Some (newAsyncBuf\<lparr>pending := [2]\<rparr>)"
    by (simp add: asyncBuff_loop_def asyncBuff_head_def newAsyncBuf_def)
  from asyncBuff_fifo [OF this] show ?thesis by simp
qed

text \<open>Draining is lossless. Once \<open>Drain\<close> was accepted, a later \<open>Stop\<close> no longer ends the
  loop: unless the timeout fires, the loop returns only after it has delivered every message.\<close>

theorem asyncBuff_drain_lossless:
  assumes "run asyncBuff_loop newAsyncBuf es = Some b" and "ab_returned b"
    and "StopTimeout \<in> set es" and "TimeoutFired \<notin> set es"
  shows "delivered es = received es"
proof -
  obtain fs gs where es: "es = fs @ StopTimeout # gs" using assms(3) by (auto simp: in_set_conv_decomp)
  then obtain c d where c: "run asyncBuff_loop newAsyncBuf fs = Some c"
    and d: "asyncBuff_loop c StopTimeout = Some d" and gs: "run asyncBuff_loop d gs = Some b"
    using assms(1) by (auto simp: run_append split: option.splits)
  have "StopClosed \<notin> set gs"
    using stopped_off_run [OF gs] d by (auto simp: loop_simps split: if_splits)
  moreover have "StopClosed \<notin> set fs"
    using stop_closed_returns [OF c] d by (auto simp: loop_simps)
  ultimately have "list_all (\<lambda>e. \<not> ab_abort e) es"
    using assms(4) es by (auto simp: list_all_iff ab_abort_iff)
  from ab.lossless [OF assms(1) _ _ assms(2) this] show ?thesis by simp
qed

theorem asyncBuff_drain_lossless_witness:
  "delivered [Incoming (7::nat), StopTimeout, EnvCloseStop, EnvCloseIn, InputClosed, Deliver 7] =
   received [Incoming 7, StopTimeout, EnvCloseStop, EnvCloseIn, InputClosed, Deliver 7]"
  (is "delivered ?es = _")
proof -
  have "run asyncBuff_loop newAsyncBuf ?es = Some (newAsyncBuf\<lparr>ab_input := False, ab_stopped := False,
      ab_quit := True, ab_finished := True, ab_returned := True, ab_in_closed := True,
      ab_stop_closed := True\<rparr>)"
    by (simp add: asyncBuff_loop_def asyncBuff_head_def newAsyncBuf_def)
  from asyncBuff_drain_lossless [OF this] show ?thesis by simp
qed

text \<open>The buffer never blocks a writer and can always be emptied. In every reachable state of
  a running loop whose input is open, any message is accepted; and closing the input and then
  receiving the queued messages one by one makes the goroutine return.\<close>

theorem asyncBuff_progress:
  assumes "run asyncBuff_loop newAsyncBuf es = Some b" and "\<not> ab_returned b" and "\<not> ab_in_closed b"
  shows "(\<exists>c. asyncBuff_loop b (Incoming m) = Some c) \<and>
    (\<exists>c. run asyncBuff_loop b (EnvCloseIn # InputClosed # map Deliver (pending b)) = Some c
       \<and> ab_returned c)"
proof
  from asyncBuff_inv_run [OF assms(1)] assms(3) have i: "ab_input b" "\<not> ab_finished b"
    by (auto simp: asyncBuff_inv_def)
  with assms show "\<exists>c. asyncBuff_loop b (Incoming m) = Some c" by (simp add: asyncBuff_loop_def)
  let ?c = "asyncBuff_head (b\<lparr>ab_in_closed := True, ab_finished := True, ab_input := False\<rparr>)"
  have c: "run asyncBuff_loop b [EnvCloseIn, InputClosed] = Some ?c"
    using i assms(2,3) by (simp add: asyncBuff_loop_def asyncBuff_head_def)
  have "\<exists>t. run asyncBuff_loop ?c (map Deliver (pending b)) = Some t \<and> ab_returned t"
  proof (cases "pending b = []")
    case False
    with ab.drain [of ?c] assms(2) show ?thesis by simp
  qed simp
  with c show "\<exists>c. run asyncBuff_loop b (EnvCloseIn # InputClosed # map Deliver (pending b)) = Some c
       \<and> ab_returned c"
    by (auto split: option.splits)
qed

theorem asyncBuff_progress_witness:
  "\<exists>c. run asyncBuff_loop (newAsyncBuf\<lparr>pending := [1::nat, 2]\<rparr>)
     [EnvCloseIn, InputClosed, Deliver 1, Deliver 2] = Some c \<and> ab_returned c"
proof -
  have "run asyncBuff_loop newAsyncBuf [Incoming (1::nat), Incoming 2] =
      Some (newAsyncBuf\<lparr>pending := [1, 2]\<rparr>)"
    by (simp add: asyncBuff_loop_def asyncBuff_head_def newAsyncBuf_def)
  from asyncBuff_progress [OF this] show ?thesis by simp
qed

end
