(* ===== verification/Socket.thy ===== *)
theory Socket
  imports AsyncBuf
begin

text \<open>
  The asynchronous socket \<open>asyncRWSocket\<close> of \<open>cocaine12/asocket.go\<close>: two buffers, a broadcast
  flag \<open>closed\<close>, the connection, and the goroutines of \<open>writeloop\<close> and \<open>readloop\<close>. The codec and
  the connection are outside the model: an event says whether encoding, flushing or decoding
  succeeded. \<open>sk_wire\<close> holds the messages flushed to the connection.
\<close>

section \<open>State and operations\<close>

datatype writer = Writing | Blackholing | WriterDone
datatype 'm reader = Decoding | PushingDown 'm | ReaderDone

record 'm asyncRWSocket =
  upstreamBuf :: "'m asyncBuff"
  downstreamBuf :: "'m asyncBuff"
  sk_closed :: bool
  sk_conn_closes :: nat \<comment> \<open>calls of \<open>conn.Close\<close>\<close>
  sk_writer :: writer
  sk_reader :: "'m reader"
  sk_flush_failed :: bool \<comment> \<open>the sticky error of the \<open>bufio.Writer\<close>\<close>
  sk_wire :: "'m list"

definition newAsyncRW :: "'m asyncRWSocket" where
  "newAsyncRW = \<lparr>upstreamBuf = newAsyncBuf, downstreamBuf = newAsyncBuf, sk_closed = False,
     sk_conn_closes = 0, sk_writer = Writing, sk_reader = Decoding, sk_flush_failed = False,
     sk_wire = []\<rparr>"

text \<open>The lower-case \<open>close\<close>, called under the mutex.\<close>

definition sock_close :: "'m asyncRWSocket \<Rightarrow> 'm asyncRWSocket" where
  "sock_close s = (if sk_closed s then s
     else s\<lparr>sk_closed := True, sk_conn_closes := Suc (sk_conn_closes s)\<rparr>)"

definition sock_Close :: "'m asyncRWSocket \<Rightarrow> 'm asyncRWSocket go" where
  "sock_Close s =
     go_bind (asyncBuff_Stop (upstreamBuf s)) (\<lambda>up.
     go_bind (asyncBuff_Stop (downstreamBuf s)) (\<lambda>down.
       Ret (sock_close (s\<lparr>upstreamBuf := up, downstreamBuf := down\<rparr>))))"

text \<open>One case of the buffers' own \<open>select\<close> loops, lifted to the socket.\<close>

definition up_loop :: "'m asyncRWSocket \<Rightarrow> 'm abevent \<Rightarrow> 'm asyncRWSocket option" where
  "up_loop s e = map_option (\<lambda>b. s\<lparr>upstreamBuf := b\<rparr>) (asyncBuff_loop (upstreamBuf s) e)"

definition down_loop :: "'m asyncRWSocket \<Rightarrow> 'm abevent \<Rightarrow> 'm asyncRWSocket option" where
  "down_loop s e = map_option (\<lambda>b. s\<lparr>downstreamBuf := b\<rparr>) (asyncBuff_loop (downstreamBuf s) e)"

text \<open>
  \<open>Send\<close> chooses between writing to the upstream buffer and, once the socket is closed, dropping
  the message; \<open>dropped\<close> is the choice, None that it cannot be made.
\<close>

definition sock_Send :: "bool \<Rightarrow> 'm \<Rightarrow> 'm asyncRWSocket \<Rightarrow> 'm asyncRWSocket option" where
  "sock_Send dropped m s =
     (if dropped then (if sk_closed s then Some s else None) else up_loop s (Incoming m))"

text \<open>
  \<open>writeloop\<close>: receive the next message, encode it, flush. The result of \<open>Flush\<close> is dropped by
  the code, and the writer's error is sticky, so a failed flush shows at the next \<open>Encode\<close>.
  After an encoding error the socket is closed and the rest is received and thrown away.
\<close>

definition writeloop :: "bool \<Rightarrow> bool \<Rightarrow> 'm \<Rightarrow> 'm asyncRWSocket \<Rightarrow> 'm asyncRWSocket option" where
  "writeloop encoded flushed m s =
     (case sk_writer s of
        Writing \<Rightarrow>
          (if encoded then
             (if sk_flush_failed s then None
              else map_option (\<lambda>t. if flushed then t\<lparr>sk_wire := sk_wire t @ [m]\<rparr>
                                   else t\<lparr>sk_flush_failed := True\<rparr>) (up_loop s (Deliver m)))
           else map_option (\<lambda>t. (sock_close t)\<lparr>sk_writer := Blackholing\<rparr>) (up_loop s (Deliver m)))
      | Blackholing \<Rightarrow> up_loop s (Deliver m)
      | WriterDone \<Rightarrow> None)"

definition writeloop_end :: "'m asyncRWSocket \<Rightarrow> 'm asyncRWSocket option" where
  "writeloop_end s =
     (if sk_writer s \<noteq> WriterDone \<and> ab_returned (upstreamBuf s)
      then Some (s\<lparr>sk_writer := WriterDone\<rparr>) else None)"

text \<open>
  \<open>readloop\<close>: decode a message and send it to the downstream buffer (a blocking send); on a
  decoding error close the buffer's input and the socket. Bytes the \<open>bufio.Reader\<close> has already
  read can still be decoded after the connection is closed.
\<close>

definition readloop_decode :: "'m option \<Rightarrow> 'm asyncRWSocket \<Rightarrow> 'm asyncRWSocket option" where
  "readloop_decode r s =
     (case sk_reader s of
        Decoding \<Rightarrow>
          (case r of
             Some m \<Rightarrow> Some (s\<lparr>sk_reader := PushingDown m\<rparr>)
           | None \<Rightarrow>
               Some (sock_close (s\<lparr>sk_reader := ReaderDone,
                 downstreamBuf := (downstreamBuf s)\<lparr>ab_in_closed := True\<rparr>\<rparr>)))
      | _ \<Rightarrow> None)"

definition readloop_push :: "'m asyncRWSocket \<Rightarrow> 'm asyncRWSocket option" where
  "readloop_push s =
     (case sk_reader s of
        PushingDown m \<Rightarrow> map_option (\<lambda>t. t\<lparr>sk_reader := Decoding\<rparr>) (down_loop s (Incoming m))
      | _ \<Rightarrow> None)"

section \<open>The socket as a labelled machine\<close>

datatype 'm sockevent =
    SendMsg bool 'm
  | WriteMsg bool bool 'm \<comment> \<open>encoded, flushed\<close>
  | WriterEnds
  | Decode "'m option"
  | PushDown
  | ReadMsg 'm \<comment> \<open>the user receives from \<open>Read()\<close>\<close>
  | CloseSocket
  | UpSelect \<comment> \<open>the upstream buffer sees its closed \<open>stop\<close>\<close>
  | DownSelect bool \<comment> \<open>the downstream buffer sees its closed \<open>stop\<close> (True) or \<open>in\<close>\<close>

fun sock_step :: "'m asyncRWSocket \<Rightarrow> 'm sockevent \<Rightarrow> 'm asyncRWSocket option" where
  "sock_step s (SendMsg dropped m) = sock_Send dropped m s"
| "sock_step s (WriteMsg encoded flushed m) = writeloop encoded flushed m s"
| "sock_step s WriterEnds = writeloop_end s"
| "sock_step s (Decode r) = readloop_decode r s"
| "sock_step s PushDown = readloop_push s"
| "sock_step s (ReadMsg m) = down_loop s (Deliver m)"
| "sock_step s CloseSocket = (case sock_Close s of Ret t \<Rightarrow> Some t | Panic _ \<Rightarrow> None)"
| "sock_step s UpSelect = up_loop s StopClosed"
| "sock_step s (DownSelect stop) = down_loop s (if stop then StopClosed else InputClosed)"

text \<open>Messages accepted for sending, taken by the writer, decoded, and read by the user.\<close>

fun sk_accepted :: "'m sockevent \<Rightarrow> 'm list" where
  "sk_accepted (SendMsg False m) = [m]"
| "sk_accepted _ = []"

fun sk_taken :: "'m sockevent \<Rightarrow> 'm list" where
  "sk_taken (WriteMsg _ _ m) = [m]"
| "sk_taken _ = []"

fun sk_decoded :: "'m sockevent \<Rightarrow> 'm list" where
  "sk_decoded (Decode (Some m)) = [m]"
| "sk_decoded _ = []"

fun sk_read :: "'m sockevent \<Rightarrow> 'm list" where
  "sk_read (ReadMsg m) = [m]"
| "sk_read _ = []"

definition sk_incoming :: "'m asyncRWSocket \<Rightarrow> 'm list" where
  "sk_incoming s = pending (downstreamBuf s) @ (case sk_reader s of PushingDown m \<Rightarrow> [m] | _ \<Rightarrow> [])"

section \<open>Lemmas\<close>

lemma sock_close_simps [simp]:
  "upstreamBuf (sock_close s) = upstreamBuf s" "downstreamBuf (sock_close s) = downstreamBuf s"
  "sk_closed (sock_close s)" "sk_writer (sock_close s) = sk_writer s"
  "sk_reader (sock_close s) = sk_reader s" "sk_wire (sock_close s) = sk_wire s"
  "sk_flush_failed (sock_close s) = sk_flush_failed s"
  "sk_conn_closes (sock_close s) =
     (if sk_closed s then sk_conn_closes s else Suc (sk_conn_closes s))"
  by (simp_all add: sock_close_def)

lemma sock_close_idem [simp]: "sock_close (sock_close s) = sock_close s"
  by (simp add: sock_close_def)

lemma asyncBuff_Stop_Ret [simp]:
  "asyncBuff_Stop b = Ret c \<longleftrightarrow> \<not> ab_stop_closed b \<and> c = b\<lparr>ab_stop_closed := True\<rparr>"
  by (auto simp: asyncBuff_Stop_def)

lemma sock_Close_Ret:
  "sock_Close s = Ret t \<longleftrightarrow>
     \<not> ab_stop_closed (upstreamBuf s) \<and> \<not> ab_stop_closed (downstreamBuf s) \<and>
     t = sock_close (s\<lparr>upstreamBuf := (upstreamBuf s)\<lparr>ab_stop_closed := True\<rparr>,
                       downstreamBuf := (downstreamBuf s)\<lparr>ab_stop_closed := True\<rparr>\<rparr>)"
  by (auto simp: sock_Close_def)

lemma sock_step_CloseSocket [simp]:
  "sock_step s CloseSocket = Some t \<longleftrightarrow> sock_Close s = Ret t"
  by (auto split: go.splits)

declare sock_step.simps(7) [simp del]

lemmas sock_defs = sock_Send_def writeloop_def writeloop_end_def readloop_decode_def
  readloop_push_def up_loop_def down_loop_def sock_Close_Ret

lemmas sock_splits = option.splits if_splits writer.splits reader.splits list.splits

interpretation up: relay sock_step "\<lambda>s. pending (upstreamBuf s)" sk_accepted sk_taken
proof unfold_locales
  show "pending (upstreamBuf s) @ sk_accepted e = sk_taken e @ pending (upstreamBuf t)"
    if "sock_step s e = Some t" for s t :: "'a asyncRWSocket" and e
    using that
    by (cases e rule: sk_accepted.cases)
       (auto simp: sock_defs loop_simps split: sock_splits)
qed

interpretation down: relay sock_step sk_incoming sk_decoded sk_read
proof unfold_locales
  show "sk_incoming s @ sk_decoded e = sk_read e @ sk_incoming t"
    if "sock_step s e = Some t" for s t :: "'a asyncRWSocket" and e
    using that
    by (cases e rule: sk_decoded.cases)
       (auto simp: sock_defs loop_simps sk_incoming_def split: sock_splits)
qed

text \<open>
  The wire: while nothing failed, what the writer took is what was flushed; after the first
  failure nothing more is flushed.
\<close>

lemma wire_of_taken:
  "run sock_step newAsyncRW es = Some s \<Longrightarrow>
     prefix (sk_wire s) (concat (map sk_taken es)) \<and>
     (sk_writer s = Writing \<and> \<not> sk_flush_failed s \<longrightarrow> sk_wire s = concat (map sk_taken es))"
proof (induction es arbitrary: s rule: rev_induct)
  case Nil
  then show ?case by (auto simp: newAsyncRW_def)
next
  case (snoc e es)
  then obtain r where r: "run sock_step newAsyncRW es = Some r" and e: "sock_step r e = Some s"
    by (auto simp: run_append split: option.splits)
  from e snoc.IH [OF r] show ?case
    by (cases e rule: sk_taken.cases)
       (auto simp: sock_defs loop_simps prefix_append split: sock_splits)
qed

text \<open>The connection is closed by the first \<open>close\<close> and by no other.\<close>

definition sock_inv :: "'m asyncRWSocket \<Rightarrow> bool" where
  "sock_inv s \<longleftrightarrow> sk_conn_closes s = (if sk_closed s then 1 else 0)
     \<and> ab_stop_closed (upstreamBuf s) = ab_stop_closed (downstreamBuf s)
     \<and> (ab_stop_closed (upstreamBuf s) \<longrightarrow> sk_closed s)
     \<and> (ab_in_closed (downstreamBuf s) \<longleftrightarrow> sk_reader s = ReaderDone)
     \<and> (ab_in_closed (downstreamBuf s) \<longrightarrow> sk_closed s)
     \<and> (sk_writer s = Blackholing \<longrightarrow> sk_closed s)"

lemma sock_inv_new [simp]: "sock_inv newAsyncRW"
  by (simp add: sock_inv_def newAsyncRW_def)

lemma asyncBuff_loop_stop_closed:
  "asyncBuff_loop b e = Some c \<Longrightarrow> e \<noteq> EnvCloseStop \<Longrightarrow> ab_stop_closed c = ab_stop_closed b"
  by (cases e) (auto simp: loop_simps split: if_splits list.splits)

lemma asyncBuff_loop_in_closed:
  "asyncBuff_loop b e = Some c \<Longrightarrow> e \<noteq> EnvCloseIn \<Longrightarrow> ab_in_closed c = ab_in_closed b"
  by (cases e) (auto simp: loop_simps split: if_splits list.splits)

lemma sock_inv_frame [simp]:
  "sock_inv (s\<lparr>sk_wire := w\<rparr>) = sock_inv s" "sock_inv (s\<lparr>sk_flush_failed := f\<rparr>) = sock_inv s"
  by (simp_all add: sock_inv_def)

lemma sock_inv_close [intro]: "sock_inv s \<Longrightarrow> sock_inv (sock_close s)"
  by (auto simp: sock_inv_def)

lemma sock_inv_up_loop:
  "sock_inv s \<Longrightarrow> up_loop s e = Some t \<Longrightarrow> e \<noteq> EnvCloseStop \<Longrightarrow> sock_inv t"
  by (auto simp: sock_inv_def up_loop_def dest: asyncBuff_loop_stop_closed)

lemma sock_inv_down_loop:
  "sock_inv s \<Longrightarrow> down_loop s e = Some t \<Longrightarrow> e \<noteq> EnvCloseStop \<Longrightarrow> e \<noteq> EnvCloseIn \<Longrightarrow> sock_inv t"
  by (auto simp: sock_inv_def down_loop_def
      dest: asyncBuff_loop_stop_closed asyncBuff_loop_in_closed)

lemma sock_inv_writeloop:
  assumes "sock_inv s" and "writeloop encoded flushed m s = Some t"
  shows "sock_inv t"
proof -
  obtain u where u: "up_loop s (Deliver m) = Some u"
    using assms(2) by (auto simp: writeloop_def split: sock_splits)
  have i: "sock_inv u" by (rule sock_inv_up_loop [OF assms(1) u]) simp
  then have "sock_inv ((sock_close u)\<lparr>sk_writer := Blackholing\<rparr>)"
    by (auto simp: sock_inv_def)
  with i u assms(2) show ?thesis by (auto simp: writeloop_def split: sock_splits)
qed

lemma sock_inv_decode: "sock_inv s \<Longrightarrow> readloop_decode r s = Some t \<Longrightarrow> sock_inv t"
  by (auto simp: sock_inv_def readloop_decode_def split: sock_splits)

lemma sock_inv_push:
  assumes "sock_inv s" and "readloop_push s = Some t"
  shows "sock_inv t"
proof -
  obtain m u where m: "sk_reader s = PushingDown m" and u: "down_loop s (Incoming m) = Some u"
    and t: "t = u\<lparr>sk_reader := Decoding\<rparr>"
    using assms(2) by (auto simp: readloop_push_def split: reader.splits)
  have "sock_inv u" by (rule sock_inv_down_loop [OF assms(1) u]) simp_all
  moreover have "sk_reader u = sk_reader s" using u by (auto simp: down_loop_def)
  ultimately show ?thesis using m t by (auto simp: sock_inv_def)
qed

lemma sock_inv_step: "sock_inv s \<Longrightarrow> sock_step s e = Some t \<Longrightarrow> sock_inv t"
proof (cases e)
  case CloseSocket
  then show "sock_inv s \<Longrightarrow> sock_step s e = Some t \<Longrightarrow> sock_inv t"
    by (auto simp: sock_Close_Ret sock_inv_def)
qed (auto simp: sock_Send_def writeloop_end_def split: if_splits
      intro: sock_inv_up_loop sock_inv_down_loop sock_inv_writeloop sock_inv_decode sock_inv_push,
     simp add: sock_inv_def)

lemma sock_inv_run: "run sock_step newAsyncRW es = Some s \<Longrightarrow> sock_inv s"
  by (rule run_invariant [where P = sock_inv, OF sock_inv_step]) auto

section \<open>Properties\<close>

text \<open>C18: what reaches the connection is, in order and without a gap, a prefix of the messages
  accepted from the user, whatever the interleaving and whichever encodings or flushes fail.\<close>

theorem socket_wire_order:
  assumes "run sock_step newAsyncRW es = Some s"
  shows "prefix (sk_wire s) (concat (map sk_accepted es))"
proof -
  have "pending (upstreamBuf (newAsyncRW :: 'a asyncRWSocket)) = []" by (simp add: newAsyncRW_def)
  from up.delivered_prefix [OF assms this] wire_of_taken [OF assms] show ?thesis
    by (auto intro: prefix_order.trans)
qed

theorem socket_wire_order_witness:
  "prefix [1::nat] (concat (map sk_accepted
     [SendMsg False 1, SendMsg False 2, WriteMsg True True 1, WriteMsg True False 2]))"
proof -
  have "run sock_step newAsyncRW
      [SendMsg False 1, SendMsg False 2, WriteMsg True True 1, WriteMsg True False (2::nat)] =
      Some (newAsyncRW\<lparr>sk_wire := [1], sk_flush_failed := True\<rparr>)"
    by (simp add: sock_Send_def writeloop_def up_loop_def asyncBuff_loop_def asyncBuff_head_def
        newAsyncRW_def newAsyncBuf_def)
  from socket_wire_order [OF this] show ?thesis by simp
qed

text \<open>What the user reads is, in order and without a gap, a prefix of the messages decoded
  from the connection.\<close>

theorem socket_read_order:
  assumes "run sock_step newAsyncRW es = Some s"
  shows "concat (map sk_decoded es) = concat (map sk_read es) @ sk_incoming s"
  using down.fifo [OF assms] by (simp add: sk_incoming_def newAsyncRW_def)

theorem socket_read_order_witness:
  "concat (map sk_decoded [Decode (Some (5::nat)), PushDown, Decode (Some 6), ReadMsg 5]) = [5] @ [6]"
proof -
  have "run sock_step newAsyncRW [Decode (Some (5::nat)), PushDown, Decode (Some 6), ReadMsg 5] =
      Some (newAsyncRW\<lparr>sk_reader := PushingDown 6\<rparr>)"
    by (simp add: readloop_decode_def readloop_push_def down_loop_def asyncBuff_loop_def
        asyncBuff_head_def newAsyncRW_def newAsyncBuf_def)
  from socket_read_order [OF this] show ?thesis by (simp add: sk_incoming_def newAsyncRW_def)
qed

text \<open>The connection is closed exactly once however many of the writer, the reader and the
  user close the socket; and after the user's \<open>Close\<close>, \<open>Send\<close> never blocks (the message is
  dropped), while calling \<open>Close\<close> a second time panics.\<close>

theorem socket_close_once:
  assumes "run sock_step newAsyncRW (es @ CloseSocket # fs) = Some s"
  shows "sk_conn_closes s = 1 \<and> sock_Send True m s = Some s \<and> sock_Close s = Panic CloseOfClosed"
proof -
  obtain r t where t: "sock_Close r = Ret t" and fs: "run sock_step t fs = Some s"
    using assms by (auto simp: run_append_Some split: option.splits)
  have inv: "sock_inv s" by (rule sock_inv_run [OF assms])
  have "ab_stop_closed (upstreamBuf t)" using t by (auto simp: sock_Close_Ret)
  moreover have "ab_stop_closed (upstreamBuf c)"
    if "ab_stop_closed (upstreamBuf b)" "sock_step b e = Some c" for b c :: "'a asyncRWSocket" and e
    using that
    by (cases e) (auto simp: sock_defs dest!: asyncBuff_loop_stop_closed split: sock_splits)
  ultimately have "ab_stop_closed (upstreamBuf s)"
    by (rule run_invariant [where P = "\<lambda>s. ab_stop_closed (upstreamBuf s)", OF _ fs, rotated])
  with inv show ?thesis
    by (auto simp: sock_inv_def sock_Send_def sock_Close_def asyncBuff_Stop_def)
qed

theorem socket_close_once_witness:
  "sk_conn_closes (sock_close (newAsyncRW :: nat asyncRWSocket)
     \<lparr>upstreamBuf := newAsyncBuf\<lparr>ab_stop_closed := True\<rparr>,
      downstreamBuf := newAsyncBuf\<lparr>ab_stop_closed := True, ab_in_closed := True\<rparr>,
      sk_reader := ReaderDone\<rparr>) = 1"
proof -
  have "run sock_step (newAsyncRW :: nat asyncRWSocket) ([] @ CloseSocket # [Decode None]) =
      Some ((sock_close newAsyncRW)
        \<lparr>upstreamBuf := newAsyncBuf\<lparr>ab_stop_closed := True\<rparr>,
         downstreamBuf := newAsyncBuf\<lparr>ab_stop_closed := True, ab_in_closed := True\<rparr>,
         sk_reader := ReaderDone\<rparr>)"
    by (simp add: sock_step.simps(7) sock_Close_def asyncBuff_Stop_def readloop_decode_def
        sock_close_def newAsyncRW_def newAsyncBuf_def)
  from socket_close_once [OF this] show ?thesis by simp
qed

text \<open>A failed flush is not noticed: the message has left the queue and never reaches the
  connection, but the socket stays open until the next message fails to encode.\<close>

theorem socket_flush_failure_unnoticed:
  "\<exists>s t. run sock_step newAsyncRW [SendMsg False m, WriteMsg True False m] = Some s \<and>
     \<not> sk_closed s \<and> sk_wire s = [] \<and> pending (upstreamBuf s) = [] \<and>
     run sock_step s [SendMsg False n, WriteMsg False False n] = Some t \<and>
     sk_closed t \<and> sk_wire t = []"
  by (simp add: sock_Send_def writeloop_def up_loop_def asyncBuff_loop_def asyncBuff_head_def
      sock_close_def newAsyncRW_def newAsyncBuf_def)

text \<open>After \<open>Close\<close> the reader can be left blocked for good. If it had decoded a message
  when the downstream buffer stopped, its send has no receiver any more and no step of the
  socket ever changes the reader's state: the goroutine leaks.\<close>

theorem socket_reader_leaks:
  assumes "ab_returned (downstreamBuf s)" and "sk_reader s = PushingDown m"
    and "run sock_step s es = Some t"
  shows "sk_reader t = PushingDown m"
proof -
  let ?P = "\<lambda>s. ab_returned (downstreamBuf s) \<and> sk_reader s = PushingDown m"
  have "?P c" if "?P b" "sock_step b e = Some c" for b c :: "'a asyncRWSocket" and e
    using that by (cases e) (auto simp: sock_defs loop_simps split: sock_splits)
  from run_invariant [where P = ?P, OF this assms(3)] assms(1,2) show ?thesis by auto
qed

theorem socket_reader_leaks_witness:
  "\<exists>s. run sock_step newAsyncRW [Decode (Some (3::nat)), CloseSocket, DownSelect True] = Some s \<and>
     (\<forall>es t. run sock_step s es = Some t \<longrightarrow> sk_reader t = PushingDown 3)"
proof -
  let ?b = "newAsyncBuf\<lparr>ab_stop_closed := True\<rparr>"
  let ?s = "newAsyncRW\<lparr>upstreamBuf := ?b, downstreamBuf := ?b\<lparr>ab_returned := True\<rparr>,
     sk_closed := True, sk_conn_closes := 1, sk_reader := PushingDown (3::nat)\<rparr>"
  have "run sock_step newAsyncRW [Decode (Some (3::nat)), CloseSocket, DownSelect True] = Some ?s"
    by (simp add: sock_step.simps(7) readloop_decode_def sock_Close_def asyncBuff_Stop_def down_loop_def
        asyncBuff_loop_def asyncBuff_head_def sock_close_def newAsyncRW_def newAsyncBuf_def)
  moreover have "sk_reader t = PushingDown 3" if "run sock_step ?s es = Some t" for es t
    by (rule socket_reader_leaks [OF _ _ that]) simp_all
  ultimately show ?thesis by blast
qed

end
