(* ===== verification/TraceCtx.thy ===== *)
theory TraceCtx
  imports Worker Service
begin

text \<open>
  Tracing contexts (\<open>cocaine12/trace.go\<close>): a context carries the trace, the current span and its
  parent; \<open>NewSpan\<close> opens a child span. Random numbers and the clock are arguments. What a span
  logs is the list of log records it produces.
\<close>

section \<open>Contexts\<close>

definition TraceInfoValue :: string where "TraceInfoValue = ''trace.traceinfo''"
definition TraceStartTimeValue :: string where "TraceStartTimeValue = ''trace.starttime''"

datatype ctxval = CvNil | CvTrace traceinfo | CvTime nat | CvOther nat

text \<open>\<open>Wrapped\<close> stands for the contexts of the standard library that pass \<open>Value\<close> on.\<close>

datatype ctx = Background | WithValue ctx string ctxval | Wrapped ctx | Traced ctx traceinfo nat

fun ctx_Value :: "ctx \<Rightarrow> string \<Rightarrow> ctxval" where
  "ctx_Value Background key = CvNil"
| "ctx_Value (WithValue c k v) key = (if key = k then v else ctx_Value c key)"
| "ctx_Value (Wrapped c) key = ctx_Value c key"
| "ctx_Value (Traced c ti start) key =
     (if key = TraceInfoValue then CvTrace ti else if key = TraceStartTimeValue then CvTime start else ctx_Value c key)"

definition GetTraceInfo :: "ctx \<Rightarrow> traceinfo option" where
  "GetTraceInfo c = (case ctx_Value c TraceInfoValue of CvTrace ti \<Rightarrow> Some ti | _ \<Rightarrow> None)"

text \<open>A nil context is None.\<close>

definition AttachTraceInfo :: "ctx option \<Rightarrow> traceinfo \<Rightarrow> nat \<Rightarrow> ctx" where
  "AttachTraceInfo c ti now = Traced (case c of None \<Rightarrow> Background | Some c' \<Rightarrow> c') ti now"

definition BeginNewTraceContextWithLogger :: "ctx option \<Rightarrow> nat option \<Rightarrow> u64 \<Rightarrow> nat \<Rightarrow> ctx" where
  "BeginNewTraceContextWithLogger c lg ts now = AttachTraceInfo c \<lparr>Trace = ts, Span = ts, Parent = 0, logger = lg\<rparr> now"

definition BeginNewTraceContext :: "ctx option \<Rightarrow> u64 \<Rightarrow> nat \<Rightarrow> ctx" where
  "BeginNewTraceContext c = BeginNewTraceContextWithLogger c None"

definition CleanTraceInfo :: "ctx option \<Rightarrow> ctx go" where
  "CleanTraceInfo c =
     (case c of
        None \<Rightarrow> Panic (UserPanic ''cannot create context from nil parent'')
      | Some c' \<Rightarrow> Ret (WithValue c' TraceInfoValue CvNil))"

section \<open>Spans\<close>

fun hex :: "nat \<Rightarrow> string" where
  "hex n = (if n < 16 then [''0123456789abcdef'' ! n] else hex (n div 16) @ [''0123456789abcdef'' ! (n mod 16)])"

declare hex.simps [simp del]

text \<open>A log record of a span: whose logger (None for the common one), ids, times in microseconds.\<close>

record spanlog =
  sl_logger :: "nat option"
  sl_trace_id :: string
  sl_span_id :: string
  sl_parent_id :: string
  sl_real_timestamp :: nat
  sl_duration :: "nat option"
  sl_rpc_name :: string
  sl_text :: string

definition span_record :: "traceinfo \<Rightarrow> nat \<Rightarrow> nat option \<Rightarrow> string \<Rightarrow> string \<Rightarrow> spanlog" where
  "span_record ti now duration rpcName text =
     \<lparr>sl_logger = logger ti, sl_trace_id = hex (unat (Trace ti)), sl_span_id = hex (unat (Span ti)),
      sl_parent_id = hex (unat (Parent ti)), sl_real_timestamp = now div 1000, sl_duration = duration,
      sl_rpc_name = rpcName, sl_text = text\<rparr>"

text \<open>The function that closes a span: the dummy one, or the values the closure captures.\<close>

datatype closeSpan = closeDummySpan | CloseSpan traceinfo nat string

text \<open>\<open>rpcName\<close>: the format, or the formatted arguments when there are any. \<open>NewSpan\<close> is given its result.\<close>

definition span_name :: "(string \<Rightarrow> gval list \<Rightarrow> string) \<Rightarrow> string \<Rightarrow> gval list \<Rightarrow> string" where
  "span_name Sprintf rpcNameFormat args = (if args \<noteq> [] then Sprintf rpcNameFormat args else rpcNameFormat)"

definition NewSpan :: "ctx option \<Rightarrow> string \<Rightarrow> u64 \<Rightarrow> nat \<Rightarrow> ctx \<times> closeSpan \<times> spanlog list" where
  "NewSpan c rpcName rnd now =
     (case c of
        None \<Rightarrow> (Background, closeDummySpan, [])
      | Some c' \<Rightarrow>
          (case GetTraceInfo c' of
             None \<Rightarrow> (c', closeDummySpan, [])
           | Some ti \<Rightarrow>
               (let ti' = ti\<lparr>Parent := Span ti, Span := rnd\<rparr> in
                (Traced c' ti' now, CloseSpan ti' now rpcName, [span_record ti' now None rpcName ''start'']))))"

fun close_span :: "closeSpan \<Rightarrow> nat \<Rightarrow> spanlog list" where
  "close_span closeDummySpan now = []"
| "close_span (CloseSpan ti start rpcName) now =
     [span_record ti now (Some ((now - start) div 1000)) rpcName ''finish'']"

text \<open>Spans opened one inside the other.\<close>

fun nested_spans :: "(string \<times> u64 \<times> nat) list \<Rightarrow> ctx \<Rightarrow> ctx \<times> closeSpan list \<times> spanlog list" where
  "nested_spans [] c = (c, [], [])"
| "nested_spans ((name, rnd, now) # ss) c =
     (case NewSpan (Some c) name rnd now of (c', cl, out) \<Rightarrow>
        case nested_spans ss c' of (c'', cls, outs) \<Rightarrow> (c'', cl # cls, out @ outs))"

section \<open>Lemmas\<close>

lemma trace_values [simp]:
  "GetTraceInfo (Traced c ti now) = Some ti" "GetTraceInfo (WithValue c TraceInfoValue CvNil) = None"
  "GetTraceInfo (Wrapped c) = GetTraceInfo c" "GetTraceInfo Background = None"
  by (simp_all add: GetTraceInfo_def)

lemma NewSpan_untraced:
  "GetTraceInfo c = None \<Longrightarrow> NewSpan (Some c) name rnd now = (c, closeDummySpan, [])"
  by (simp add: NewSpan_def)

lemma NewSpan_traced:
  "GetTraceInfo c = Some ti \<Longrightarrow> NewSpan (Some c) name rnd now =
     (Traced c (ti\<lparr>Parent := Span ti, Span := rnd\<rparr>) now, CloseSpan (ti\<lparr>Parent := Span ti, Span := rnd\<rparr>) now name,
      [span_record (ti\<lparr>Parent := Span ti, Span := rnd\<rparr>) now None name ''start''])"
  by (simp add: NewSpan_def Let_def)

section \<open>Properties\<close>

text \<open>Spans form a chain. Opening spans one inside the other in a traced context keeps the trace
  and its logger, makes each span the parent of the next, and the closing of each logs exactly one
  \<open>finish\<close> with the ids of its \<open>start\<close>; in a context without a trace nothing changes and nothing
  is logged, neither on opening nor on closing.\<close>

theorem nested_spans_chain:
  "(case nested_spans ss c of (c', cls, outs) \<Rightarrow>
     length cls = length ss \<and>
     (GetTraceInfo c = None \<longrightarrow> c' = c \<and> outs = [] \<and> (\<forall>cl \<in> set cls. cl = closeDummySpan)) \<and>
     (\<forall>ti. GetTraceInfo c = Some ti \<longrightarrow>
        (let spans = Span ti # map (\<lambda>(_, rnd, _). rnd) ss in
         (\<exists>par. GetTraceInfo c' = Some (ti\<lparr>Parent := par, Span := last spans\<rparr>)) \<and>
         length outs = length ss \<and>
         (\<forall>k < length ss. \<exists>cti start name.
            cls ! k = CloseSpan cti start name \<and> Trace cti = Trace ti \<and> logger cti = logger ti \<and>
            Parent cti = spans ! k \<and> Span cti = spans ! Suc k \<and> outs ! k = span_record cti start None name ''start''))))"
proof (induction ss arbitrary: c)
  case Nil
  have "\<exists>par. ti = ti\<lparr>Parent := par\<rparr>" for ti :: traceinfo by (rule exI [of _ "Parent ti"]) simp
  then show ?case by (auto simp: Let_def)
next
  case (Cons s ss)
  obtain name rnd now where s: "s = (name, rnd, now)" by (cases s) auto
  show ?case
  proof (cases "GetTraceInfo c")
    case None
    then show ?thesis using Cons.IH [of c] by (auto simp: s NewSpan_untraced split: prod.splits)
  next
    case (Some ti)
    let ?ti = "ti\<lparr>Parent := Span ti, Span := rnd\<rparr>"
    obtain c' cls outs where n: "nested_spans ss (Traced c ?ti now) = (c', cls, outs)" by (metis prod_cases3)
    let ?rs = "map (\<lambda>(_, rnd, _). rnd) ss"
    from Cons.IH [of "Traced c ?ti now"] n have len: "length cls = length ss" "length outs = length ss"
      and final: "\<exists>par. GetTraceInfo c' = Some (ti\<lparr>Parent := par, Span := last (rnd # ?rs)\<rparr>)"
      and IH: "\<forall>k < length ss. \<exists>cti start name. cls ! k = CloseSpan cti start name \<and> Trace cti = Trace ti \<and>
        logger cti = logger ti \<and> Parent cti = (rnd # ?rs) ! k \<and> Span cti = (rnd # ?rs) ! Suc k \<and>
        outs ! k = span_record cti start None name ''start''"
      by (simp_all add: Let_def split: if_splits)
    have "\<exists>cti start nm. (CloseSpan ?ti now name # cls) ! k = CloseSpan cti start nm \<and> Trace cti = Trace ti \<and>
        logger cti = logger ti \<and> Parent cti = (Span ti # rnd # ?rs) ! k \<and> Span cti = (Span ti # rnd # ?rs) ! Suc k \<and>
        (span_record ?ti now None name ''start'' # outs) ! k = span_record cti start None nm ''start''"
      if "k < Suc (length ss)" for k
      using that IH by (cases k) auto
    with final len show ?thesis
      by (simp add: s n NewSpan_traced [OF Some] Some Let_def)
  qed
qed


theorem nested_spans_chain_witness:
  "\<exists>par. GetTraceInfo (fst (nested_spans [(''a'', 7, 0), (''b'', 8, 1)] (BeginNewTraceContext None 5 0))) =
     Some \<lparr>Trace = 5, Span = 8, Parent = par, logger = None\<rparr>"
proof -
  let ?c = "BeginNewTraceContext None 5 0"
  obtain c' cls outs where n: "nested_spans [(''a'', 7, 0), (''b'', 8, 1)] ?c = (c', cls, outs)" by (metis prod_cases3)
  have c: "GetTraceInfo ?c = Some \<lparr>Trace = 5, Span = 5, Parent = 0, logger = None\<rparr>"
    by (simp add: BeginNewTraceContext_def BeginNewTraceContextWithLogger_def AttachTraceInfo_def)
  show ?thesis using nested_spans_chain [of "[(''a'', 7, 0), (''b'', 8, 1)]" ?c] unfolding n by (auto simp: c Let_def)
qed


end
