(* ===== verification/Loggers.thy ===== *)
theory Loggers
  imports Service
begin

text \<open>
  The loggers of the v12 framework: \<open>Severity\<close> (\<open>cocaine12/severity.go\<close>), the logger that sends to
  the logging service (\<open>cocaine12/clogger.go\<close>), the one that prints (\<open>cocaine12/fallbacklogger.go\<close>),
  entries with fields (\<open>cocaine12/entry.go\<close>) and the choice between them (\<open>cocaine12/logger.go\<close>).
  Formatting (\<open>fmt.Sprint\<close>, \<open>fmt.Sprintf\<close>) is a parameter. The interface \<open>Logger\<close> is the locale
  \<open>leveled_logger\<close>.
\<close>

section \<open>Severity\<close>

definition DebugLevel :: i32 where "DebugLevel = 0"
definition InfoLevel :: i32 where "InfoLevel = 1"
definition WarnLevel :: i32 where "WarnLevel = 2"
definition ErrorLevel :: i32 where "ErrorLevel = 3"

lemmas levels = DebugLevel_def InfoLevel_def WarnLevel_def ErrorLevel_def

definition FormatInt :: "int \<Rightarrow> string" where
  "FormatInt i = (if i < 0 then ''-'' @ decimal (nat (- i)) else decimal (nat i))"

definition Severity_String :: "i32 \<Rightarrow> string" where
  "Severity_String i =
     (if i = DebugLevel then ''DEBUG'' else if i = InfoLevel then ''INFO'' else if i = WarnLevel then ''WARNING''
      else if i = ErrorLevel then ''ERROR'' else FormatInt (sint i))"

type_synonym fields = "(string \<times> gval) list"

text \<open>The two formatting functions of \<open>fmt\<close>.\<close>

record fmt =
  Sprint :: "gval list \<Rightarrow> string"
  Sprintf :: "string \<Rightarrow> gval list \<Rightarrow> string"

section \<open>The printing logger\<close>

text \<open>\<open>fl_printed\<close>: the lines given to \<open>log.Printf\<close>.\<close>

record fallbackLogger =
  fl_severity :: i32
  fl_printed :: "string list"

definition newFallbackLogger :: fallbackLogger where
  "newFallbackLogger = \<lparr>fl_severity = DebugLevel, fl_printed = []\<rparr>"

definition fallback_formatFields :: "fmt \<Rightarrow> fields \<Rightarrow> string" where
  "fallback_formatFields f fs =
     (if fs = [] then ''[ ]''
      else ''[ '' @ concat (map (\<lambda>(k, v). k @ ''='' @ Sprint f [v] @ '' '') fs) @ '']'')"

definition fallback_V :: "fallbackLogger \<Rightarrow> i32 \<Rightarrow> bool" where
  "fallback_V l level \<longleftrightarrow> fl_severity l \<le>s level"

definition fallback_log :: "fmt \<Rightarrow> i32 \<Rightarrow> fields \<Rightarrow> string \<Rightarrow> gval list \<Rightarrow> fallbackLogger \<Rightarrow> fallbackLogger" where
  "fallback_log f level fs msg args l =
     (if \<not> fallback_V l level then l
      else
        (let line = (if fs = [] then ''['' @ Severity_String level @ ''] '' @ Sprintf f msg args
                     else ''['' @ Severity_String level @ ''] '' @ Sprintf f msg args @ '' '' @ fallback_formatFields f fs) in
         l\<lparr>fl_printed := fl_printed l @ [line]\<rparr>))"

definition fallback_SetVerbosity :: "i32 \<Rightarrow> fallbackLogger \<Rightarrow> fallbackLogger" where
  "fallback_SetVerbosity v l = l\<lparr>fl_severity := v\<rparr>"

definition fallback_Verbosity :: "fallbackLogger \<Rightarrow> i32" where "fallback_Verbosity l = fl_severity l"

text \<open>The eight methods of \<open>EntryLogger\<close>; \<open>fmt.Sprint\<close> of the arguments becomes the format.\<close>

definition fallback_Errf where "fallback_Errf f msg args = fallback_log f ErrorLevel [] msg args"
definition fallback_Err where "fallback_Err f args = fallback_log f ErrorLevel [] (Sprint f args) []"
definition fallback_Warnf where "fallback_Warnf f msg args = fallback_log f WarnLevel [] msg args"
definition fallback_Warn where "fallback_Warn f args = fallback_log f WarnLevel [] (Sprint f args) []"
definition fallback_Infof where "fallback_Infof f msg args = fallback_log f InfoLevel [] msg args"
definition fallback_Info where "fallback_Info f args = fallback_log f InfoLevel [] (Sprint f args) []"
definition fallback_Debugf where "fallback_Debugf f msg args = fallback_log f DebugLevel [] msg args"
definition fallback_Debug where "fallback_Debug f args = fallback_log f DebugLevel [] (Sprint f args) []"

section \<open>The logger of the logging service\<close>

definition loggerEmit :: u64 where "loggerEmit = 0"

record cocaineLogger =
  cl_service :: service
  cl_severity :: i32
  cl_prefix :: string

definition newCocaineLogger :: "string \<Rightarrow> service \<Rightarrow> cocaineLogger" where
  "newCocaineLogger appName s = \<lparr>cl_service = s, cl_severity = - 100, cl_prefix = ''app/'' @ appName\<rparr>"

text \<open>Structures are encoded as arrays on the wire.\<close>

definition cocaine_formatFields :: "fields \<Rightarrow> gval" where
  "cocaine_formatFields fs = GSlice (map (\<lambda>(k, v). GSlice [GString k, v]) fs)"

definition cocaine_V :: "cocaineLogger \<Rightarrow> i32 \<Rightarrow> bool" where
  "cocaine_V c level \<longleftrightarrow> cl_severity c \<le>s level"

text \<open>
  \<open>Verbosity\<close>: the cached level, or what the service answers: an error of the call, of the channel
  or of the extraction, or the level. \<open>s\<close> is the service after the call.
\<close>

definition cocaine_Verbosity :: "goerr + i32 \<Rightarrow> service \<Rightarrow> cocaineLogger \<Rightarrow> cocaineLogger \<times> i32" where
  "cocaine_Verbosity answer s c =
     (if cl_severity c \<noteq> - 100 then (c, cl_severity c)
      else (case answer of
              Inl err \<Rightarrow> (c\<lparr>cl_service := s\<rparr>, DebugLevel)
            | Inr level \<Rightarrow> (c\<lparr>cl_service := s, cl_severity := level\<rparr>, level)))"

text \<open>\<open>log\<close> in two steps, as the logger's lock does not exclude other users of the service.\<close>

definition cocaine_log_number :: "cocaineLogger \<Rightarrow> cocaineLogger \<times> u64" where
  "cocaine_log_number c =
     (case sessions_Next (sv_sessions (cl_service c)) of (ss, i) \<Rightarrow>
        (c\<lparr>cl_service := (cl_service c)\<lparr>sv_sessions := ss\<rparr>\<rparr>, i))"

definition cocaine_log_msg :: "fmt \<Rightarrow> i32 \<Rightarrow> fields \<Rightarrow> string \<Rightarrow> gval list \<Rightarrow> string \<Rightarrow> u64 \<Rightarrow> message" where
  "cocaine_log_msg f level fs msg args pre i =
     \<lparr>Session = i, MsgType = loggerEmit,
      Payload = [GInt32 level, GString pre, GString (if args \<noteq> [] then Sprintf f msg args else msg), cocaine_formatFields fs],
      Headers = []\<rparr>"

definition cocaine_log :: "fmt \<Rightarrow> bool \<Rightarrow> i32 \<Rightarrow> fields \<Rightarrow> string \<Rightarrow> gval list \<Rightarrow> cocaineLogger \<Rightarrow> cocaineLogger option" where
  "cocaine_log f dropped level fs msg args c =
     (case cocaine_log_number c of (c', i) \<Rightarrow>
        map_option (\<lambda>s. c'\<lparr>cl_service := s\<rparr>)
          (sendMsg dropped (cocaine_log_msg f level fs msg args (cl_prefix c) i) (cl_service c')))"

text \<open>A method of \<open>EntryLogger\<close>: nothing below the verbosity, else \<open>log\<close>.\<close>

definition cocaine_at :: "fmt \<Rightarrow> bool \<Rightarrow> i32 \<Rightarrow> fields \<Rightarrow> string \<Rightarrow> gval list \<Rightarrow> cocaineLogger \<Rightarrow> cocaineLogger option" where
  "cocaine_at f dropped level fs msg args c =
     (if cocaine_V c level then cocaine_log f dropped level fs msg args c else Some c)"

definition cocaine_Debug where "cocaine_Debug f dr args = cocaine_at f dr DebugLevel [] (Sprint f args) []"
definition cocaine_Debugf where "cocaine_Debugf f dr msg args = cocaine_at f dr DebugLevel [] msg args"
definition cocaine_Info where "cocaine_Info f dr args = cocaine_at f dr InfoLevel [] (Sprint f args) []"
definition cocaine_Infof where "cocaine_Infof f dr msg args = cocaine_at f dr InfoLevel [] msg args"
definition cocaine_Warn where "cocaine_Warn f dr args = cocaine_at f dr WarnLevel [] (Sprint f args) []"
definition cocaine_Warnf where "cocaine_Warnf f dr msg args = cocaine_at f dr WarnLevel [] msg args"
definition cocaine_Err where "cocaine_Err f dr args = cocaine_at f dr ErrorLevel [] (Sprint f args) []"
definition cocaine_Errf where "cocaine_Errf f dr msg args = cocaine_at f dr ErrorLevel [] msg args"

definition cocaine_Close :: "cocaineLogger \<Rightarrow> cocaineLogger go" where
  "cocaine_Close c = go_bind (service_close (cl_service c)) (\<lambda>s. Ret (c\<lparr>cl_service := s\<rparr>))"

section \<open>Entries and the choice of a logger\<close>

record 'l entry =
  en_Logger :: 'l
  en_Fields :: fields

definition WithFields :: "fields \<Rightarrow> 'l \<Rightarrow> 'l entry" where
  "WithFields fs l = \<lparr>en_Logger = l, en_Fields = fs\<rparr>"

text \<open>An entry over a logger with the methods \<open>V\<close> and \<open>log\<close>.\<close>

definition entry_at :: "('l \<Rightarrow> i32 \<Rightarrow> bool) \<Rightarrow> (i32 \<Rightarrow> fields \<Rightarrow> string \<Rightarrow> gval list \<Rightarrow> 'l \<Rightarrow> 'l option)
    \<Rightarrow> i32 \<Rightarrow> string \<Rightarrow> gval list \<Rightarrow> 'l entry \<Rightarrow> 'l entry option" where
  "entry_at V log level msg args e =
     (if V (en_Logger e) level
      then map_option (\<lambda>l. e\<lparr>en_Logger := l\<rparr>) (log level (en_Fields e) msg args (en_Logger e)) else Some e)"

definition entry_Errf where "entry_Errf V log msg args = entry_at V log ErrorLevel msg args"
definition entry_Warnf where "entry_Warnf V log msg args = entry_at V log WarnLevel msg args"
definition entry_Infof where "entry_Infof V log msg args = entry_at V log InfoLevel msg args"
definition entry_Debugf where "entry_Debugf V log msg args = entry_at V log DebugLevel msg args"
definition entry_Err where "entry_Err V log f args = entry_at V log ErrorLevel (Sprint f args) []"
definition entry_Warn where "entry_Warn V log f args = entry_at V log WarnLevel (Sprint f args) []"
definition entry_Info where "entry_Info V log f args = entry_at V log InfoLevel (Sprint f args) []"
definition entry_Debug where "entry_Debug V log f args = entry_at V log DebugLevel (Sprint f args) []"

text \<open>A sequence of calls on an entry.\<close>

fun entries :: "('l \<Rightarrow> i32 \<Rightarrow> bool) \<Rightarrow> (i32 \<Rightarrow> fields \<Rightarrow> string \<Rightarrow> gval list \<Rightarrow> 'l \<Rightarrow> 'l option)
    \<Rightarrow> (i32 \<times> string \<times> gval list) list \<Rightarrow> 'l entry \<Rightarrow> 'l entry option" where
  "entries V log [] e = Some e"
| "entries V log ((level, msg, args) # ms) e =
     (case entry_at V log level msg args e of None \<Rightarrow> None | Some e' \<Rightarrow> entries V log ms e')"

text \<open>\<open>NewLoggerWithName\<close>: never an error.\<close>

definition NewLoggerWithName :: "string \<Rightarrow> goerr + service \<Rightarrow> cocaineLogger + fallbackLogger" where
  "NewLoggerWithName appName s =
     (case s of Inl err \<Rightarrow> Inr newFallbackLogger | Inr sv \<Rightarrow> Inl (newCocaineLogger appName sv))"

definition defaultLoggerName :: string where "defaultLoggerName = ''logging''"

definition NewLogger :: "string \<Rightarrow> (string \<Rightarrow> goerr + service) \<Rightarrow> cocaineLogger + fallbackLogger" where
  "NewLogger appName connect = NewLoggerWithName appName (connect defaultLoggerName)"

section \<open>The interface\<close>

text \<open>
  What an entry relies on of its logger: \<open>V\<close> compares with a verbosity, and \<open>log\<close> at a visible
  level emits exactly the record of the message, and changes neither the verbosity nor how later
  records are made.
\<close>

locale leveled_logger =
  fixes V :: "'l \<Rightarrow> i32 \<Rightarrow> bool"
    and log :: "i32 \<Rightarrow> fields \<Rightarrow> string \<Rightarrow> gval list \<Rightarrow> 'l \<Rightarrow> 'l option"
    and verbosity :: "'l \<Rightarrow> i32"
    and emitted :: "'l \<Rightarrow> 'r list"
    and record_of :: "'l \<Rightarrow> i32 \<Rightarrow> fields \<Rightarrow> string \<Rightarrow> gval list \<Rightarrow> 'r"
    and invar :: "'l \<Rightarrow> bool"
  assumes V_verbosity: "V l level \<longleftrightarrow> verbosity l \<le>s level"
    and log_emits: "invar l \<Longrightarrow> V l level \<Longrightarrow>
      \<exists>t. log level fs msg args l = Some t \<and> emitted t = emitted l @ [record_of l level fs msg args] \<and>
        verbosity t = verbosity l \<and> record_of t = record_of l \<and> invar t"
begin

lemma at_level:
  assumes "invar (en_Logger e)"
  shows "\<exists>u. entry_at V log level msg args e = Some u \<and> en_Fields u = en_Fields e \<and>
    emitted (en_Logger u) = emitted (en_Logger e) @
      (if verbosity (en_Logger e) \<le>s level then [record_of (en_Logger e) level (en_Fields e) msg args] else []) \<and>
    verbosity (en_Logger u) = verbosity (en_Logger e) \<and> record_of (en_Logger u) = record_of (en_Logger e) \<and>
    invar (en_Logger u)"
  using assms log_emits [OF assms, of level "en_Fields e" msg args] by (auto simp: entry_at_def V_verbosity)

lemma entries_records:
  "invar (en_Logger e) \<Longrightarrow> \<exists>u. entries V log ms e = Some u \<and>
     emitted (en_Logger u) = emitted (en_Logger e) @
       map (\<lambda>(level, msg, args). record_of (en_Logger e) level (en_Fields e) msg args)
         (filter (\<lambda>(level, _). verbosity (en_Logger e) \<le>s level) ms)"
proof (induction ms arbitrary: e)
  case (Cons m ms)
  obtain level msg args where m: "m = (level, msg, args)" by (cases m) auto
  obtain u where u: "entry_at V log level msg args e = Some u" "en_Fields u = en_Fields e"
      "emitted (en_Logger u) = emitted (en_Logger e) @
        (if verbosity (en_Logger e) \<le>s level then [record_of (en_Logger e) level (en_Fields e) msg args] else [])"
      "verbosity (en_Logger u) = verbosity (en_Logger e)" "record_of (en_Logger u) = record_of (en_Logger e)"
      "invar (en_Logger u)"
    using at_level [OF Cons.prems] by blast
  from Cons.IH [OF u(6)] u show ?case by (auto simp: m)
qed simp

end

definition fallback_line :: "fmt \<Rightarrow> i32 \<Rightarrow> fields \<Rightarrow> string \<Rightarrow> gval list \<Rightarrow> string" where
  "fallback_line f level fs msg args =
     ''['' @ Severity_String level @ ''] '' @ Sprintf f msg args @
       (if fs = [] then [] else '' '' @ fallback_formatFields f fs)"

interpretation fl: leveled_logger fallback_V "\<lambda>level fs msg args l. Some (fallback_log f level fs msg args l)"
  fl_severity fl_printed "\<lambda>_. fallback_line f" "\<lambda>_. True" for f
  by unfold_locales (auto simp: fallback_V_def fallback_log_def fallback_line_def)

definition cocaine_sent :: "cocaineLogger \<Rightarrow> gval list list" where
  "cocaine_sent c = map Payload (so_sent (sv_socks (cl_service c) ! sv_sock (cl_service c)))"

definition cocaine_payload :: "fmt \<Rightarrow> cocaineLogger \<Rightarrow> i32 \<Rightarrow> fields \<Rightarrow> string \<Rightarrow> gval list \<Rightarrow> gval list" where
  "cocaine_payload f c level fs msg args =
     [GInt32 level, GString (cl_prefix c), GString (if args = [] then msg else Sprintf f msg args),
      GSlice (map (\<lambda>(k, v). GSlice [GString k, v]) fs)]"

interpretation cl: leveled_logger cocaine_V "cocaine_log f False" cl_severity cocaine_sent "cocaine_payload f"
  "\<lambda>c. sv_sock (cl_service c) < length (sv_socks (cl_service c))" for f
  by unfold_locales
    (auto simp: cocaine_V_def cocaine_log_def cocaine_log_number_def cocaine_log_msg_def cocaine_formatFields_def
      sendMsg_def cocaine_sent_def cocaine_payload_def Let_def fun_eq_iff split: prod.splits)

section \<open>Properties\<close>

text \<open>Levels are honoured. An entry with any fields, over the printing logger or over the logger of
  the logging service with an open connection, produces for any sequence of messages exactly the
  records of the messages at or above the logger's verbosity, each with the entry's fields, in
  order, after what was there before.\<close>

theorem entries_respect_verbosity:
  "(\<exists>e. entries fallback_V (\<lambda>level fs msg args l. Some (fallback_log f level fs msg args l)) ms (WithFields fs l) = Some e \<and>
      fl_printed (en_Logger e) = fl_printed l @
        map (\<lambda>(level, msg, args). fallback_line f level fs msg args) (filter (\<lambda>(level, _). fl_severity l \<le>s level) ms)) \<and>
   (sv_sock (cl_service c) < length (sv_socks (cl_service c)) \<longrightarrow>
     (\<exists>e. entries cocaine_V (cocaine_log f False) ms (WithFields fs c) = Some e \<and>
        cocaine_sent (en_Logger e) = cocaine_sent c @
          map (\<lambda>(level, msg, args). cocaine_payload f c level fs msg args) (filter (\<lambda>(level, _). cl_severity c \<le>s level) ms)))"
  using fl.entries_records [where e = "WithFields fs l" and f = f and ms = ms]
    cl.entries_records [where e = "WithFields fs c" and f = f and ms = ms]
  by (simp add: WithFields_def)

definition demo_fmt :: fmt where "demo_fmt = \<lparr>Sprint = \<lambda>_. ''x'', Sprintf = \<lambda>s _. s\<rparr>"

lemma level_order: "\<not> WarnLevel \<le>s DebugLevel" "WarnLevel \<le>s ErrorLevel"
  by code_simp+

theorem entries_respect_verbosity_witness:
  "\<exists>e. entries cocaine_V (cocaine_log demo_fmt False) [(DebugLevel, ''a'', []), (ErrorLevel, ''b'', [])]
      (WithFields [] ((newCocaineLogger ''app'' (newService []))\<lparr>cl_severity := WarnLevel\<rparr>)) = Some e \<and>
    cocaine_sent (en_Logger e) = [[GInt32 ErrorLevel, GString ''app/app'', GString ''b'', GSlice []]]"
  using entries_respect_verbosity [of demo_fmt "[(DebugLevel, ''a'', []), (ErrorLevel, ''b'', [])]" "[]" newFallbackLogger
    "(newCocaineLogger ''app'' (newService []))\<lparr>cl_severity := WarnLevel\<rparr>"]
  by (simp add: newCocaineLogger_def newService_def newSock_def level_order cocaine_sent_def cocaine_payload_def
    del: entries.simps)
text \<open>The loggers share the service's session numbers without its ordering lock. A \<open>Call\<close> between the
  two steps of \<open>log\<close> opens a session with a higher number first, so that the numbers that reach the
  connection are not increasing.\<close>

theorem logger_session_race:
  "\<exists>c c' i s t r. c = newCocaineLogger ''app'' (newService demo_api) \<and> cocaine_log_number c = (c', i) \<and>
     service_call ''enqueue'' [] None False (cl_service c') = Some (s, Inr r) \<and>
     sendMsg False (cocaine_log_msg demo_fmt ErrorLevel [] ''late'' [] (cl_prefix c') i) s = Some t \<and>
     \<not> sorted (map Session (so_sent (sv_socks t ! sv_sock t)))"
  by (simp add: newCocaineLogger_def cocaine_log_number_def cocaine_log_msg_def service_demo_simps)

end
