(* ===== verification/Startup.thy ===== *)
theory Startup
  imports Adapter Defaults Tokens Stack Socket TraceCtx Loggers
begin

text \<open>
  How a process becomes a worker: the configuration is parsed once, on first use (\<open>GetDefaults\<close> in
  \<open>cocaine12/defaults.go\<close>); \<open>NewWorkerNG\<close> (\<open>workerng.go\<close>) takes the endpoint, the token, the
  identity and the protocol version from it, creates the token manager and connects to the runtime
  (\<open>newUnixConnection\<close> in \<open>asocket.go\<close>). It also holds the flags of the v0.11 framework (\<open>init\<close> in
  \<open>cocaine/worker.go\<close>) and \<open>printAllStacks\<close>.
\<close>

section \<open>The process\<close>

text \<open>Arguments after the program's name, environment, the stored defaults, the registered factories.\<close>

record 'f process =
  ps_args :: "string list"
  ps_env :: "string \<Rightarrow> string"
  ps_defaults :: "defaultValues option"
  ps_factories :: "'f registry"

text \<open>None: the process has printed its version and exited.\<close>

definition GetDefaults :: "(string \<Rightarrow> i64 \<times> bool) \<Rightarrow> 'f process \<Rightarrow> ('f process \<times> defaultValues) option" where
  "GetDefaults parseInt0 p =
     (case ps_defaults p of
        Some v \<Rightarrow> Some (p, v)
      | None \<Rightarrow> map_option (\<lambda>v. (p\<lparr>ps_defaults := Some v\<rparr>, v)) (newDefaults parseInt0 (ps_env p) (ps_args p)))"

definition defaults_Token :: "defaultValues \<Rightarrow> token" where
  "defaults_Token v = NewToken (fst (dv_token v)) (snd (dv_token v))"

section \<open>Connections\<close>

definition newAsyncConnection :: "(string \<Rightarrow> string \<Rightarrow> goerr option) \<Rightarrow> string \<Rightarrow> string \<Rightarrow> goerr + 'm asyncRWSocket" where
  "newAsyncConnection dial family address =
     (case dial family address of Some err \<Rightarrow> Inl err | None \<Rightarrow> Inr newAsyncRW)"

definition newUnixConnection :: "(string \<Rightarrow> string \<Rightarrow> goerr option) \<Rightarrow> string \<Rightarrow> goerr + 'm asyncRWSocket" where
  "newUnixConnection dial address = newAsyncConnection dial ''unix'' address"

definition newTCPConnection :: "(string \<Rightarrow> string \<Rightarrow> goerr option) \<Rightarrow> string \<Rightarrow> goerr + 'm asyncRWSocket" where
  "newTCPConnection dial address = newAsyncConnection dial ''tcp'' address"

section \<open>The worker\<close>

text \<open>
  \<open>NewWorkerNG\<close>: a worker with its token manager, or the first error. \<open>lost\<close> and \<open>c\<close> say what
  happens to the handshake. The inner option is None when the case \<open>c\<close> of the select is not ready.
\<close>

definition NewWorkerNG :: "(string \<Rightarrow> i64 \<times> bool) \<Rightarrow> ('f \<Rightarrow> string \<Rightarrow> token \<Rightarrow> goerr + 'm) \<Rightarrow> (string \<Rightarrow> string \<Rightarrow> goerr option)
    \<Rightarrow> bool \<Rightarrow> sendCase \<Rightarrow> 'f process \<Rightarrow> ('f process \<times> (goerr + worker \<times> (unit + 'm)) option) option" where
  "NewWorkerNG parseInt0 Create dial lost c p =
     map_option (\<lambda>(p', v).
       (p',
        if dv_endpoint v = '''' then Some (Inl ErrNoCocaineEndpoint)
        else (case NewTokenManager (ps_factories p') Create (dv_appName v) (defaults_Token v) of
                Inl err \<Rightarrow> Some (Inl err)
              | Inr tokenManager \<Rightarrow>
                  (case newUnixConnection dial (dv_endpoint v) :: goerr + message asyncRWSocket of
                     Inl err \<Rightarrow> Some (Inl err)
                   | Inr sock \<Rightarrow>
                       map_option (\<lambda>r. case r of Inl err \<Rightarrow> Inl err | Inr w \<Rightarrow> Inr (w, tokenManager))
                         (newWorkerNG (dv_uuid v) (dv_protocol v) (dv_debug v) lost c)))))
      (GetDefaults parseInt0 p)"

definition worker_Token :: "('m \<Rightarrow> token) \<Rightarrow> worker \<times> (unit + 'm) \<Rightarrow> token" where
  "worker_Token managerToken w = (case snd w of Inl n \<Rightarrow> NullTokenManager_Token n | Inr m \<Rightarrow> managerToken m)"

section \<open>The common trace logger\<close>

text \<open>
  \<open>getLog\<close>: the logger of the trace, or the common one, created on first use. Creating it cannot
  fail, as \<open>NewLogger\<close> falls back, so the panic in the source is never reached.
\<close>

definition getLog :: "string \<Rightarrow> (string \<Rightarrow> goerr + service) \<Rightarrow> traceinfo \<Rightarrow> (cocaineLogger + fallbackLogger) option
    \<Rightarrow> (cocaineLogger + fallbackLogger) option \<times> (nat + cocaineLogger + fallbackLogger)" where
  "getLog appName connect ti traceLogger =
     (case logger ti of
        Some l \<Rightarrow> (traceLogger, Inl l)
      | None \<Rightarrow>
          (let l = (case traceLogger of Some l \<Rightarrow> l | None \<Rightarrow> NewLogger appName connect) in (Some l, Inr l)))"

lemma getLog_once:
  assumes "getLog appName connect ti t = (t1, Inr l)" and "logger ti2 = None"
  shows "getLog appName2 connect2 ti2 t1 = (t1, Inr l)"
  using assms by (auto simp: getLog_def Let_def split: option.splits)

section \<open>Stacks on SIGUSR1\<close>

datatype stackOutput = StackTrace bytes | StackFileFailed string goerr

text \<open>What is printed; \<open>writeFile\<close> is asked to create the file. None: the dump does not end.\<close>

definition printAllStacks :: "(nat \<Rightarrow> bytes) \<Rightarrow> string \<Rightarrow> nat \<Rightarrow> (string \<Rightarrow> bytes \<Rightarrow> nat \<Rightarrow> goerr option)
    \<Rightarrow> stackOutput list go option" where
  "printAllStacks dumps appName pid writeFile =
     map_option (\<lambda>r. go_bind r (\<lambda>stackTrace.
       let filename = appName @ ''-'' @ decimal pid in
       Ret (StackTrace stackTrace #
         (case writeFile filename stackTrace 432 of Some err \<Rightarrow> [StackFileFailed filename err] | None \<Rightarrow> []))))
      (dumpStack dumps)"

section \<open>Flags of the v0.11 framework\<close>

record flags11 =
  flagUUID :: string
  flagEndpoint :: string
  flagApp :: string
  flagLocator :: string

definition set_flag11 :: "string \<Rightarrow> string \<Rightarrow> flags11 \<Rightarrow> (flags11 \<times> bool) option" where
  "set_flag11 name val f =
     (if name = ''uuid'' then Some (f\<lparr>flagUUID := val\<rparr>, True)
      else if name = ''endpoint'' then Some (f\<lparr>flagEndpoint := val\<rparr>, True)
      else if name = ''app'' then Some (f\<lparr>flagApp := val\<rparr>, True)
      else if name = ''locator'' then Some (f\<lparr>flagLocator := val\<rparr>, True)
      else None)"

definition init11 :: "string list \<Rightarrow> flags11" where
  "init11 args = parse_args set_flag11 args
     \<lparr>flagUUID = '''', flagEndpoint = '''', flagApp = ''standalone'', flagLocator = ''localhost:10053''\<rparr>"

section \<open>Lemmas\<close>

text \<open>A command line of \<open>--name value\<close> pairs, and the value it gives a flag: the last one, or a default.\<close>

definition command_line :: "(string \<times> string) list \<Rightarrow> string list" where
  "command_line kvs = concat (map (\<lambda>(name, val). [''--'' @ name, val]) kvs)"

definition given :: "(string \<times> string) list \<Rightarrow> string \<Rightarrow> string \<Rightarrow> string" where
  "given kvs name dflt = (case map_of (rev kvs) name of Some val \<Rightarrow> val | None \<Rightarrow> dflt)"

lemma given_Cons: "given ((name, val) # kvs) n dflt = given kvs n (if n = name then val else dflt)"
  by (auto simp: given_def map_add_def split: option.splits)

lemma given_Nil [simp]: "given [] n dflt = dflt"
  by (simp add: given_def)

lemma command_line_Cons:
  assumes "name \<in> set [''app'', ''endpoint'', ''locator'', ''uuid'', ''protocol'']" and "setter name val v = Some (v', True)"
  shows "parse_args setter (command_line ((name, val) # kvs)) v = parse_args setter (command_line kvs) v'"
proof -
  have "flag_take (''--'' @ name) (val # args) = Some (name, val, args)" for args
    using assms(1) by (intro flag_take_pair) (auto simp: is_bool_flag_def)
  with assms(2) show ?thesis by (simp add: command_line_def)
qed

lemma command_line_Nil [simp]: "command_line [] = []"
  by (simp add: command_line_def)

definition proto_of :: "(string \<Rightarrow> i64 \<times> bool) \<Rightarrow> (string \<times> string) list \<Rightarrow> i64 \<Rightarrow> i64" where
  "proto_of parseInt0 kvs dflt = (case map_of (rev kvs) ''protocol'' of Some val \<Rightarrow> fst (parseInt0 val) | None \<Rightarrow> dflt)"

lemma proto_of_Cons:
  "proto_of q ((name, val) # kvs) dflt = proto_of q kvs (if name = ''protocol'' then fst (q val) else dflt)"
  by (auto simp: proto_of_def map_add_def split: option.splits)

lemma proto_of_Nil [simp]: "proto_of q [] dflt = dflt"
  by (simp add: proto_of_def)

lemma parse_flags_command_line:
  assumes "\<forall>(name, val) \<in> set kvs. name \<in> set [''app'', ''endpoint'', ''locator'', ''uuid'', ''protocol''] \<and>
      (name = ''protocol'' \<longrightarrow> snd (parseInt0 val))"
  shows "parse_flags parseInt0 (command_line kvs) v =
     v\<lparr>dv_appName := given kvs ''app'' (dv_appName v), dv_endpoint := given kvs ''endpoint'' (dv_endpoint v),
       dv_locators := (case map_of (rev kvs) ''locator'' of Some l \<Rightarrow> parseLocators l | None \<Rightarrow> dv_locators v),
       dv_protocol := proto_of parseInt0 kvs (dv_protocol v), dv_uuid := given kvs ''uuid'' (dv_uuid v)\<rparr>"
  using assms
proof (induction kvs arbitrary: v)
  case (Cons kv kvs)
  obtain name val where kv: "kv = (name, val)" by (cases kv)
  from Cons.prems kv have name: "name \<in> set [''app'', ''endpoint'', ''locator'', ''uuid'', ''protocol'']"
      "name = ''protocol'' \<longrightarrow> snd (parseInt0 val)" by auto
  define v' where "v' = fst (the (set_flag parseInt0 name val v))"
  consider (app) "name = ''app''" | (endpoint) "name = ''endpoint''" | (locator) "name = ''locator''" | (uuid) "name = ''uuid''"
    | (protocol) "name = ''protocol''" "snd (parseInt0 val)"
    using name by fastforce
  note names = this
  have v': "set_flag parseInt0 name val v = Some (v', True)"
    by (cases rule: names) (simp_all add: v'_def set_flag_def)
  have tail: "parse_flags parseInt0 (command_line (kv # kvs)) v = parse_flags parseInt0 (command_line kvs) v'"
    using command_line_Cons [where setter = "set_flag parseInt0", OF name(1) v'] by (simp add: kv parse_flags_def)
  have IH: "parse_flags parseInt0 (command_line kvs) v' =
     v'\<lparr>dv_appName := given kvs ''app'' (dv_appName v'), dv_endpoint := given kvs ''endpoint'' (dv_endpoint v'),
       dv_locators := (case map_of (rev kvs) ''locator'' of Some l \<Rightarrow> parseLocators l | None \<Rightarrow> dv_locators v'),
       dv_protocol := proto_of parseInt0 kvs (dv_protocol v'), dv_uuid := given kvs ''uuid'' (dv_uuid v')\<rparr>"
    using Cons.prems by (intro Cons.IH) auto
  show ?case unfolding tail IH
    by (cases rule: names)
      (simp_all add: kv given_Cons proto_of_Cons v'_def set_flag_def map_add_def split: option.split)
qed simp

lemma newDefaults_command_line:
  assumes "\<forall>(name, val) \<in> set kvs. name \<in> set [''app'', ''endpoint'', ''locator'', ''uuid'', ''protocol''] \<and>
      (name = ''protocol'' \<longrightarrow> snd (parseInt0 val))"
  shows "\<exists>v. newDefaults parseInt0 env (command_line kvs) = Some v \<and> dv_appName v = given kvs ''app'' ''gostandalone'' \<and>
     dv_endpoint v = given kvs ''endpoint'' '''' \<and> dv_uuid v = given kvs ''uuid'' '''' \<and>
     dv_protocol v = proto_of parseInt0 kvs defaultProtocolVersion \<and>
     dv_debug v = (map ascii_upper (env ''DEBUG'') = ''DEBUG'') \<and>
     defaults_Token v = NewToken (env ''COCAINE_APP_TOKEN_TYPE'') (env ''COCAINE_APP_TOKEN_BODY'')"
  by (simp add: newDefaults_def parse_flags_command_line [OF assms] defaults_Token_def)

text \<open>Later calls of \<open>GetDefaults\<close> give what the first one gave, whatever becomes of the environment.\<close>

lemma GetDefaults_once:
  assumes "GetDefaults parseInt0 p = Some (p', v)"
  shows "GetDefaults q (p'\<lparr>ps_args := args, ps_env := env\<rparr>) = Some (p'\<lparr>ps_args := args, ps_env := env\<rparr>, v)"
  using assms by (auto simp: GetDefaults_def split: option.splits)

lemma NewWorkerNG_once:
  assumes "GetDefaults q p = Some (p', v)" and "NewWorkerNG q Create dial lost c p = Some (p', r)"
  shows "\<exists>p2. NewWorkerNG q Create dial lost c (p'\<lparr>ps_args := args, ps_env := env\<rparr>) = Some (p2, r)"
proof -
  have fs: "ps_factories (p'\<lparr>ps_args := args, ps_env := env\<rparr>) = ps_factories p'" by simp
  show ?thesis using assms(2) unfolding NewWorkerNG_def GetDefaults_once [OF assms(1)] assms(1) option.map(2) prod.case fs
    by blast
qed

text \<open>The two generations read the same command line alike, but for the name of a nameless application.\<close>

lemma init11_command_line:
  assumes "\<forall>(name, val) \<in> set kvs. name \<in> set [''app'', ''endpoint'', ''locator'', ''uuid'']"
  shows "parse_args set_flag11 (command_line kvs) f = f\<lparr>flagUUID := given kvs ''uuid'' (flagUUID f),
    flagEndpoint := given kvs ''endpoint'' (flagEndpoint f), flagApp := given kvs ''app'' (flagApp f),
    flagLocator := given kvs ''locator'' (flagLocator f)\<rparr>"
  using assms
proof (induction kvs arbitrary: f)
  case (Cons kv kvs)
  obtain name val where kv: "kv = (name, val)" by (cases kv)
  define f' where "f' = fst (the (set_flag11 name val f))"
  consider (app) "name = ''app''" | (endpoint) "name = ''endpoint''" | (locator) "name = ''locator''" | (uuid) "name = ''uuid''"
    using Cons.prems kv by fastforce
  note names = this
  have f': "set_flag11 name val f = Some (f', True)"
    by (cases rule: names) (simp_all add: f'_def set_flag11_def)
  have tail: "parse_args set_flag11 (command_line (kv # kvs)) f = parse_args set_flag11 (command_line kvs) f'"
    using command_line_Cons [where setter = set_flag11, OF _ f'] Cons.prems by (auto simp: kv)
  have "\<forall>(name, val) \<in> set kvs. name \<in> set [''app'', ''endpoint'', ''locator'', ''uuid'']" using Cons.prems by auto
  note IH = Cons.IH [OF this, of f']
  show ?case unfolding tail IH
    by (cases rule: names) (simp_all add: kv given_Cons f'_def set_flag11_def)
qed simp

section \<open>Properties\<close>

text \<open>C24: a process started by the runtime becomes a worker of exactly what its command line says.
  For every command line of \<open>--name value\<close> pairs, in any order and with repetitions (the last one
  wins), \<open>NewWorkerNG\<close> fails without an endpoint, with the error of the token manager the token's
  type selects, with the error of dialling that endpoint as a unix socket, and for every protocol
  version but 1 (so also when none is given, the default being 0), in this order; otherwise the
  first message of the worker is a handshake with the given identity, and its token is that of the
  selected manager. The configuration is read once: a second worker of the process gets the same,
  whatever its arguments and environment have become.\<close>

theorem worker_startup:
  assumes "ps_defaults p = None" and "ps_args p = command_line kvs"
    and kvs: "\<forall>(name, val) \<in> set kvs. name \<in> set [''app'', ''endpoint'', ''locator'', ''uuid'', ''protocol''] \<and>
      (name = ''protocol'' \<longrightarrow> snd (parseInt0 val))"
    and manager: "manager = NewTokenManager (ps_factories p) Create (given kvs ''app'' ''gostandalone'')
      (NewToken (ps_env p ''COCAINE_APP_TOKEN_TYPE'') (ps_env p ''COCAINE_APP_TOKEN_BODY''))"
    and endpoint: "endpoint = given kvs ''endpoint'' ''''"
    and proto: "proto = proto_of parseInt0 kvs defaultProtocolVersion"
  shows "\<exists>p' r. NewWorkerNG parseInt0 Create dial lost c p = Some (p', r) \<and>
      (\<forall>args env. \<exists>p2. NewWorkerNG parseInt0 Create dial lost c (p'\<lparr>ps_args := args, ps_env := env\<rparr>) = Some (p2, r)) \<and>
      (endpoint = '''' \<longrightarrow> r = Some (Inl ErrNoCocaineEndpoint)) \<and>
      (endpoint \<noteq> '''' \<longrightarrow>
        (\<forall>err. manager = Inl err \<longrightarrow> r = Some (Inl err)) \<and>
        (\<forall>m. manager = Inr m \<longrightarrow>
          (\<forall>err. dial ''unix'' endpoint = Some err \<longrightarrow> r = Some (Inl err)) \<and>
          (dial ''unix'' endpoint = None \<longrightarrow>
            (proto \<noteq> 1 \<longrightarrow> r = Some (Inl (ErrUnsupportedProtocol proto))) \<and>
            (proto = 1 \<and> c = Sent \<longrightarrow> (\<exists>w. r = Some (Inr (w, m)) \<and>
               w_out w = [newHandshakeV1 (given kvs ''uuid'' '''')] \<and>
               w_debug w = (map ascii_upper (ps_env p ''DEBUG'') = ''DEBUG''))))))"
proof -
  obtain v where v: "newDefaults parseInt0 (ps_env p) (command_line kvs) = Some v"
      "dv_appName v = given kvs ''app'' ''gostandalone''" "dv_endpoint v = endpoint" "dv_uuid v = given kvs ''uuid'' ''''"
      "dv_protocol v = proto" "dv_debug v = (map ascii_upper (ps_env p ''DEBUG'') = ''DEBUG'')"
      "defaults_Token v = NewToken (ps_env p ''COCAINE_APP_TOKEN_TYPE'') (ps_env p ''COCAINE_APP_TOKEN_BODY'')"
    using newDefaults_command_line [OF kvs] endpoint proto by metis
  let ?p = "p\<lparr>ps_defaults := Some v\<rparr>"
  have get: "GetDefaults parseInt0 p = Some (?p, v)" using assms(1,2) v(1) by (simp add: GetDefaults_def)
  have fs: "ps_factories ?p = ps_factories p" by simp
  have man: "NewTokenManager (ps_factories p) Create (dv_appName v) (defaults_Token v) = manager"
    using manager v(2,7) by simp
  obtain r where r: "NewWorkerNG parseInt0 Create dial lost c p = Some (?p, r)" by (simp add: NewWorkerNG_def get)
  moreover have "\<exists>p2. NewWorkerNG parseInt0 Create dial lost c (?p\<lparr>ps_args := args, ps_env := env\<rparr>) = Some (p2, r)" for args env
    using r by (rule NewWorkerNG_once [OF get])
  moreover have "r = (if endpoint = '''' then Some (Inl ErrNoCocaineEndpoint)
      else case manager of Inl err \<Rightarrow> Some (Inl err)
      | Inr tm \<Rightarrow> (case newUnixConnection dial endpoint :: goerr + message asyncRWSocket of Inl err \<Rightarrow> Some (Inl err)
         | Inr sock \<Rightarrow> map_option (\<lambda>r. case r of Inl err \<Rightarrow> Inl err | Inr w \<Rightarrow> Inr (w, tm))
             (newWorkerNG (given kvs ''uuid'' '''') proto (dv_debug v) lost c)))"
    using r unfolding NewWorkerNG_def get option.map(2) prod.case fs man v(3-5) by simp
  ultimately show ?thesis using v(6)
    by (intro exI [of _ ?p] exI [of _ r])
      (auto simp: newUnixConnection_def newAsyncConnection_def newWorkerNG_def conn_write_def newWorker0_def)
qed

theorem worker_startup_witness:
  "\<exists>p' r. NewWorkerNG (\<lambda>_. (1, True)) (\<lambda>f a t. Inl EOF) (\<lambda>_ _. None) False Sent
      \<lparr>ps_args = [''--endpoint'', ''/run/c'', ''--protocol'', ''1'', ''--uuid'', ''u'', ''--uuid'', ''v''],
       ps_env = (\<lambda>_. ''''), ps_defaults = None, ps_factories = [(''TVM'', ())]\<rparr> = Some (p', r) \<and>
     (\<exists>w. r = Some (Inr (w, Inl () :: unit + unit)) \<and> w_out w = [newHandshakeV1 ''v''])"
proof -
  let ?kvs = "[(''endpoint'', ''/run/c''), (''protocol'', ''1''), (''uuid'', ''u''), (''uuid'', ''v'')]"
  let ?p = "\<lparr>ps_args = [''--endpoint'', ''/run/c'', ''--protocol'', ''1'', ''--uuid'', ''u'', ''--uuid'', ''v''],
       ps_env = (\<lambda>_. ''''), ps_defaults = None, ps_factories = [(''TVM'', ())]\<rparr>"
  have "ps_defaults ?p = None" "ps_args ?p = command_line ?kvs" by (simp_all add: command_line_def)
  from worker_startup [OF this, where ?parseInt0.0 = "\<lambda>_. (1, True)" and Create = "\<lambda>f a t. Inl EOF :: goerr + unit"
      and dial = "\<lambda>_ _. None" and lost = False and c = Sent, OF _ refl refl refl]
  show ?thesis by (auto simp: given_def proto_of_def NewTokenManager_def NewToken_def)
qed

end
