(* ===== verification/WorkerStop.thy ===== *)
theory WorkerStop
  imports Worker Socket
begin

text \<open>
  \<open>WorkerNG.Stop\<close> of \<open>cocaine12/workerng.go\<close> called by several goroutines: the loop calls it when a
  terminate message arrives or the worker is disowned, the program from wherever it likes. No lock
  is held, so the method is cut at each of its accesses: the look at \<open>stopped\<close>, stopping the token
  manager, closing \<open>stopped\<close>, and the three parts of closing the connection (\<open>asocket.go\<close>), while the
  socket's own goroutines go on.
\<close>

section \<open>The machine\<close>

datatype stopPc =
    SpOut
  | SpToken
  | SpClose
  | SpUp
  | SpDown
  | SpConn
  | SpRet

record 'm stopState =
  sp_tokens :: nat \<comment> \<open>how often the token manager has been stopped\<close>
  sp_stopped :: bool
  sp_conn :: "'m asyncRWSocket"
  sp_crash :: "panic option"
  sp_pc :: "nat \<Rightarrow> stopPc"

definition newStop :: "'m stopState" where
  "newStop = \<lparr>sp_tokens = 0, sp_stopped = False, sp_conn = newAsyncRW, sp_crash = None, sp_pc = (\<lambda>_. SpOut)\<rparr>"

definition sp_goto :: "nat \<Rightarrow> stopPc \<Rightarrow> 'm stopState \<Rightarrow> 'm stopState" where
  "sp_goto n pc s = s\<lparr>sp_pc := (sp_pc s)(n := pc)\<rparr>"

text \<open>A panic ends the process. \<open>SpSocket\<close> is a step of the socket's goroutines or of its users.\<close>

datatype 'm stopEvent =
    SpCall nat
  | SpStep nat
  | SpSocket "'m sockevent"

definition isStopped :: "'m stopState \<Rightarrow> bool" where
  "isStopped s = sp_stopped s"

fun stop_step :: "'m stopState \<Rightarrow> 'm stopEvent \<Rightarrow> 'm stopState option" where
  "stop_step s (SpCall n) =
     (if sp_crash s \<noteq> None \<or> sp_pc s n \<notin> {SpOut, SpRet} then None
      else Some (sp_goto n (if isStopped s then SpRet else SpToken) s))"
| "stop_step s (SpStep n) =
     (if sp_crash s \<noteq> None then None
      else case sp_pc s n of
        SpToken \<Rightarrow> Some (sp_goto n SpClose (s\<lparr>sp_tokens := sp_tokens s + 1\<rparr>))
      | SpClose \<Rightarrow>
          Some (if sp_stopped s then s\<lparr>sp_crash := Some CloseOfClosed\<rparr>
                else sp_goto n SpUp (s\<lparr>sp_stopped := True\<rparr>))
      | SpUp \<Rightarrow>
          Some (case asyncBuff_Stop (upstreamBuf (sp_conn s)) of
                  Panic p \<Rightarrow> s\<lparr>sp_crash := Some p\<rparr>
                | Ret up \<Rightarrow> sp_goto n SpDown (s\<lparr>sp_conn := (sp_conn s)\<lparr>upstreamBuf := up\<rparr>\<rparr>))
      | SpDown \<Rightarrow>
          Some (case asyncBuff_Stop (downstreamBuf (sp_conn s)) of
                  Panic p \<Rightarrow> s\<lparr>sp_crash := Some p\<rparr>
                | Ret down \<Rightarrow> sp_goto n SpConn (s\<lparr>sp_conn := (sp_conn s)\<lparr>downstreamBuf := down\<rparr>\<rparr>))
      | SpConn \<Rightarrow> Some (sp_goto n SpRet (s\<lparr>sp_conn := sock_close (sp_conn s)\<rparr>))
      | _ \<Rightarrow> None)"
| "stop_step s (SpSocket e) =
     (if sp_crash s \<noteq> None \<or> e = CloseSocket then None
      else map_option (\<lambda>k. s\<lparr>sp_conn := k\<rparr>) (sock_step (sp_conn s) e))"

section \<open>A call on its own\<close>

lemma sp_goto_simps [simp]:
  "sp_pc (sp_goto n pc s) = (sp_pc s)(n := pc)" "sp_tokens (sp_goto n pc s) = sp_tokens s"
  "sp_stopped (sp_goto n pc s) = sp_stopped s" "sp_conn (sp_goto n pc s) = sp_conn s" "sp_crash (sp_goto n pc s) = sp_crash s"
  by (simp_all add: sp_goto_def)

text \<open>With nobody in between the steps are those of the model's single \<open>worker_Stop\<close>.\<close>

lemma Stop_alone:
  assumes "sp_crash s = None" and "sp_pc s n = SpOut" and "\<not> sp_stopped s" and "sock_Close (sp_conn s) = Ret k"
  shows "run stop_step s [SpCall n, SpStep n, SpStep n, SpStep n, SpStep n, SpStep n] =
    Some (s\<lparr>sp_tokens := sp_tokens s + 1, sp_stopped := True, sp_conn := k, sp_pc := (sp_pc s)(n := SpRet)\<rparr>)"
  using assms by (simp add: isStopped_def sock_Close_Ret asyncBuff_Stop_def sp_goto_def)

section \<open>Behind the closed channel\<close>

text \<open>Only one goroutine ever gets past \<open>close(w.stopped)\<close>, so closing the connection does not panic.\<close>

definition past_close :: "stopPc \<Rightarrow> bool" where
  "past_close pc \<longleftrightarrow> pc \<in> {SpUp, SpDown, SpConn}"

definition sp_inv :: "'m stopState \<Rightarrow> bool" where
  "sp_inv s \<longleftrightarrow> (\<forall>m n. past_close (sp_pc s m) \<and> past_close (sp_pc s n) \<longrightarrow> m = n) \<and>
     (\<forall>n. past_close (sp_pc s n) \<longrightarrow> sp_stopped s) \<and>
     (ab_stop_closed (upstreamBuf (sp_conn s)) \<longrightarrow> sp_stopped s \<and> (\<forall>n. sp_pc s n \<noteq> SpUp)) \<and>
     (ab_stop_closed (downstreamBuf (sp_conn s)) \<longrightarrow> sp_stopped s \<and> (\<forall>n. sp_pc s n \<notin> {SpUp, SpDown}))"

lemma asyncBuff_head_stop [simp]: "ab_stop_closed (asyncBuff_head b) = ab_stop_closed b"
  by (simp add: asyncBuff_head_def)

definition stops :: "'m asyncRWSocket \<Rightarrow> bool \<times> bool" where
  "stops s = (ab_stop_closed (upstreamBuf s), ab_stop_closed (downstreamBuf s))"

lemma asyncBuff_loop_stop: "asyncBuff_loop b e = Some c \<Longrightarrow> e \<noteq> EnvCloseStop \<Longrightarrow> ab_stop_closed c = ab_stop_closed b"
  by (cases e) (auto simp: asyncBuff_loop_def split: if_splits list.splits)

lemma loop_stops:
  "up_loop s e = Some t \<Longrightarrow> e \<noteq> EnvCloseStop \<Longrightarrow> stops t = stops s"
  "down_loop s e = Some t \<Longrightarrow> e \<noteq> EnvCloseStop \<Longrightarrow> stops t = stops s"
  by (auto simp: up_loop_def down_loop_def stops_def dest: asyncBuff_loop_stop)

lemma stops_frame [simp]:
  "stops (s\<lparr>sk_wire := w\<rparr>) = stops s" "stops (s\<lparr>sk_flush_failed := b\<rparr>) = stops s" "stops (s\<lparr>sk_writer := wr\<rparr>) = stops s"
  "stops (s\<lparr>sk_reader := rd\<rparr>) = stops s" "stops (sock_close s) = stops s"
  "stops (s\<lparr>sk_reader := rd, downstreamBuf := (downstreamBuf s)\<lparr>ab_in_closed := b\<rparr>\<rparr>) = stops s"
  by (simp_all add: stops_def)

lemma writeloop_stops: "writeloop encoded flushed m s = Some t \<Longrightarrow> stops t = stops s"
  by (auto simp: writeloop_def dest!: loop_stops(1) split: writer.splits if_splits)

lemma sock_step_stops:
  assumes "sock_step s e = Some t" and "e \<noteq> CloseSocket"
  shows "stops t = stops s"
proof (cases e)
  case (Decode r)
  with assms(1) show ?thesis by (auto simp: readloop_decode_def split: reader.splits option.splits)
next
  case PushDown
  with assms(1) show ?thesis by (auto simp: readloop_push_def dest: loop_stops split: reader.splits)
qed (use assms writeloop_stops in \<open>auto simp: sock_Send_def writeloop_end_def dest: loop_stops split: if_splits\<close>)

lemma past_close_simps [simp]:
  "past_close SpUp" "past_close SpDown" "past_close SpConn" "\<not> past_close SpOut" "\<not> past_close SpToken"
  "\<not> past_close SpClose" "\<not> past_close SpRet"
  by (simp_all add: past_close_def)

lemma sp_inv_new: "sp_inv newStop"
  by (simp add: sp_inv_def newStop_def newAsyncRW_def newAsyncBuf_def)

lemma sp_inv_past: "sp_inv s \<Longrightarrow> past_close (sp_pc s n) \<Longrightarrow> m \<noteq> n \<Longrightarrow> \<not> past_close (sp_pc s m)"
  unfolding sp_inv_def by blast

lemma sp_inv_up:
  assumes "sp_inv s" and "sp_pc s n = SpUp"
  shows "sp_stopped s" "\<not> ab_stop_closed (upstreamBuf (sp_conn s))" "\<not> ab_stop_closed (downstreamBuf (sp_conn s))"
proof -
  have "past_close (sp_pc s n)" using assms(2) by simp
  then show "sp_stopped s" using assms(1) unfolding sp_inv_def by blast
  show "\<not> ab_stop_closed (upstreamBuf (sp_conn s))" using assms unfolding sp_inv_def by blast
  show "\<not> ab_stop_closed (downstreamBuf (sp_conn s))" using assms unfolding sp_inv_def by blast
qed

lemma sp_inv_down:
  assumes "sp_inv s" and "sp_pc s n = SpDown"
  shows "sp_stopped s" "\<not> ab_stop_closed (downstreamBuf (sp_conn s))"
proof -
  have "past_close (sp_pc s n)" using assms(2) by simp
  then show "sp_stopped s" using assms(1) unfolding sp_inv_def by blast
  show "\<not> ab_stop_closed (downstreamBuf (sp_conn s))" using assms unfolding sp_inv_def by blast
qed

lemma sp_inv_idle:
  assumes "sp_inv s" and "\<not> past_close pc" and "\<not> past_close (sp_pc s n) \<or> sp_pc s n = SpConn"
    and "sp_pc t = (sp_pc s)(n := pc)" and "sp_stopped t = sp_stopped s"
    and "upstreamBuf (sp_conn t) = upstreamBuf (sp_conn s)" and "downstreamBuf (sp_conn t) = downstreamBuf (sp_conn s)"
  shows "sp_inv t"
proof -
  have "past_close (sp_pc t m) \<Longrightarrow> past_close (sp_pc s m) \<and> sp_pc t m = sp_pc s m" for m using assms(2,4) by (cases "m = n") auto
  with assms(1) show ?thesis unfolding sp_inv_def assms(5-7) by (metis insert_iff past_close_def)
qed

lemma sp_inv_step:
  assumes "stop_step s e = Some t" and inv: "sp_inv s"
  shows "sp_inv t"
proof (cases e)
  case (SpCall n)
  with assms(1) have "\<not> past_close (sp_pc s n)" "t = sp_goto n (if isStopped s then SpRet else SpToken) s"
    by (auto split: if_splits)
  then show ?thesis by (intro sp_inv_idle [OF inv]) auto
next
  case (SpStep n)
  then have step: "stop_step s (SpStep n) = Some t" "sp_crash s = None" using assms(1) by (auto split: if_splits)
  note others = sp_inv_past [OF inv, of n]
  show ?thesis
  proof (cases "sp_pc s n")
    case SpToken
    with step show ?thesis by (intro sp_inv_idle [OF inv, of SpClose n]) auto
  next
    case SpClose
    show ?thesis
    proof (cases "sp_stopped s")
      case True
      with SpClose step have "t = s\<lparr>sp_crash := Some CloseOfClosed\<rparr>" by simp
      with inv show ?thesis by (simp add: sp_inv_def)
    next
      case False
      then have "\<not> past_close (sp_pc s m)" for m using inv unfolding sp_inv_def by blast
      with False SpClose step inv show ?thesis by (auto simp: sp_inv_def split: if_splits)
    qed
  next
    case SpUp
    with step sp_inv_up [OF inv SpUp] have "t = sp_goto n SpDown
        (s\<lparr>sp_conn := (sp_conn s)\<lparr>upstreamBuf := (upstreamBuf (sp_conn s))\<lparr>ab_stop_closed := True\<rparr>\<rparr>\<rparr>)"
      by (simp add: asyncBuff_Stop_def)
    with SpUp others sp_inv_up [OF inv SpUp] show ?thesis by (auto simp: sp_inv_def past_close_def split: if_splits)
  next
    case SpDown
    with step sp_inv_down [OF inv SpDown] have "t = sp_goto n SpConn
        (s\<lparr>sp_conn := (sp_conn s)\<lparr>downstreamBuf := (downstreamBuf (sp_conn s))\<lparr>ab_stop_closed := True\<rparr>\<rparr>\<rparr>)"
      by (simp add: asyncBuff_Stop_def)
    with SpDown others sp_inv_down [OF inv SpDown] show ?thesis by (auto simp: sp_inv_def past_close_def split: if_splits)
  next
    case SpConn
    with step show ?thesis by (intro sp_inv_idle [OF inv, of SpRet n]) auto
  qed (use step in simp_all)
next
  case (SpSocket e)
  with assms(1) obtain k where k: "sock_step (sp_conn s) e = Some k" "e \<noteq> CloseSocket" "t = s\<lparr>sp_conn := k\<rparr>"
    by (auto split: if_splits)
  with sock_step_stops [OF k(1,2)] inv show ?thesis by (simp add: sp_inv_def stops_def)
qed

lemma sp_inv_run: "run stop_step newStop es = Some s \<Longrightarrow> sp_inv s"
  using run_invariant [of sp_inv stop_step] sp_inv_step sp_inv_new by blast

text \<open>The only panic is the one at \<open>close(w.stopped)\<close>.\<close>

lemma sp_crash_step:
  assumes "stop_step s e = Some t" and "sp_inv s" and "sp_crash t \<noteq> None"
  shows "\<exists>n. e = SpStep n \<and> sp_pc s n = SpClose \<and> sp_stopped s \<and> sp_crash t = Some CloseOfClosed"
proof (cases e)
  case (SpStep n)
  moreover have "sp_pc s n = SpClose"
  proof (cases "sp_pc s n")
    case SpUp
    with sp_inv_up [OF assms(2)]  SpStep assms(1,3) show ?thesis by (auto simp: asyncBuff_Stop_def split: if_splits)
  next
    case SpDown
    with sp_inv_down [OF assms(2)]  SpStep assms(1,3) show ?thesis by (auto simp: asyncBuff_Stop_def split: if_splits)
  qed (use SpStep assms in \<open>auto split: if_splits\<close>)
  ultimately show ?thesis using assms(1,3) by (auto split: if_splits)
qed (use assms in \<open>auto split: if_splits\<close>)

section \<open>Between the check and the close\<close>

definition between :: "stopPc \<Rightarrow> bool" where
  "between pc \<longleftrightarrow> pc = SpToken \<or> pc = SpClose"

definition overlap :: "'m stopState \<Rightarrow> bool" where
  "overlap s \<longleftrightarrow> (\<exists>m n. m \<noteq> n \<and> between (sp_pc s m) \<and> between (sp_pc s n))"

text \<open>While the calls never overlap there, whoever is there finds the channel open.\<close>

lemma between_open_step:
  assumes "stop_step s e = Some t" and "\<not> overlap s"
    and "\<forall>n. between (sp_pc s n) \<longrightarrow> \<not> sp_stopped s" and "between (sp_pc t n)"
  shows "\<not> sp_stopped t"
proof (cases e)
  case (SpCall m)
  with assms(1,3,4) show ?thesis by (cases "m = n") (auto simp: isStopped_def between_def split: if_splits)
next
  case (SpStep m)
  show ?thesis
  proof (cases "sp_pc s m")
    case SpClose
    with assms(1,3) SpStep have "t = sp_goto m SpUp (s\<lparr>sp_stopped := True\<rparr>)" by (auto simp: between_def split: if_splits)
    with assms(4) have "m \<noteq> n" "between (sp_pc s n)" by (auto simp: between_def split: if_splits)
    with SpClose assms(2) show ?thesis by (auto simp: overlap_def between_def)
  qed (use assms SpStep in \<open>auto simp: between_def asyncBuff_Stop_def split: if_splits\<close>)
qed (use assms in \<open>auto split: if_splits\<close>)

lemma no_overlap_quiet:
  assumes "run stop_step newStop es = Some s" and "\<forall>k t. run stop_step newStop (take k es) = Some t \<longrightarrow> \<not> overlap t"
  shows "(\<forall>n. between (sp_pc s n) \<longrightarrow> \<not> sp_stopped s) \<and> sp_crash s = None"
  using assms
proof (induction rule: run_induct)
  case start
  show ?case by (simp add: newStop_def between_def)
next
  case (step es t e u)
  have "\<forall>k w. run stop_step newStop (take k es) = Some w \<longrightarrow> \<not> overlap w"
  proof (intro allI impI)
    fix k w
    assume "run stop_step newStop (take k es) = Some w"
    then have "run stop_step newStop (take (min k (length es)) (es @ [e])) = Some w" by (cases "k \<le> length es") simp_all
    with step(4) show "\<not> overlap w" by blast
  qed
  with step(3) have IH: "\<forall>n. between (sp_pc t n) \<longrightarrow> \<not> sp_stopped t" "sp_crash t = None" by blast+
  have "run stop_step newStop (take (length es) (es @ [e])) = Some t" using step(1) by simp
  with step(4) have "\<not> overlap t" by blast
  then have "\<not> sp_stopped u" if "between (sp_pc u n)" for n using between_open_step [OF step(2) _ IH(1)] that by blast
  moreover have "sp_crash u = None"
    using sp_crash_step [OF step(2) sp_inv_run [OF step(1)]] IH(1) by (force simp: between_def)
  ultimately show ?case by blast
qed

text \<open>Once two are there, they do not both get away.\<close>

definition doomed :: "nat \<Rightarrow> nat \<Rightarrow> 'm stopState \<Rightarrow> bool" where
  "doomed m n s \<longleftrightarrow> sp_crash s \<noteq> None \<or> between (sp_pc s m) \<and> between (sp_pc s n) \<or>
     sp_stopped s \<and> (between (sp_pc s m) \<or> between (sp_pc s n))"

lemma between_step:
  assumes "stop_step s e = Some t" and "between (sp_pc s n)"
  shows "between (sp_pc t n) \<or> e = SpStep n \<and> sp_pc s n = SpClose \<and> \<not> sp_stopped s \<and> sp_stopped t"
proof (cases e)
  case (SpStep m)
  with assms show ?thesis
    by (cases "sp_pc s m") (auto simp: between_def asyncBuff_Stop_def split: if_splits)
qed (use assms in \<open>auto simp: between_def split: if_splits\<close>)

lemma stopped_step: "stop_step s e = Some t \<Longrightarrow> sp_stopped s \<Longrightarrow> sp_stopped t"
  by (cases e) (auto split: if_splits stopPc.splits go.splits)

lemma doomed_step:
  assumes "stop_step s e = Some t" and "m \<noteq> n" and "doomed m n s"
  shows "doomed m n t"
proof -
  have "sp_crash s = None" using assms(1) by (cases e) (auto split: if_splits)
  with assms(3) consider "between (sp_pc s m)" "between (sp_pc s n)" | p where "p = m \<or> p = n" "sp_stopped s" "between (sp_pc s p)"
    unfolding doomed_def by blast
  then show ?thesis
  proof cases
    case 1
    with between_step [OF assms(1)] assms(2) show ?thesis unfolding doomed_def by (metis stopEvent.inject(2))
  next
    case 2
    with between_step [OF assms(1) 2(3)] stopped_step [OF assms(1) 2(2)] show ?thesis unfolding doomed_def by blast
  qed
qed

lemma overlap_doomed:
  assumes "run stop_step newStop (take k es) = Some t" and "overlap t" and "run stop_step newStop es = Some s"
  shows "sp_crash s \<noteq> None \<or> (\<exists>n. between (sp_pc s n))"
proof -
  from assms(2) obtain m n where mn: "m \<noteq> n" "doomed m n t" unfolding overlap_def doomed_def by blast
  have "run stop_step newStop (take k es @ drop k es) = Some s" using assms(3) by simp
  with assms(1) have "run stop_step t (drop k es) = Some s" by (simp only: run_append option.simps)
  then have "doomed m n s" using run_invariant [of "doomed m n" stop_step] doomed_step [OF _ mn(1)] mn(2) by blast
  then show ?thesis unfolding doomed_def by blast
qed

lemma between_not_rest: "between pc \<Longrightarrow> pc \<notin> {SpOut, SpRet}"
  by (auto simp: between_def)

section \<open>The work is done\<close>

text \<open>
  How far the connection is closed: what the goroutine that closed the channel has left to do,
  and a call that has returned finds the channel closed.
\<close>

definition torn_down :: "'m stopState \<Rightarrow> bool" where
  "torn_down s \<longleftrightarrow> (\<forall>n. sp_pc s n = SpRet \<longrightarrow> sp_stopped s) \<and>
     (sp_stopped s \<longrightarrow> (\<exists>n. sp_pc s n = SpUp) \<or> (\<exists>n. sp_pc s n = SpDown) \<and> fst (stops (sp_conn s)) \<or>
       (\<exists>n. sp_pc s n = SpConn) \<and> stops (sp_conn s) = (True, True) \<or>
       stops (sp_conn s) = (True, True) \<and> sk_closed (sp_conn s))"

lemma sock_step_closed:
  assumes "sock_step s e = Some t" and "sk_closed s"
  shows "sk_closed t"
proof -
  have loops: "up_loop s e = Some t \<Longrightarrow> sk_closed t = sk_closed s" "down_loop s e = Some t \<Longrightarrow> sk_closed t = sk_closed s" for e t
    by (auto simp: up_loop_def down_loop_def)
  show ?thesis
  proof (cases e)
    case (WriteMsg encoded flushed m)
    with assms loops show ?thesis by (auto simp: writeloop_def split: writer.splits if_splits)
  qed (use assms loops in \<open>auto simp: sock_Send_def writeloop_end_def readloop_decode_def readloop_push_def sock_Close_Ret
        split: if_splits reader.splits option.splits\<close>)
qed

lemma torn_down_other:
  assumes "torn_down s" and "\<not> past_close (sp_pc s n)" and "pc = SpRet \<Longrightarrow> sp_stopped s"
    and "sp_pc t = (sp_pc s)(n := pc)" and "sp_stopped t = sp_stopped s" and "sp_conn t = sp_conn s"
  shows "torn_down t"
proof -
  have "sp_pc s m = p \<Longrightarrow> past_close p \<Longrightarrow> sp_pc t m = p" for m p using assms(2,4) by auto
  moreover have "sp_pc t m = SpRet \<Longrightarrow> sp_stopped s" for m
    using assms(1,3,4) by (cases "m = n") (auto simp: torn_down_def)
  ultimately show ?thesis using assms(1) unfolding torn_down_def assms(5,6) by (metis past_close_simps(1-3))
qed

lemma torn_downI:
  assumes "sp_stopped t" and "sp_pc t n = SpUp \<or> sp_pc t n = SpDown \<and> fst (stops (sp_conn t)) \<or>
    stops (sp_conn t) = (True, True) \<and> (sp_pc t n = SpConn \<or> sk_closed (sp_conn t))"
  shows "torn_down t"
  using assms unfolding torn_down_def by blast

lemma torn_down_step:
  assumes "stop_step s e = Some t" and "sp_inv s" and "torn_down s"
  shows "torn_down t"
proof (cases e)
  case (SpCall n)
  with assms(1) show ?thesis
    by (intro torn_down_other [OF assms(3), of n "if isStopped s then SpRet else SpToken"]) (auto simp: isStopped_def split: if_splits)
next
  case (SpStep n)
  then have step: "stop_step s (SpStep n) = Some t" "sp_crash s = None" using assms(1) by (auto split: if_splits)
  show ?thesis
  proof (cases "sp_pc s n")
    case SpToken
    with step show ?thesis by (intro torn_down_other [OF assms(3), of n SpClose]) auto
  next
    case SpClose
    show ?thesis
    proof (cases "sp_stopped s")
      case True
      with SpClose step have "t = s\<lparr>sp_crash := Some CloseOfClosed\<rparr>" by simp
      with assms(3) show ?thesis by (simp add: torn_down_def)
    qed (use SpClose step in \<open>auto intro: torn_downI [of _ n]\<close>)
  next
    case SpUp
    with step sp_inv_up [OF assms(2) SpUp] show ?thesis
      by (intro torn_downI [of _ n]) (auto simp: asyncBuff_Stop_def stops_def)
  next
    case SpDown
    with assms(3) sp_inv_down [OF assms(2) SpDown] sp_inv_past [OF assms(2), of n] have "fst (stops (sp_conn s))"
      unfolding torn_down_def by (metis past_close_simps(1-3) stopPc.distinct prod.sel(1))
    with SpDown step sp_inv_down [OF assms(2) SpDown] show ?thesis
      by (intro torn_downI [of _ n]) (auto simp: asyncBuff_Stop_def stops_def)
  next
    case SpConn
    with assms(2,3) sp_inv_past [OF assms(2), of n] have "stops (sp_conn s) = (True, True)" "sp_stopped s"
      unfolding torn_down_def sp_inv_def by (metis past_close_simps(1-3) stopPc.distinct)+
    with SpConn step show ?thesis by (intro torn_downI [of _ n]) auto
  qed (use step in simp_all)
next
  case (SpSocket e)
  with assms(1) obtain k where k: "sock_step (sp_conn s) e = Some k" "e \<noteq> CloseSocket" "t = s\<lparr>sp_conn := k\<rparr>"
    by (auto split: if_splits)
  with sock_step_stops [OF k(1,2)] sock_step_closed [OF k(1)] assms(3) show ?thesis by (auto simp: torn_down_def)
qed

lemma torn_down_run:
  assumes "run stop_step newStop es = Some s"
  shows "torn_down s"
  using assms
proof (induction rule: run_induct)
  case start
  show ?case by (simp add: torn_down_def newStop_def)
next
  case (step es t e u)
  then show ?case using torn_down_step sp_inv_run by blast
qed

lemma torn_down_rest:
  assumes "torn_down s" and "\<forall>n. sp_pc s n \<in> {SpOut, SpRet}" and "sp_pc s n = SpRet"
  shows "sp_stopped s \<and> stops (sp_conn s) = (True, True) \<and> sk_closed (sp_conn s)"
proof -
  have "sp_pc s m \<notin> {SpUp, SpDown, SpConn}" for m using spec [OF assms(2), of m] by auto
  with assms(1,3) show ?thesis unfolding torn_down_def by blast
qed

text \<open>C14: calls of \<open>WorkerNG.Stop\<close> by any number of goroutines, interleaved with the socket's own work, until all
  have returned or the process has panicked: the process panics, with the close of a closed channel, exactly
  when at some moment two of the goroutines were between the look at \<open>stopped\<close> and its closing;
  nothing else in \<open>Stop\<close> panics, and in particular calls that do not overlap there never do. Without a panic
  a call that has returned leaves the worker stopped, both buffers of the socket stopped and the socket closed.\<close>

theorem stop_panics_iff_overlap:
  assumes "run stop_step newStop es = Some s" and "sp_crash s \<noteq> None \<or> (\<forall>n. sp_pc s n \<in> {SpOut, SpRet})"
  shows "(sp_crash s = Some CloseOfClosed \<longleftrightarrow> (\<exists>k t. run stop_step newStop (take k es) = Some t \<and> overlap t)) \<and>
    sp_crash s \<in> {None, Some CloseOfClosed} \<and>
    (sp_crash s = None \<and> (\<exists>n. sp_pc s n = SpRet) \<longrightarrow>
       sp_stopped s \<and> stops (sp_conn s) = (True, True) \<and> sk_closed (sp_conn s))"
proof -
  have kind: "sp_crash s \<in> {None, Some CloseOfClosed}"
    using assms(1)
  proof (induction rule: run_induct)
    case start
    show ?case by (simp add: newStop_def)
  next
    case (step es t e u)
    then show ?case using sp_crash_step [OF step(2) sp_inv_run [OF step(1)]] by blast
  qed
  have "\<exists>k t. run stop_step newStop (take k es) = Some t \<and> overlap t" if "sp_crash s = Some CloseOfClosed"
    using no_overlap_quiet [OF assms(1)] that by auto
  moreover have "sp_crash s \<noteq> None" if "run stop_step newStop (take k es) = Some t" "overlap t" for k t
    using overlap_doomed [OF that assms(1)] assms(2) between_not_rest by blast
  moreover have "sp_stopped s \<and> stops (sp_conn s) = (True, True) \<and> sk_closed (sp_conn s)" if "sp_crash s = None" "sp_pc s n = SpRet" for n
    using torn_down_rest [OF torn_down_run [OF assms(1)] _ that(2)] assms(2) that(1) by blast
  ultimately show ?thesis using kind by blast
qed

text \<open>The loop stops a terminated worker while the program does.\<close>

definition stop_race :: "nat stopEvent list" where
  "stop_race = [SpCall 1, SpCall 2, SpStep 1, SpStep 1, SpStep 2, SpStep 2]"

theorem stop_panics_iff_overlap_witness:
  "\<exists>s k t. run stop_step newStop stop_race = Some s \<and> sp_crash s = Some CloseOfClosed \<and>
     run stop_step newStop (take k stop_race) = Some t \<and> overlap t"
proof -
  obtain s where s: "run stop_step newStop stop_race = Some s" "sp_crash s = Some CloseOfClosed"
    by (simp add: stop_race_def newStop_def isStopped_def)
  with stop_panics_iff_overlap [OF s(1)] show ?thesis by blast
qed

end
