(* ===== verification/Locator.thy ===== *)
theory Locator
  imports Service
begin

text \<open>
  The locator client (\<open>cocaine12/locator.go\<close>): a service whose description is built in, and \<open>Resolve\<close>
  as a call of its method \<open>resolve\<close> on it. The dialing of \<open>NewLocator\<close> is in the theory of endpoints.
\<close>

definition newLocator :: service where "newLocator = newService locatorAPI"

text \<open>
  \<open>Resolve\<close> once the answer \<open>res\<close> has come for the channel: \<open>Get\<close>, then \<open>Extract\<close>. None: the answer does
  not make \<open>Get\<close> return.
\<close>

definition locator_answer :: "errConvert \<Rightarrow> (gval list \<Rightarrow> goerr + serviceInfo) \<Rightarrow> rx \<Rightarrow> (goerr + serviceInfo) go option" where
  "locator_answer conv extract r =
     (case rx_Get conv r of
        None \<Rightarrow> None
      | Some (Panic p) \<Rightarrow> Some (Panic p)
      | Some (Ret (_, Inl err)) \<Rightarrow> Some (Ret (Inl err))
      | Some (Ret (_, Inr (_, Some err))) \<Rightarrow> Some (Ret (Inl err))
      | Some (Ret (_, Inr (answer, None))) \<Rightarrow> Some (Ret (serviceRes_Extract extract answer)))"

text \<open>
  The call, with the outcomes of a reconnection should it be needed, the loop's delivery of the
  message the locator answers with, and the answer.
\<close>

definition locator_Resolve :: "errConvert \<Rightarrow> (gval list \<Rightarrow> goerr + serviceInfo) \<Rightarrow> string \<Rightarrow> goerr option \<Rightarrow> goerr option
    \<Rightarrow> (u64 \<Rightarrow> message) \<Rightarrow> service \<Rightarrow> (service \<times> (goerr + serviceInfo) go option) go option" where
  "locator_Resolve conv extract name resolveErr ioErr reply s =
     (case service_Call ''resolve'' [GString name] None False resolveErr ioErr s of
        None \<Rightarrow> None
      | Some (Panic p) \<Rightarrow> Some (Panic p)
      | Some (Ret (s1, Inl err)) \<Rightarrow> Some (Ret (s1, Some (Ret (Inl err))))
      | Some (Ret (s1, Inr r)) \<Rightarrow>
          (let s2 = push_locked r (res_of_msg (reply (rx_id (ch_rx (sv_chans s1 ! r))))) s1 in
           Some (Ret (s2, locator_answer conv extract (ch_rx (sv_chans s2 ! r))))))"
text \<open>\<open>Close\<close> closes the socket only; the service's own \<open>stop\<close> channel stays open.\<close>

definition locator_Close :: "service \<Rightarrow> service go" where
  "locator_Close s =
     (let k = sv_sock s; so = sv_socks s ! k in
      if so_close_called so then Panic CloseOfClosed
      else Ret (s\<lparr>sv_socks := (sv_socks s)[k := so\<lparr>so_closed := True, so_close_called := True\<rparr>]\<rparr>))"

section \<open>Properties\<close>

lemma locator_Resolve_spec:
  assumes "sv_API s = locatorAPI" and "sv_sock s < length (sv_socks s)" and "\<not> disconnected s"
  shows "\<exists>t res. locator_Resolve conv extract name resolveErr ioErr reply s = Some (Ret (t, Some res)) \<and>
    (\<exists>i. so_sent (sv_socks t ! sv_sock t) = so_sent (sv_socks s ! sv_sock s) @
        [\<lparr>Session = i, MsgType = 0, Payload = [GString name], Headers = []\<rparr>] \<and>
      i = snd (sessions_Attach (length (sv_chans s)) (sv_sessions s)) \<and>
      res = (if MsgType (reply i) = 0 then Ret (extract (Payload (reply i)))
             else if MsgType (reply i) = 1 then
               Ret (Inl (case conv (Payload (reply i)) of Inl err \<Rightarrow> err | Inr (category, code, msg) \<Rightarrow> ErrRequest msg category code))
             else Panic NilDeref))"
proof -
  obtain ss i where a: "sessions_Attach (length (sv_chans s)) (sv_sessions s) = (ss, i)" by fastforce
  have api: "dispatch_MethodByName ''resolve'' locatorAPI = Inr 0"
      "map_of locatorAPI 0 = Some \<lparr>di_Name = ''resolve'', Downstream = emptyDescription, Upstream = value_error_stream\<rparr>"
    by (simp_all add: locatorAPI_def)
  show ?thesis
    using assms a
    by (auto simp: locator_Resolve_def service_Call_def service_call_def api sendMsg_def call_headers_def push_locked_def chan_push_locked_def
        locator_answer_def rx_Get_def rx_push_locked_def rx_refill_def newRx_def rx_process_def res_of_msg_def
        value_error_stream_def emptyDescription_def serviceRes_Extract_def serviceRes_setError_def Let_def nth_append
        split: sum.splits prod.splits)
qed

text \<open>Resolving a service. On a connected locator in any state, \<open>Resolve\<close> sends one message that calls method 0 with
  the name; if the locator answers with a value, the result is that value as a service description
  (or the error of converting it); if it answers with an error, the result is that error with its
  category, code and text; an answer of any other type panics.\<close>

theorem locator_Resolve_result:
  assumes "sv_API s = locatorAPI" and "sv_sock s < length (sv_socks s)" and "\<not> disconnected s"
  shows "\<exists>t res. locator_Resolve conv extract name resolveErr ioErr reply s = Some (Ret (t, Some res)) \<and>
    (\<exists>i. so_sent (sv_socks t ! sv_sock t) = so_sent (sv_socks s ! sv_sock s) @
        [\<lparr>Session = i, MsgType = 0, Payload = [GString name], Headers = []\<rparr>] \<and>
      i = snd (sessions_Attach (length (sv_chans s)) (sv_sessions s)) \<and>
      res = (if MsgType (reply i) = 0 then Ret (extract (Payload (reply i)))
             else if MsgType (reply i) = 1 then
               Ret (Inl (case conv (Payload (reply i)) of Inl err \<Rightarrow> err | Inr (category, code, msg) \<Rightarrow> ErrRequest msg category code))
             else Panic NilDeref))"
  by (rule locator_Resolve_spec [OF assms])

theorem locator_Resolve_result_witness:
  "\<exists>t. locator_Resolve (\<lambda>_. Inr (1, 2, ''not found'')) (\<lambda>_. Inl EOF) ''storage'' None None
      (\<lambda>i. \<lparr>Session = i, MsgType = 1, Payload = [], Headers = []\<rparr>) newLocator =
    Some (Ret (t, Some (Ret (Inl (ErrRequest ''not found'' 1 2)))))"
proof -
  have "sv_API newLocator = locatorAPI" "sv_sock newLocator < length (sv_socks newLocator)" "\<not> disconnected newLocator"
    by (simp_all add: newLocator_def newService_def disconnected_def newSock_def)
  from locator_Resolve_result [OF this, of "\<lambda>_. Inr (1, 2, ''not found'')" "\<lambda>_. Inl EOF" "''storage''" None None
      "\<lambda>i. \<lparr>Session = i, MsgType = 1, Payload = [], Headers = []\<rparr>"]
  show ?thesis by auto
qed

section \<open>Creating a service\<close>

text \<open>
  \<open>serviceResolve\<close>: connect to a locator, ask it, close it. A locator that has no socket, for want of any
  endpoint to try, is dereferenced by its loop.
\<close>

definition serviceResolve :: "string list \<Rightarrow> (string \<Rightarrow> goerr + 's) \<Rightarrow> errConvert \<Rightarrow> (gval list \<Rightarrow> goerr + serviceInfo)
    \<Rightarrow> (u64 \<Rightarrow> message) \<Rightarrow> string \<Rightarrow> string list \<Rightarrow> (goerr + serviceInfo) go option" where
  "serviceResolve defaults dial conv extract reply name endpoints =
     (case NewLocator_dial defaults dial endpoints of
        Inl err \<Rightarrow> Some (Ret (Inl err))
      | Inr None \<Rightarrow> Some (Panic NilDeref)
      | Inr (Some sock) \<Rightarrow>
          (case locator_Resolve conv extract name None None reply newLocator of
             None \<Rightarrow> None
           | Some (Panic p) \<Rightarrow> Some (Panic p)
           | Some (Ret (l, None)) \<Rightarrow> None
           | Some (Ret (l, Some r)) \<Rightarrow>
               (case locator_Close l of Panic p \<Rightarrow> Some (Panic p) | Ret _ \<Rightarrow> Some r)))"

datatype newServiceError = UnableToResolve string goerr | UnableToConnect string "goerr createError"

definition NewService :: "string list \<Rightarrow> (string \<Rightarrow> goerr + 's) \<Rightarrow> errConvert \<Rightarrow> (gval list \<Rightarrow> goerr + serviceInfo)
    \<Rightarrow> (u64 \<Rightarrow> message) \<Rightarrow> string \<Rightarrow> string list \<Rightarrow> (newServiceError + 's \<times> service) go option" where
  "NewService defaults dial conv extract reply name endpoints =
     map_option (\<lambda>r. go_bind r (\<lambda>info.
       case info of
         Inl err \<Rightarrow> Ret (Inl (UnableToResolve name err))
       | Inr i \<Rightarrow>
           (case serviceCreateIO dial (Endpoints i) of
              Inl err \<Rightarrow> Ret (Inl (UnableToConnect name err))
            | Inr sock \<Rightarrow> Ret (Inr (sock, newService (API i))))))
       (serviceResolve defaults dial conv extract reply name endpoints)"

lemma newLocator_connected:
  "sv_API newLocator = locatorAPI" "sv_sock newLocator < length (sv_socks newLocator)" "\<not> disconnected newLocator"
  by (simp_all add: newLocator_def newService_def disconnected_def newSock_def)

lemma resolve_open:
  "locator_Resolve conv extract name None None reply newLocator = Some (Ret (l, r)) \<Longrightarrow> \<exists>t. locator_Close l = Ret t"
  by (auto simp: locator_Resolve_def locator_Close_def newLocator_def service_Call_def service_call_def newService_def newSock_def
      disconnected_def sendMsg_def push_locked_def Let_def split: sum.splits prod.splits)


definition demo_info :: serviceInfo where
  "demo_info = \<lparr>Endpoints = [\<lparr>IP = ''h'', Port = 1\<rparr>, \<lparr>IP = ''g'', Port = 2\<rparr>], Version = 1, API = []\<rparr>"


end
