(* ===== verification/Locks.thy ===== *)
theory Locks
  imports Prelude
begin

text \<open>
  The locking discipline of \<open>cocaine12/service.go\<close>. A \<open>sync.RWMutex\<close> admits any number of readers
  or one writer; a writer that has called \<open>Lock\<close> and waits keeps new readers out, so that it is
  not starved. A goroutine is the list of lock operations it still has to do; the operations of
  \<open>call\<close> and \<open>Reconnect\<close> are those of the source.
\<close>

datatype lockOp = RLock | RUnlock | Lock | Unlock

record rwmutex =
  rw_readers :: nat
  rw_writer :: bool
  rw_waiting :: nat \<comment> \<open>writers that have called \<open>Lock\<close> and are blocked\<close>

definition newRWMutex :: rwmutex where
  "newRWMutex = \<lparr>rw_readers = 0, rw_writer = False, rw_waiting = 0\<rparr>"

text \<open>A goroutine: blocked in its first operation or not.\<close>

record locker =
  lk_ops :: "lockOp list"
  lk_waiting :: bool

definition goroutine :: "lockOp list \<Rightarrow> locker" where
  "goroutine ops = \<lparr>lk_ops = ops, lk_waiting = False\<rparr>"

text \<open>
  One atomic step of a goroutine. \<open>Lock\<close> is two: announcing itself, then acquiring.
\<close>

fun lock_step :: "rwmutex \<Rightarrow> locker \<Rightarrow> (rwmutex \<times> locker) option" where
  "lock_step m g =
     (case lk_ops g of
        [] \<Rightarrow> None
      | RLock # ops \<Rightarrow>
          if \<not> rw_writer m \<and> rw_waiting m = 0
          then Some (m\<lparr>rw_readers := rw_readers m + 1\<rparr>, g\<lparr>lk_ops := ops\<rparr>) else None
      | RUnlock # ops \<Rightarrow> Some (m\<lparr>rw_readers := rw_readers m - 1\<rparr>, g\<lparr>lk_ops := ops\<rparr>)
      | Lock # ops \<Rightarrow>
          if \<not> lk_waiting g then Some (m\<lparr>rw_waiting := rw_waiting m + 1\<rparr>, g\<lparr>lk_waiting := True\<rparr>)
          else if rw_readers m = 0 \<and> \<not> rw_writer m
          then Some (m\<lparr>rw_waiting := rw_waiting m - 1, rw_writer := True\<rparr>,
                     g\<lparr>lk_ops := ops, lk_waiting := False\<rparr>)
          else None
      | Unlock # ops \<Rightarrow> Some (m\<lparr>rw_writer := False\<rparr>, g\<lparr>lk_ops := ops\<rparr>))"

type_synonym lockstate = "rwmutex \<times> locker list"

fun locks_step :: "lockstate \<Rightarrow> nat \<Rightarrow> lockstate option" where
  "locks_step (m, gs) i =
     (if i < length gs
      then map_option (\<lambda>(m', g). (m', gs[i := g])) (lock_step m (gs ! i)) else None)"

text \<open>
  \<open>call\<close> holds the lock for reading while \<open>sendMsg\<close> takes it for reading again; a message sent on
  an open channel takes it once; \<open>Reconnect\<close> takes it for writing.
\<close>

definition sendMsg_locks :: "lockOp list" where "sendMsg_locks = [RLock, RUnlock]"
definition call_locks :: "lockOp list" where "call_locks = [RLock] @ sendMsg_locks @ [RUnlock]"
definition Reconnect_locks :: "lockOp list" where "Reconnect_locks = [Lock, Unlock]"

definition finished :: "lockstate \<Rightarrow> bool" where
  "finished s \<longleftrightarrow> (\<forall>g \<in> set (snd s). lk_ops g = [])"

definition stuck :: "lockstate \<Rightarrow> bool" where
  "stuck s \<longleftrightarrow> (\<forall>i. locks_step s i = None)"

section \<open>Counting goroutines\<close>

definition count_of :: "(locker \<Rightarrow> bool) \<Rightarrow> locker list \<Rightarrow> nat" where
  "count_of P gs = length (filter P gs)"

lemma count_of_update:
  "i < length gs \<Longrightarrow> count_of P (gs[i := g]) + (if P (gs ! i) then 1 else 0) =
     count_of P gs + (if P g then 1 else 0)"
proof (induction gs arbitrary: i)
  case Nil
  then show ?case by simp
next
  case (Cons h hs)
  then show ?case by (cases i) (auto simp: count_of_def)
qed

lemma count_of_zero: "count_of P gs = 0 \<longleftrightarrow> (\<forall>g \<in> set gs. \<not> P g)"
  by (simp add: count_of_def filter_empty_conv)

lemma count_of_nth: "i < length gs \<Longrightarrow> P (gs ! i) \<Longrightarrow> 0 < count_of P gs"
  using count_of_zero [of P gs] nth_mem by fastforce

text \<open>Goroutines that take the lock once, for reading or for writing.\<close>

definition flat_ops :: "locker \<Rightarrow> bool" where
  "flat_ops g \<longleftrightarrow> lk_ops g \<in> {[RLock, RUnlock], [RUnlock], [], [Unlock]} \<and> \<not> lk_waiting g \<or>
     lk_ops g = [Lock, Unlock]"

definition reading :: "locker \<Rightarrow> bool" where "reading g \<longleftrightarrow> lk_ops g = [RUnlock]"
definition writing :: "locker \<Rightarrow> bool" where "writing g \<longleftrightarrow> lk_ops g = [Unlock]"
definition announced :: "locker \<Rightarrow> bool" where "announced g \<longleftrightarrow> lk_ops g = [Lock, Unlock] \<and> lk_waiting g"

lemmas locker_classes = flat_ops_def reading_def writing_def announced_def

definition flat_inv :: "lockstate \<Rightarrow> bool" where
  "flat_inv s \<longleftrightarrow> (\<forall>g \<in> set (snd s). flat_ops g) \<and>
     rw_readers (fst s) = count_of reading (snd s) \<and>
     (if rw_writer (fst s) then 1 else 0) = count_of writing (snd s) \<and>
     rw_waiting (fst s) = count_of announced (snd s) \<and>
     (rw_writer (fst s) \<longrightarrow> rw_readers (fst s) = 0)"

lemma flat_step_one:
  assumes "lock_step m g = Some (m', g')" and "flat_ops g"
  shows "flat_ops g' \<and>
    (reading g \<longrightarrow> m' = m\<lparr>rw_readers := rw_readers m - 1\<rparr> \<and> \<not> reading g' \<and> \<not> writing g' \<and> \<not> announced g') \<and>
    (writing g \<longrightarrow> m' = m\<lparr>rw_writer := False\<rparr> \<and> \<not> reading g' \<and> \<not> writing g' \<and> \<not> announced g') \<and>
    (announced g \<longrightarrow> m' = m\<lparr>rw_waiting := rw_waiting m - 1, rw_writer := True\<rparr> \<and>
       rw_readers m = 0 \<and> \<not> rw_writer m \<and> \<not> reading g' \<and> writing g' \<and> \<not> announced g') \<and>
    (\<not> reading g \<and> \<not> writing g \<and> \<not> announced g \<longrightarrow>
       (m' = m\<lparr>rw_readers := rw_readers m + 1\<rparr> \<and> \<not> rw_writer m \<and> reading g' \<and> \<not> writing g' \<and> \<not> announced g') \<or>
       (m' = m\<lparr>rw_waiting := rw_waiting m + 1\<rparr> \<and> \<not> reading g' \<and> \<not> writing g' \<and> announced g'))"
  using assms by (auto simp: locker_classes split: if_splits)

lemma flat_inv_step:
  assumes "locks_step s i = Some t" and "flat_inv s"
  shows "flat_inv t"
proof -
  obtain m gs where s: "s = (m, gs)" by (cases s)
  obtain m' g where i: "i < length gs" "lock_step m (gs ! i) = Some (m', g)" and t: "t = (m', gs[i := g])"
    using assms(1) s by (auto split: if_splits)
  have flat: "flat_ops (gs ! i)" using assms(2) s i(1) by (simp add: flat_inv_def)
  note one = flat_step_one [OF i(2) flat]
  note up = count_of_update [OF i(1), of reading g] count_of_update [OF i(1), of writing g]
    count_of_update [OF i(1), of announced g]
  have excl: "\<not> (reading h \<and> writing h)" "\<not> (reading h \<and> announced h)" "\<not> (writing h \<and> announced h)" for h
    by (auto simp: locker_classes)
  have all: "\<forall>h \<in> set (gs[i := g]). flat_ops h"
    using assms(2) s one set_update_subset_insert [of gs i g] by (auto simp: flat_inv_def)
  have inv: "rw_readers m = count_of reading gs" "(if rw_writer m then 1 else 0) = count_of writing gs"
      "rw_waiting m = count_of announced gs" "rw_writer m \<longrightarrow> rw_readers m = 0"
    using assms(2) s by (auto simp: flat_inv_def)
  consider "reading (gs ! i)" | "writing (gs ! i)" | "announced (gs ! i)"
    | "\<not> reading (gs ! i)" "\<not> writing (gs ! i)" "\<not> announced (gs ! i)" by blast
  then show ?thesis
  proof cases
    case 1
    with excl [of "gs ! i"] one up inv all t show ?thesis by (auto simp: flat_inv_def split: if_splits)
  next
    case 2
    with excl [of "gs ! i"] one up inv all t show ?thesis by (auto simp: flat_inv_def split: if_splits)
  next
    case 3
    with excl [of "gs ! i"] one up inv all t show ?thesis by (auto simp: flat_inv_def split: if_splits)
  next
    case 4
    with one up inv all t show ?thesis by (auto simp: flat_inv_def split: if_splits)
  qed
qed

lemma flat_inv_progress:
  assumes "flat_inv s" and "stuck s"
  shows "finished s"
proof -
  obtain m gs where s: "s = (m, gs)" by (cases s)
  have none: "lock_step m g = None" if g: "g \<in> set gs" for g
  proof -
    obtain i where "i < length gs" "gs ! i = g" using g by (auto simp: in_set_conv_nth)
    moreover have "locks_step (m, gs) i = None" using assms(2) s by (simp only: stuck_def)
    ultimately show ?thesis by (simp del: lock_step.simps)
  qed
  have flat: "flat_ops g" if "g \<in> set gs" for g using assms(1) s that by (simp add: flat_inv_def)
  have r: "\<not> reading g" "\<not> writing g" if "g \<in> set gs" for g
    using none [OF that] by (auto simp: locker_classes)
  then have zero: "rw_readers m = 0" "\<not> rw_writer m"
    using assms(1) s count_of_zero [of reading gs] count_of_zero [of writing gs]
    by (auto simp: flat_inv_def split: if_splits)
  have a: "lk_ops g \<noteq> [Lock, Unlock]" if "g \<in> set gs" for g
    using none [OF that] zero by (auto split: if_splits)
  then have "rw_waiting m = 0"
    using assms(1) s count_of_zero [of announced gs] by (auto simp: flat_inv_def announced_def)
  with zero have "lk_ops g \<noteq> [RLock, RUnlock]" if "g \<in> set gs" for g
    using none [OF that] by auto
  with flat r a s show ?thesis by (fastforce simp: finished_def locker_classes)
qed

section \<open>Properties\<close>

text \<open>C34: a call can deadlock with a reconnection. \<open>call\<close> holds the service's mutex for reading
  and \<open>sendMsg\<close> takes it for reading again; if another goroutine asks for it for writing in
  between, both wait for ever. Goroutines that take the mutex once, such as any number of
  messages sent on open channels and of reconnections, never deadlock.\<close>

theorem service_lock_discipline:
  assumes "\<forall>ops \<in> set progs. ops = sendMsg_locks \<or> ops = Reconnect_locks"
  shows "(\<exists>s. run locks_step (newRWMutex, map goroutine [call_locks, Reconnect_locks]) [0, 1] = Some s \<and>
       stuck s \<and> \<not> finished s) \<and>
    (\<forall>is s. run locks_step (newRWMutex, map goroutine progs) is = Some s \<longrightarrow> stuck s \<longrightarrow> finished s)"
proof (intro conjI allI impI)
  show "\<exists>s. run locks_step (newRWMutex, map goroutine [call_locks, Reconnect_locks]) [0, 1] = Some s \<and>
       stuck s \<and> \<not> finished s"
    by (simp add: newRWMutex_def goroutine_def call_locks_def sendMsg_locks_def Reconnect_locks_def
        stuck_def finished_def less_Suc_eq nth_Cons' all_conj_distrib)
next
  fix "is" s assume run: "run locks_step (newRWMutex, map goroutine progs) is = Some s" and "stuck s"
  have "flat_inv (newRWMutex, map goroutine progs)"
    using assms by (auto simp: flat_inv_def newRWMutex_def goroutine_def locker_classes count_of_def
        sendMsg_locks_def Reconnect_locks_def filter_empty_conv)
  then have "flat_inv s"
    using run_invariant [where P = flat_inv, OF _ run] flat_inv_step by blast
  then show "finished s" using \<open>stuck s\<close> by (rule flat_inv_progress)
qed

theorem service_lock_discipline_witness:
  "\<exists>s. run locks_step (newRWMutex, map goroutine [sendMsg_locks, Reconnect_locks]) [0, 1, 0, 1, 1] = Some s \<and>
     stuck s \<and> finished s"
proof -
  obtain s where s: "run locks_step (newRWMutex, map goroutine [sendMsg_locks, Reconnect_locks]) [0, 1, 0, 1, 1] = Some s"
      "stuck s"
    by (simp add: newRWMutex_def goroutine_def sendMsg_locks_def Reconnect_locks_def stuck_def
        less_Suc_eq nth_Cons' all_conj_distrib)
  have "\<forall>ops \<in> set [sendMsg_locks, Reconnect_locks]. ops = sendMsg_locks \<or> ops = Reconnect_locks" by simp
  from service_lock_discipline [OF this] s show ?thesis by blast
qed

end
