(* ===== verification/ProxyServer.thy ===== *)
theory ProxyServer
  imports Proxy Defaults
begin

text \<open>
  The server of the HTTP proxy (\<open>NewServer\<close> in \<open>cocaine12/proxy/proxy.go\<close>, started by
  \<open>cmd/proxy/main.go\<close>): an \<open>http.ServeMux\<close> with \<open>process\<close> registered for the pattern \<open>/\<close>. The
  multiplexer redirects a request whose path is not clean to the clean one, except a \<open>CONNECT\<close>,
  and hands \<open>process\<close> only paths that match the pattern, that is, those that start with a slash.
\<close>

section \<open>Clean paths\<close>

text \<open>The elements of a rooted path as \<open>path.Clean\<close> keeps them; the stack is innermost first.\<close>

fun clean_elems :: "string list \<Rightarrow> string list \<Rightarrow> string list" where
  "clean_elems stack [] = rev stack"
| "clean_elems stack (e # es) =
     (if e = '''' \<or> e = ''.'' then clean_elems stack es
      else if e = ''..'' then clean_elems (tl stack) es
      else clean_elems (e # stack) es)"

definition path_Clean :: "string \<Rightarrow> string" where
  "path_Clean p = slash # join_with [slash] (clean_elems [] (split_on slash (tl p)))"

definition cleanPath :: "string \<Rightarrow> string" where
  "cleanPath path =
     (if path = '''' then [slash]
      else (let p = (if hd path = slash then path else slash # path); np = path_Clean p in
            if last p = slash \<and> np \<noteq> [slash] then np @ [slash] else np))"

section \<open>The server\<close>

record serverRequest =
  rq_method :: string
  rq_uri :: string \<comment> \<open>\<open>RequestURI\<close>, as sent\<close>
  rq_path :: string \<comment> \<open>\<open>URL.Path\<close>\<close>
  rq_service :: string \<comment> \<open>the header \<open>X-Cocaine-Service\<close>\<close>
  rq_event :: string \<comment> \<open>the header \<open>X-Cocaine-Event\<close>\<close>

datatype served =
    BadURI
  | NotFound
  | MovedPermanently string
  | Processed "proxyCall list" "(string \<times> string \<times> slice) option"

text \<open>A pattern that ends in a slash matches every path it is a prefix of.\<close>

definition pattern_matches :: "string \<Rightarrow> string \<Rightarrow> bool" where
  "pattern_matches pattern path \<longleftrightarrow> take (length pattern) path = pattern"

definition NewServer :: "extractBody \<Rightarrow> (slice \<Rightarrow> goerr + i64 \<times> headers) \<Rightarrow> serverRequest \<Rightarrow> proxyEnv \<Rightarrow> served go" where
  "NewServer extract decodeHead rq env =
     (let pattern = ''/''; path = rq_path rq in
      if rq_uri rq = ''*'' then Ret BadURI
      else if rq_method rq \<noteq> ''CONNECT'' \<and> cleanPath path \<noteq> path then Ret (MovedPermanently (cleanPath path))
      else if \<not> pattern_matches pattern path then Ret NotFound
      else go_bind (process extract decodeHead (rq_service rq) (rq_event rq) path env)
             (\<lambda>(calls, sent). Ret (Processed calls sent)))"

text \<open>\<open>main\<close>: the server runs until \<open>ListenAndServe\<close> returns, and that is always with an error.\<close>

datatype proxyExit = Fatal string goerr | Normal

definition proxy_main :: "(string \<Rightarrow> goerr option) \<Rightarrow> proxyExit" where
  "proxy_main listenAndServe =
     (case listenAndServe '':10000'' of Some err \<Rightarrow> Fatal ''ListenAndServe: '' err | None \<Rightarrow> Normal)"

section \<open>Lemmas\<close>

definition plain_elem :: "string \<Rightarrow> bool" where
  "plain_elem e \<longleftrightarrow> e \<noteq> '''' \<and> e \<noteq> ''.'' \<and> e \<noteq> ''..'' \<and> slash \<notin> set e"

lemma split_on_elems: "e \<in> set (split_on sep s) \<Longrightarrow> sep \<notin> set e"
  by (induction s arbitrary: e) (auto split: if_splits list.splits)

lemma clean_elems_plain:
  "list_all plain_elem stack \<Longrightarrow> \<forall>e \<in> set es. slash \<notin> set e \<Longrightarrow> list_all plain_elem (clean_elems stack es)"
proof (induction stack es rule: clean_elems.induct)
  case (2 stack e es)
  have "list_all plain_elem (tl stack)" using 2(4) by (cases stack) auto
  moreover have "list_all plain_elem (e # stack)" if "e \<noteq> ''''" "e \<noteq> ''.''" "e \<noteq> ''..''"
    using 2(4,5) that by (simp add: plain_elem_def [of e])
  ultimately show ?case using 2 by simp
qed simp

lemma clean_elems_id: "list_all plain_elem es \<Longrightarrow> clean_elems stack es = rev stack @ es"
  by (induction es arbitrary: stack) (auto simp: plain_elem_def)

lemma clean_elems_snoc_empty: "clean_elems stack (es @ ['''']) = clean_elems stack es"
  by (induction stack es rule: clean_elems.induct) auto

lemma join_snoc_empty: "es \<noteq> [] \<Longrightarrow> join_with [c] (es @ ['''']) = join_with [c] es @ [c]"
  by (induction "[c]" es rule: join_with.induct) auto

lemma join_plain_last: "es \<noteq> [] \<Longrightarrow> list_all plain_elem es \<Longrightarrow> join_with [slash] es \<noteq> [] \<and> last (join_with [slash] es) \<noteq> slash"
proof (induction "[slash]" es rule: join_with.induct)
  case (2 w)
  then have "w \<noteq> []" "slash \<notin> set w" by (simp_all add: plain_elem_def)
  then have "last w \<noteq> slash" using last_in_set by metis
  with \<open>w \<noteq> []\<close> show ?case by simp
qed auto

text \<open>A path built of plain elements, with or without a final slash, is clean.\<close>

lemma plain_split: "list_all plain_elem es \<Longrightarrow> es \<noteq> [] \<Longrightarrow> split_on slash (join_with [slash] es) = es"
  by (rule split_join) (auto simp: list_all_iff plain_elem_def)

lemma plain_split_slash:
  assumes "list_all plain_elem es" and "es \<noteq> []"
  shows "split_on slash (join_with [slash] es @ [slash]) = es @ ['''']"
proof -
  have "split_on slash (join_with [slash] (es @ [''''])) = es @ ['''']"
    by (rule split_join) (use assms in \<open>auto simp: list_all_iff plain_elem_def\<close>)
  then show ?thesis using join_snoc_empty [OF assms(2)] by simp
qed

lemma cleanPath_plain:
  assumes "list_all plain_elem es"
  shows "cleanPath (slash # join_with [slash] es) = slash # join_with [slash] es"
    and "es \<noteq> [] \<Longrightarrow> cleanPath (slash # join_with [slash] es @ [slash]) = slash # join_with [slash] es @ [slash]"
proof -
  show "cleanPath (slash # join_with [slash] es) = slash # join_with [slash] es"
  proof (cases "es = []")
    case False
    with join_plain_last [OF False assms] plain_split [OF assms False] clean_elems_id [OF assms] show ?thesis
      by (simp add: cleanPath_def path_Clean_def)
  qed (simp add: cleanPath_def path_Clean_def)
  assume ne: "es \<noteq> []"
  with join_plain_last [OF ne assms] plain_split_slash [OF assms ne] clean_elems_id [OF assms] clean_elems_snoc_empty
  show "cleanPath (slash # join_with [slash] es @ [slash]) = slash # join_with [slash] es @ [slash]"
    by (simp add: cleanPath_def path_Clean_def)
qed

lemma cleanPath_shape:
  obtains es where "list_all plain_elem es" "cleanPath p = slash # join_with [slash] es"
  | es where "list_all plain_elem es" "es \<noteq> []" "cleanPath p = slash # join_with [slash] es @ [slash]"
proof (cases "p = ''''")
  case True
  then show thesis using that(1) [of "[]"] by (simp add: cleanPath_def)
next
  case False
  define q where "q = (if hd p = slash then p else slash # p)"
  define es where "es = clean_elems [] (split_on slash (tl q))"
  have plain: "list_all plain_elem es"
    unfolding es_def by (rule clean_elems_plain) (auto dest: split_on_elems)
  have eq: "cleanPath p = (if last q = slash \<and> path_Clean q \<noteq> [slash] then path_Clean q @ [slash] else path_Clean q)"
    using False by (simp add: cleanPath_def q_def Let_def)
  have pc: "path_Clean q = slash # join_with [slash] es" by (simp add: path_Clean_def es_def)
  show thesis using that(1) [OF plain] that(2) [OF plain] eq pc by (cases "es = []") (auto split: if_splits)
qed

text \<open>A path whose elements are plain, but for the empty one before the first slash and after a final one.\<close>

definition clean_path :: "string \<Rightarrow> bool" where
  "clean_path p \<longleftrightarrow>
     (case split_on slash p of
        root # es \<Rightarrow> root = '''' \<and> (list_all plain_elem es \<or> es \<noteq> [] \<and> list_all plain_elem (butlast es) \<and> last es = '''')
      | [] \<Rightarrow> False)"

lemma cleanPath_clean: "clean_path (cleanPath p)"
proof (rule cleanPath_shape [of p])
  fix es assume es: "list_all plain_elem es" "cleanPath p = slash # join_with [slash] es"
  then show ?thesis using plain_split [OF es(1)] by (cases "es = []") (auto simp: clean_path_def)
next
  fix es assume es: "list_all plain_elem es" "es \<noteq> []" "cleanPath p = slash # join_with [slash] es @ [slash]"
  then show ?thesis using plain_split_slash [OF es(1,2)] by (simp add: clean_path_def)
qed

lemma cleanPath_idem: "cleanPath (cleanPath p) = cleanPath p"
  by (rule cleanPath_shape [of p]) (simp_all add: cleanPath_plain)

lemma cleanPath_rooted: "pattern_matches ''/'' (cleanPath p)"
  by (rule cleanPath_shape [of p]) (simp_all add: pattern_matches_def slash_def)

lemma proxy_route_rooted: "path \<noteq> '''' \<Longrightarrow> \<exists>x. proxy_route service event path = Ret x"
  by (auto simp: proxy_route_def Let_def split: option.splits)

lemma process_rooted: "path \<noteq> '''' \<Longrightarrow> \<exists>x. process extract decodeHead service event path env = Ret x"
proof -
  assume "path \<noteq> ''''"
  then obtain x where x: "proxy_route service event path = Ret x" using proxy_route_rooted by blast
  show ?thesis unfolding process_def x
    by (cases x; cases "pe_task env") (auto simp: Let_def)
qed

section \<open>Properties\<close>


definition demo_rq :: serverRequest where
  "demo_rq = \<lparr>rq_method = ''GET'', rq_uri = ''/a/./b//c'', rq_path = ''/a/./b//c'', rq_service = '''', rq_event = ''''\<rparr>"


end
