(* ===== verification/Bridge.thy ===== *)
theory Bridge
  imports Proxy
begin

text \<open>
  The bridge (\<open>cocaine12/bridge\<close>, \<open>cmd/bridge_main.go\<close>): a worker whose fallback handler passes every
  request to an HTTP server it runs as a child process. Processes, signals and the HTTP client are
  outside the model: \<open>do\<close> is what \<open>http.DefaultClient.Do\<close> returns for a request.
\<close>

section \<open>Configuration\<close>

record bridgeConfig =
  bc_Name :: string
  bc_Args :: "string list"
  bc_Env :: "string list"
  bc_Port :: i64
  bc_StartupTimeout :: i64

definition itoa :: "i64 \<Rightarrow> string" where
  "itoa w = (if sint w < 0 then ''-'' @ decimal (nat (- sint w)) else decimal (nat (sint w)))"

definition bridge_Endpoint :: "bridgeConfig \<Rightarrow> string" where
  "bridge_Endpoint cfg = ''localhost:'' @ itoa (bc_Port cfg)"

text \<open>
  \<open>filterEndpointArg\<close> cuts the first \<open>--endpoint\<close> that has a value. \<open>append\<close> writes into the array of
  its argument: the second component is that array afterwards.
\<close>

fun endpoint_index :: "nat \<Rightarrow> string list \<Rightarrow> nat option" where
  "endpoint_index i [] = None"
| "endpoint_index i (arg # rest) = (if arg = ''--endpoint'' \<and> rest \<noteq> [] then Some i else endpoint_index (Suc i) rest)"

definition filterEndpointArg :: "string list \<Rightarrow> string list \<times> string list" where
  "filterEndpointArg args =
     (case endpoint_index 0 args of
        None \<Rightarrow> (args, args)
      | Some i \<Rightarrow>
          (let cut = take i args @ drop (i + 2) args in (cut, cut @ drop (length args - 2) args)))"

text \<open>\<open>NewBridgeConfig\<close>, with the process's arguments after it.\<close>

definition NewBridgeConfig :: "string list \<Rightarrow> string list \<Rightarrow> bridgeConfig \<times> string list" where
  "NewBridgeConfig osArgs environ =
     (case filterEndpointArg (drop 1 osArgs) of (args, backing) \<Rightarrow>
        (\<lparr>bc_Name = '''', bc_Args = args, bc_Env = environ, bc_Port = 8080, bc_StartupTimeout = 5\<rparr>,
         take 1 osArgs @ backing))"

text \<open>The settings \<open>main\<close> reads from the environment; an error ends the process.\<close>

definition atoi_into :: "string \<Rightarrow> (i64 \<Rightarrow> bridgeConfig \<Rightarrow> bridgeConfig) \<Rightarrow> string \<Rightarrow> bridgeConfig \<Rightarrow> string + bridgeConfig" where
  "atoi_into what upd s cfg =
     (if s = '''' then Inr cfg
      else case ParseInt s of
             None \<Rightarrow> Inl (''unable to determine the '' @ what)
           | Some v \<Rightarrow> Inr (upd (word_of_int v) cfg))"

definition bridge_main_config :: "(string \<Rightarrow> string) \<Rightarrow> bridgeConfig \<Rightarrow> string + bridgeConfig" where
  "bridge_main_config getenv cfg =
     (if getenv ''slave'' = '''' then Inl ''unable to determine a path to the slave''
      else
        (case atoi_into ''port'' (\<lambda>v c. c\<lparr>bc_Port := v\<rparr>) (getenv ''port'') (cfg\<lparr>bc_Name := getenv ''slave''\<rparr>) of
           Inl e \<Rightarrow> Inl e
         | Inr c \<Rightarrow> atoi_into ''startup timeout'' (\<lambda>v c. c\<lparr>bc_StartupTimeout := v\<rparr>) (getenv ''startup-timeout'') c))"

section \<open>The fallback handler\<close>

record 'r url =
  u_Scheme :: string
  u_Host :: string
  u_rest :: 'r

text \<open>The child's answer: its status, headers, and what the successive reads of its body returned,
  the error that may end them being dropped by the code.\<close>

record appResponse =
  ap_StatusCode :: i64
  ap_Header :: http_header
  ap_reads :: "bytes list"

definition bridge_Write :: "bytes \<Rightarrow> response \<Rightarrow> response \<times> nat" where
  "bridge_Write body r = (fst (response_Write (Some body) r), length body)"

text \<open>\<open>io.Copy\<close> writes what each read returned, if anything.\<close>

definition bridge_Copy :: "bytes list \<Rightarrow> response \<Rightarrow> response" where
  "bridge_Copy reads r = fold (\<lambda>b r. if b = [] then r else fst (bridge_Write b r)) reads r"

definition bridge_refuse :: "(i64 \<Rightarrow> headers \<Rightarrow> bytes) \<Rightarrow> i64 \<Rightarrow> string \<Rightarrow> response \<Rightarrow> response" where
  "bridge_refuse encode code text r =
     fold response_op [WriteOp (WriteHead encode code []), WriteOp (Some (bytes_of_string text))] r"

definition bridge_handler ::
  "(i64 \<Rightarrow> headers \<Rightarrow> bytes) \<Rightarrow> (slice \<Rightarrow> goerr + proxyRequest) \<Rightarrow> (string \<Rightarrow> goerr + 'r url) \<Rightarrow> (goerr \<Rightarrow> string)
     \<Rightarrow> ('r url httpRequest \<Rightarrow> goerr + appResponse) \<Rightarrow> string \<Rightarrow> goerr + slice \<Rightarrow> goerr option \<Rightarrow> response \<Rightarrow> response" where
  "bridge_handler encode decode parseURL Error doReq endpoint msg ctxErr r =
     fst (response_Close
       (case msg of
          Inl err \<Rightarrow>
            (case ctxErr of
               Some _ \<Rightarrow> bridge_refuse encode StatusRequestTimeout ''request was not received during a timeout'' r
             | None \<Rightarrow> bridge_refuse encode StatusBadRequest (''cannot process request '' @ Error err) r)
        | Inr raw \<Rightarrow>
            (case UnpackProxyRequest decode parseURL raw of
               Inl err \<Rightarrow> bridge_refuse encode StatusBadRequest (''malformed request: '' @ Error err) r
             | Inr req \<Rightarrow>
                 (case doReq (req\<lparr>hr_URL := (hr_URL req)\<lparr>u_Scheme := ''http'', u_Host := endpoint\<rparr>\<rparr>) of
                    Inl err \<Rightarrow> bridge_refuse encode StatusInternalServerError (''unable to proxy a request: '' @ Error err) r
                  | Inr ap \<Rightarrow>
                      bridge_Copy (ap_reads ap)
                        (fst (response_Write (WriteHead encode (ap_StatusCode ap) (HeadersHTTPtoCocaine (ap_Header ap))) r))))))"

text \<open>The handler under the worker's trap.\<close>

definition bridge_session where
  "bridge_session encode decode parseURL Error doReq endpoint event printStack stack msg ctxErr s =
     trapRecoverAndClose response_Close response_ErrorMsg event None printStack stack
       (bridge_handler encode decode parseURL Error doReq endpoint msg ctxErr (newResponse s))"

section \<open>Starting and stopping\<close>

text \<open>
  \<open>PING_LOOP\<close> of \<open>Start\<close>: one entry per round, whether the ping succeeded, and whether afterwards the
  deadline had passed or \<open>Start\<close> had returned. Some True: the worker is run.
\<close>

fun ping_loop :: "(bool \<times> bool \<times> bool) list \<Rightarrow> bool option" where
  "ping_loop [] = None"
| "ping_loop ((ok, deadline, onClose) # rounds) =
     (if ok then Some True else if deadline \<or> onClose then Some False else ping_loop rounds)"

record bridge =
  br_stopChild :: bool
  br_onClose :: bool

definition newBridge :: bridge where
  "newBridge = \<lparr>br_stopChild = True, br_onClose = False\<rparr>"

datatype bevent = SigCHLD | SigTerm | OnClose | CallClose

definition bridge_Close :: "bridge \<Rightarrow> bridge go" where
  "bridge_Close b = (if br_onClose b then Panic CloseOfClosed else Ret (b\<lparr>br_onClose := True\<rparr>))"

text \<open>One round of \<open>eventLoop\<close>, and the call of \<open>Close\<close>. No case of the loop's \<open>select\<close> leaves the loop.\<close>

fun bridge_eventLoop :: "bridge \<Rightarrow> bevent \<Rightarrow> bridge option" where
  "bridge_eventLoop b SigCHLD = Some (b\<lparr>br_stopChild := False\<rparr>)"
| "bridge_eventLoop b SigTerm = Some b"
| "bridge_eventLoop b OnClose = (if br_onClose b then Some b else None)"
| "bridge_eventLoop b CallClose = (case bridge_Close b of Ret c \<Rightarrow> Some c | Panic _ \<Rightarrow> None)"

section \<open>Lemmas\<close>

lemma endpoint_index_Some:
  "endpoint_index n args = Some i \<Longrightarrow>
     \<exists>as v rest. args = as @ ''--endpoint'' # v # rest \<and> i = n + length as \<and> ''--endpoint'' \<notin> set as"
proof (induction n args rule: endpoint_index.induct)
  case (2 n arg rest)
  show ?case
  proof (cases "arg = ''--endpoint'' \<and> rest \<noteq> []")
    case True
    with "2.prems" show ?thesis by (auto simp: neq_Nil_conv intro!: exI [of _ "[]"])
  next
    case False
    with "2.prems" have e: "endpoint_index (Suc n) rest = Some i" by (simp split: if_splits)
    with "2.IH" [OF False] obtain as v r where r: "rest = as @ ''--endpoint'' # v # r" "i = Suc n + length as"
      "''--endpoint'' \<notin> set as" by blast
    with False show ?thesis by (intro exI [of _ "arg # as"]) auto
  qed
qed simp

lemma endpoint_index_None:
  "endpoint_index n args = None \<Longrightarrow> \<nexists>as v rest. args = as @ ''--endpoint'' # v # rest"
proof (induction n args rule: endpoint_index.induct)
  case (2 n arg rest)
  then show ?case by (auto simp: Cons_eq_append_conv split: if_splits)
qed simp

lemma concat_nonempty: "concat (filter (\<lambda>b. b \<noteq> []) bs) = concat bs"
  by (induction bs) auto

lemma response_Write_out:
  "\<not> rs_closed r \<Longrightarrow> b \<noteq> [] \<Longrightarrow>
     rs_out (fst (response_Write (Some b) r)) = rs_out r @ [newChunkV1 (rs_session r) (Some b)] \<and>
     \<not> rs_closed (fst (response_Write (Some b) r)) \<and> rs_session (fst (response_Write (Some b) r)) = rs_session r"
  by (simp add: response_defs Let_def)

lemma bridge_Copy_out:
  "\<not> rs_closed r \<Longrightarrow> rs_out (bridge_Copy reads r) = rs_out r @
       map (\<lambda>b. newChunkV1 (rs_session r) (Some b)) (filter (\<lambda>b. b \<noteq> []) reads) \<and>
     \<not> rs_closed (bridge_Copy reads r) \<and> rs_session (bridge_Copy reads r) = rs_session r"
  unfolding bridge_Copy_def
proof (induction reads arbitrary: r)
  case (Cons b reads)
  show ?case
  proof (cases "b = []")
    case True
    with Cons show ?thesis by simp
  next
    case False
    with Cons.IH [of "fst (bridge_Write b r)"] response_Write_out [OF Cons.prems False] show ?thesis
      by (simp add: bridge_Write_def)
  qed
qed simp

text \<open>The answer of a refusal: one head, one text, the end of the stream.\<close>

definition refused :: "(i64 \<Rightarrow> headers \<Rightarrow> bytes) \<Rightarrow> u64 \<Rightarrow> i64 \<Rightarrow> string \<Rightarrow> message list" where
  "refused encode s code text =
     map (newChunkV1 s) [Some (encode code []), Some (bytes_of_string text)] @ [newChokeV1 s]"

text \<open>A closed response is left alone by the trap.\<close>

lemma bridge_session_closed:
  assumes "\<not> rs_closed r" and "rs_session r = s"
    and "bridge_handler encode decode parseURL Error doReq endpoint msg ctxErr (newResponse s) = fst (response_Close r)"
  shows "rs_out (bridge_session encode decode parseURL Error doReq endpoint event printStack stack msg ctxErr s) =
    rs_out r @ [newChokeV1 s]"
proof -
  have "rs_closed (fst (response_Close r))" using rs.close_open assms(1) by blast
  then have "trapRecoverAndClose response_Close response_ErrorMsg event None printStack stack (fst (response_Close r)) =
      fst (response_Close r)"
    by (rule rs.trap_after_close)
  with assms show ?thesis by (simp add: bridge_session_def response_defs)
qed

lemma bridge_refuse_out:
  assumes "encode code [] \<noteq> []" and "text \<noteq> ''''"
  shows "rs_out (bridge_refuse encode code text (newResponse s)) =
      map (newChunkV1 s) [Some (encode code []), Some (bytes_of_string text)] \<and>
    \<not> rs_closed (bridge_refuse encode code text (newResponse s)) \<and>
    rs_session (bridge_refuse encode code text (newResponse s)) = s"
  using assms by (simp add: bridge_refuse_def WriteHead_def response_defs newResponse_def bytes_of_string_def Let_def)

text \<open>What the bridge sends when the child answers.\<close>

lemma bridge_session_answer:
  assumes "UnpackProxyRequest decode parseURL raw = Inr req"
    and "doReq (req\<lparr>hr_URL := (hr_URL req)\<lparr>u_Scheme := ''http'', u_Host := endpoint\<rparr>\<rparr>) = Inr ap"
    and "encode (ap_StatusCode ap) (HeadersHTTPtoCocaine (ap_Header ap)) \<noteq> []"
  shows "rs_out (bridge_session encode decode parseURL Error doReq endpoint event printStack stack (Inr raw) ctxErr s) =
    map (newChunkV1 s) (Some (encode (ap_StatusCode ap) (HeadersHTTPtoCocaine (ap_Header ap))) #
      map Some (filter (\<lambda>b. b \<noteq> []) (ap_reads ap))) @ [newChokeV1 s]"
proof -
  let ?h = "encode (ap_StatusCode ap) (HeadersHTTPtoCocaine (ap_Header ap))"
  let ?r0 = "fst (response_Write (Some ?h) (newResponse s))"
  have new: "\<not> rs_closed (newResponse s)" "rs_session (newResponse s) = s" "rs_out (newResponse s) = []"
    by (simp_all add: newResponse_def)
  note h = response_Write_out [OF new(1) assms(3)]
  then have c: "rs_out (bridge_Copy (ap_reads ap) ?r0) = rs_out ?r0 @
        map (\<lambda>b. newChunkV1 s (Some b)) (filter (\<lambda>b. b \<noteq> []) (ap_reads ap))"
      "\<not> rs_closed (bridge_Copy (ap_reads ap) ?r0)" "rs_session (bridge_Copy (ap_reads ap) ?r0) = s"
    using bridge_Copy_out [of ?r0 "ap_reads ap"] new by simp_all
  have "bridge_handler encode decode parseURL Error doReq endpoint (Inr raw) ctxErr (newResponse s) =
      fst (response_Close (bridge_Copy (ap_reads ap) ?r0))"
    by (simp add: bridge_handler_def assms(1,2) WriteHead_def)
  from bridge_session_closed [where encode = encode and decode = decode and parseURL = parseURL and doReq = doReq
      and Error = Error and endpoint = endpoint and msg = "Inr raw" and ctxErr = ctxErr, OF c(2,3) this] c(1) h new
  show ?thesis by (simp add: comp_def)
qed

section \<open>Properties\<close>


text \<open>And whatever goes wrong before that, the client gets an HTTP answer that says so: one head with
  the status of the failure, one text, and the end of the stream.\<close>

theorem bridge_refusals:
  assumes "\<And>code. encode code [] \<noteq> []"
  shows "rs_out (bridge_session encode decode parseURL Error doReq endpoint event printStack stack (Inl err) (Some cerr) s) =
      refused encode s StatusRequestTimeout ''request was not received during a timeout'' \<and>
    rs_out (bridge_session encode decode parseURL Error doReq endpoint event printStack stack (Inl err) None s) =
      refused encode s StatusBadRequest (''cannot process request '' @ Error err) \<and>
    (UnpackProxyRequest decode parseURL raw = Inl err \<longrightarrow>
      rs_out (bridge_session encode decode parseURL Error doReq endpoint event printStack stack (Inr raw) ctxErr s) =
        refused encode s StatusBadRequest (''malformed request: '' @ Error err)) \<and>
    (UnpackProxyRequest decode parseURL raw = Inr req \<and>
       doReq (req\<lparr>hr_URL := (hr_URL req)\<lparr>u_Scheme := ''http'', u_Host := endpoint\<rparr>\<rparr>) = Inl err \<longrightarrow>
      rs_out (bridge_session encode decode parseURL Error doReq endpoint event printStack stack (Inr raw) ctxErr s) =
        refused encode s StatusInternalServerError (''unable to proxy a request: '' @ Error err))"
proof -
  have "rs_out (bridge_session encode decode parseURL Error doReq endpoint event printStack stack msg ctxErr s) =
      refused encode s code t"
    if "t \<noteq> ''''" "bridge_handler encode decode parseURL Error doReq endpoint msg ctxErr (newResponse s) =
      fst (response_Close (bridge_refuse encode code t (newResponse s)))" for msg ctxErr code t
    using bridge_session_closed [where encode = encode and decode = decode and parseURL = parseURL and doReq = doReq
        and Error = Error and endpoint = endpoint and msg = msg and ctxErr = ctxErr, OF _ _ that(2)]
      bridge_refuse_out [of encode code, OF assms that(1), of s] by (simp add: refused_def)
  then show ?thesis by (auto simp: bridge_handler_def)
qed

text \<open>\<open>filterEndpointArg\<close> removes the first \<open>--endpoint\<close> that is followed by a value, and the value, and
  leaves other arguments alone. But the arguments it was given are overwritten too: with an endpoint
  the last two arguments appear twice in \<open>os.Args\<close> afterwards.\<close>

theorem filterEndpointArg_cuts:
  "''--endpoint'' \<notin> set as \<Longrightarrow>
     filterEndpointArg (as @ ''--endpoint'' # v # rest) =
       (as @ rest, as @ rest @ drop (length as + length rest) (as @ ''--endpoint'' # v # rest)) \<and>
     filterEndpointArg as = (as, as)"
proof -
  assume a: "''--endpoint'' \<notin> set as"
  have idx: "endpoint_index n (as @ ''--endpoint'' # v # rest) = Some (n + length as)" for n
    using a by (induction as arbitrary: n) auto
  have "endpoint_index n as = None" for n using a by (induction as arbitrary: n) auto
  with idx [of 0] show ?thesis by (simp add: filterEndpointArg_def Let_def)
qed

theorem filterEndpointArg_cuts_witness:
  "filterEndpointArg [''-x'', ''--endpoint'', ''ep'', ''-y'', ''-z''] = ([''-x'', ''-y'', ''-z''], [''-x'', ''-y'', ''-z'', ''-y'', ''-z''])"
  using filterEndpointArg_cuts [of "[''-x'']" "''ep''" "[''-y'', ''-z'']"] by simp

text \<open>The worker is run only after the child has answered a ping, and when no ping succeeds before the
  deadline it is never run.\<close>

theorem ping_loop_iff:
  "ping_loop rounds = Some True \<longleftrightarrow>
     (\<exists>n < length rounds. fst (rounds ! n) \<and> (\<forall>m < n. rounds ! m = (False, False, False)))"
proof (induction rounds rule: ping_loop.induct)
  case (2 ok deadline onClose rounds)
  show ?case
  proof (cases "ok \<or> deadline \<or> onClose")
    case True
    then show ?thesis by (cases ok) (auto simp: gr0_conv_Suc nth_Cons split: nat.splits)
  next
    case False
    with 2 show ?thesis by (auto simp: Ex_less_Suc2 All_less_Suc2 nth_Cons')
  qed
qed simp

text \<open>No signal and no call of \<open>Close\<close> leaves the event loop: it is always ready for one more signal, and
  the calls of \<open>stopWorker\<close> and \<open>stopChild\<close> behind it are never made.\<close>

lemma bridge_eventLoop_endless: "run bridge_eventLoop newBridge es = Some b \<Longrightarrow> \<exists>c. bridge_eventLoop b SigTerm = Some c"
  by simp

definition demo_app :: appResponse where
  "demo_app = \<lparr>ap_StatusCode = 200, ap_Header = [], ap_reads = [[1, 2], [], [3]]\<rparr>"

definition demo_url :: "string \<Rightarrow> goerr + unit url" where
  "demo_url u = Inr \<lparr>u_Scheme = '''', u_Host = '''', u_rest = ()\<rparr>"

lemma demo_bridge_request: "\<exists>req. UnpackProxyRequest demo_decode_http demo_url None = Inr req"
  by (simp add: UnpackProxyRequest_def demo_decode_http_def NewRequest_def demo_url_def validHeaderFieldByte_def Let_def)


theorem bridge_refusals_witness:
  "rs_out (bridge_session (\<lambda>c hs. [ucast c]) demo_decode_http demo_url (\<lambda>_. '''') (\<lambda>_. Inr demo_app) ''localhost:80''
      ''http'' False [] (Inl EOF) None 5) =
    [newChunkV1 5 (Some [400]), newChunkV1 5 (Some (bytes_of_string ''cannot process request '')), newChokeV1 5]"
  using bridge_refusals [of "\<lambda>c hs. [ucast c]" demo_decode_http demo_url "\<lambda>_. ''''" "\<lambda>_. Inr demo_app" "''localhost:80''"
      "''http''" False "[]" EOF CtxCanceled 5]
  by (simp add: refused_def StatusBadRequest_def)

end
