(* ===== verification/BridgeMain.thy ===== *)
theory BridgeMain
  imports Bridge
begin

text \<open>
  The process of the bridge (\<open>cocaine12/bridge/bridge.go\<close>, \<open>cocaine12/bridge/ping.go\<close>,
  \<open>cmd/bridge_main.go\<close>): creating the bridge, starting the child, copying its output to the log,
  stopping it, and the order in which \<open>main\<close> does all this. The operating system is the argument:
  whether a pipe, the start and the wait of the child succeed, and what the child writes.
\<close>

section \<open>The child\<close>

text \<open>
  The process attributes, by the system the package is built for. Field \<open>Pdeathsig\<close>: the signal the
  child receives when its parent dies, 0 for none.
\<close>

datatype goos = Linux | Darwin

record sysProcAttr =
  Pdeathsig :: nat

definition SIGKILL :: nat where "SIGKILL = 9"

definition getSysProctAttr_linux :: sysProcAttr where
  "getSysProctAttr_linux = \<lparr>Pdeathsig = SIGKILL\<rparr>"

definition getSysProctAttr_darwin :: sysProcAttr where
  "getSysProctAttr_darwin = \<lparr>Pdeathsig = 0\<rparr>"

definition getSysProctAttr :: "goos \<Rightarrow> sysProcAttr" where
  "getSysProctAttr os = (case os of Linux \<Rightarrow> getSysProctAttr_linux | Darwin \<Rightarrow> getSysProctAttr_darwin)"

text \<open>\<open>exec.Cmd\<close>: \<open>Process\<close> is nil until \<open>Start\<close> has succeeded.\<close>

record childCmd =
  ch_Path :: string
  ch_Args :: "string list"
  ch_Env :: "string list"
  ch_SysProcAttr :: sysProcAttr
  ch_process :: bool
  ch_waited :: bool
  ch_killed :: bool

definition exec_Command :: "goos \<Rightarrow> bridgeConfig \<Rightarrow> childCmd" where
  "exec_Command os cfg = \<lparr>ch_Path = bc_Name cfg, ch_Args = bc_Args cfg, ch_Env = bc_Env cfg,
     ch_SysProcAttr = getSysProctAttr os, ch_process = False, ch_waited = False, ch_killed = False\<rparr>"

text \<open>\<open>NewBridge\<close>: the worker comes first; its error ends the construction.\<close>

definition NewBridge :: "goos \<Rightarrow> goerr + 'w \<Rightarrow> bridgeConfig \<Rightarrow> goerr + 'w \<times> childCmd \<times> bridge" where
  "NewBridge os newWorker cfg =
     (case newWorker of
        Inl err \<Rightarrow> Inl err
      | Inr w \<Rightarrow> Inr (w, exec_Command os cfg, newBridge))"

text \<open>\<open>ping\<close>: a connection that could be opened is closed again.\<close>

definition ping :: "(string \<Rightarrow> goerr option) \<Rightarrow> string \<Rightarrow> goerr option" where
  "ping dial address = dial address"

section \<open>The child's output\<close>

text \<open>
  \<open>bufio.Scanner\<close> with its default split function and its default buffer: lines without their end,
  the last one also when it has none, until a line does not fit the buffer.
\<close>

definition MaxScanTokenSize :: nat where "MaxScanTokenSize = 64 * 1024"

definition newline_byte :: byte where "newline_byte = 10"
definition return_byte :: byte where "return_byte = 13"

definition dropCR :: "bytes \<Rightarrow> bytes" where
  "dropCR line = (if line \<noteq> [] \<and> last line = return_byte then butlast line else line)"

text \<open>The line at the front of the input, and what follows its end.\<close>

definition first_line :: "bytes \<Rightarrow> bytes" where "first_line = takeWhile (\<lambda>b. b \<noteq> newline_byte)"
definition after_line :: "bytes \<Rightarrow> bytes" where "after_line bs = tl (dropWhile (\<lambda>b. b \<noteq> newline_byte) bs)"

lemma after_line_shorter: "bs \<noteq> [] \<Longrightarrow> length (after_line bs) < length bs"
  using length_dropWhile_le [of "\<lambda>b. b \<noteq> newline_byte" bs] by (cases bs) (auto simp: after_line_def)

function Scan :: "bytes \<Rightarrow> bytes list \<times> goerr option" where
  "Scan [] = ([], None)"
| "Scan (b # bs) =
     (if length (first_line (b # bs)) < MaxScanTokenSize
      then apfst (Cons (dropCR (first_line (b # bs)))) (Scan (after_line (b # bs)))
      else ([], Some (ErrCodec ''bufio.Scanner: token too long'')))"
  by pat_completeness auto

termination by (relation "measure length") (simp_all add: less_le_trans [OF after_line_shorter])

datatype logLine = LogInfo bytes | LogErr string goerr

text \<open>
  The two goroutines of \<open>Start\<close>: every line, then the error the scanner ended with. \<open>readErr\<close>: the
  error after which nothing more could be read, None at the end of the output.
\<close>

definition copy_output :: "string \<Rightarrow> bytes \<Rightarrow> goerr option \<Rightarrow> logLine list" where
  "copy_output what output readErr =
     (case Scan output of (lines, err) \<Rightarrow>
        map LogInfo lines @
          (case (if err = None then readErr else err) of None \<Rightarrow> [] | Some e \<Rightarrow> [LogErr what e]))"

section \<open>Starting and stopping\<close>

text \<open>
  What the operating system answers to \<open>Start\<close>, and what the goroutines read of the child's outputs
  until they end or \<open>Wait\<close> closes the pipes, which it does as soon as the child has exited.
\<close>

record startEnv =
  se_stdoutPipe :: "goerr option"
  se_stderrPipe :: "goerr option"
  se_start :: "goerr option"
  se_wait :: "goerr option"
  se_stdout :: bytes
  se_stdoutErr :: "goerr option"
  se_stderr :: bytes
  se_stderrErr :: "goerr option"

text \<open>The child afterwards, the lines logged for each of its two outputs, and the result.\<close>

definition bridge_Start :: "startEnv \<Rightarrow> childCmd \<Rightarrow> childCmd \<times> (logLine list \<times> logLine list) \<times> goerr option" where
  "bridge_Start env c =
     (if se_stdoutPipe env \<noteq> None then (c, ([], []), se_stdoutPipe env)
      else if se_stderrPipe env \<noteq> None then (c, ([], []), se_stderrPipe env)
      else
        (let logged = (\<lambda>out err. (copy_output ''unable to read stdout'' out (se_stdoutErr env),
                          copy_output ''unable to read stderr:'' err (se_stderrErr env))) in
         if se_start env \<noteq> None then (c, logged [] [], se_start env)
         else (c\<lparr>ch_process := True, ch_waited := True\<rparr>, logged (se_stdout env) (se_stderr env), se_wait env)))"

text \<open>
  \<open>stopChild\<close>: a child that cannot be signalled is killed; otherwise it has five seconds before the
  second goroutine kills it. \<open>exits\<close>: after how many seconds the signalled child exits, if ever. The
  result holds the seconds \<open>Wait\<close> took.
\<close>

definition bridge_stopChild :: "goerr option \<Rightarrow> nat option \<Rightarrow> goerr option \<Rightarrow> childCmd \<Rightarrow> childCmd \<times> nat \<times> goerr option" where
  "bridge_stopChild signalErr exits waitErr c =
     (case signalErr of
        Some err \<Rightarrow> (c\<lparr>ch_killed := True\<rparr>, 0, Some err)
      | None \<Rightarrow>
          (case exits of
             Some t \<Rightarrow>
               if t < 5 then (c\<lparr>ch_waited := True\<rparr>, t, waitErr)
               else (c\<lparr>ch_waited := True, ch_killed := True\<rparr>, 5, waitErr)
           | None \<Rightarrow> (c\<lparr>ch_waited := True, ch_killed := True\<rparr>, 5, waitErr)))"

text \<open>\<open>waitChild\<close> dereferences the process, which is nil when the child never started.\<close>

definition bridge_waitChild :: "childCmd \<Rightarrow> childCmd go" where
  "bridge_waitChild c = (if ch_process c then Ret (c\<lparr>ch_waited := True\<rparr>) else Panic NilDeref)"

definition bridge_CloseWait :: "bridge \<Rightarrow> childCmd \<Rightarrow> (bridge \<times> childCmd) go" where
  "bridge_CloseWait b c = go_bind (bridge_Close b) (\<lambda>b'. go_bind (bridge_waitChild c) (\<lambda>c'. Ret (b', c')))"

text \<open>Both goroutines of \<open>Start\<close> and of \<open>NewBridge\<close> live on; \<open>stopWorker\<close> is never called.\<close>

section \<open>\<open>main\<close>\<close>

datatype mainEnd = Fatal string | Finished "goerr option" | Panicked panic

text \<open>Outcomes of the steps of \<open>main\<close>; the error of \<open>Start\<close> is only logged.\<close>

definition bridge_main :: "goos \<Rightarrow> goerr option \<Rightarrow> string list \<Rightarrow> string list \<Rightarrow> (string \<Rightarrow> string) \<Rightarrow> goerr + 'w \<Rightarrow> startEnv \<Rightarrow> mainEnd" where
  "bridge_main os loggerErr osArgs environ getenv newWorker env =
     (if loggerErr \<noteq> None then Fatal ''unable to create logger''
      else
        (case bridge_main_config getenv (fst (NewBridgeConfig osArgs environ)) of
           Inl e \<Rightarrow> Fatal e
         | Inr cfg \<Rightarrow>
             (case NewBridge os newWorker cfg of
                Inl err \<Rightarrow> Fatal ''unable to create bridge''
              | Inr (w, c, b) \<Rightarrow>
                  (case bridge_Start env c of
                     (c', logged, err) \<Rightarrow>
                       (case bridge_CloseWait b c' of
                          Panic p \<Rightarrow> Panicked p
                        | Ret _ \<Rightarrow> Finished err)))))"

section \<open>Properties\<close>

lemma first_line_after: "newline_byte \<in> set bs \<Longrightarrow> bs = first_line bs @ newline_byte # after_line bs"
  by (induction bs) (auto simp: first_line_def after_line_def)

lemma first_line_only: "newline_byte \<notin> set bs \<Longrightarrow> first_line bs = bs \<and> after_line bs = []"
  by (induction bs) (auto simp: first_line_def after_line_def)

text \<open>The lines of a text, as a reference: cut at the newlines, no empty line at the end.\<close>

definition join_lines :: "bytes list \<Rightarrow> bytes" where
  "join_lines ls = concat (map (\<lambda>l. l @ [newline_byte]) ls)"

definition short_lines :: "bytes list \<Rightarrow> bool" where
  "short_lines ls \<longleftrightarrow> (\<forall>l \<in> set ls. newline_byte \<notin> set l \<and> length l < MaxScanTokenSize)"

lemma line_front: "newline_byte \<notin> set l \<Longrightarrow> first_line (l @ newline_byte # bs) = l \<and> after_line (l @ newline_byte # bs) = bs"
  by (induction l) (auto simp: first_line_def after_line_def)

lemma Scan_step:
  "bs \<noteq> [] \<Longrightarrow> length (first_line bs) < MaxScanTokenSize \<Longrightarrow>
     Scan bs = apfst (Cons (dropCR (first_line bs))) (Scan (after_line bs))"
  by (cases bs) auto

lemma Scan_lines: "short_lines ls \<Longrightarrow> Scan (join_lines ls @ rest) = apfst (append (map dropCR ls)) (Scan rest)"
proof (induction ls)
  case Nil
  then show ?case by (simp add: join_lines_def apfst_def map_prod_def)
next
  case (Cons l ls)
  then have l: "newline_byte \<notin> set l" "length l < MaxScanTokenSize" by (simp_all add: short_lines_def)
  have eq: "join_lines (l # ls) @ rest = l @ newline_byte # (join_lines ls @ rest)" by (simp add: join_lines_def)
  have "Scan (l @ newline_byte # (join_lines ls @ rest)) = apfst (Cons (dropCR l)) (Scan (join_lines ls @ rest))"
    using Scan_step [of "l @ newline_byte # (join_lines ls @ rest)"] line_front [OF l(1)] l(2) by simp
  moreover have "short_lines ls" using Cons.prems by (simp add: short_lines_def)
  ultimately show ?case unfolding eq using Cons.IH by (simp add: apfst_def map_prod_def case_prod_beta)
qed

lemma Scan_long:
  assumes "newline_byte \<notin> set l" and "MaxScanTokenSize \<le> length l"
  shows "Scan (l @ newline_byte # rest) = ([], Some (ErrCodec ''bufio.Scanner: token too long''))"
proof -
  have "l \<noteq> []" using assms(2) by (auto simp: MaxScanTokenSize_def)
  then obtain x xs where x: "l @ newline_byte # rest = x # xs" by (cases l) auto
  show ?thesis using line_front [OF assms(1), of rest] assms(2) unfolding x by simp
qed

text \<open>What the bridge logs of its child. The child's output is logged line by line, in order,
  nothing added or lost but the carriage return before a newline, followed by the error that ended
  the reading, if any, as long as the lines are shorter than the scanner's buffer of 64 KiB. A
  longer line ends the copying for good: it and all that follows is not read (so a child that goes
  on writing blocks once the pipe is full), and one error is logged.\<close>

theorem copy_output_lines:
  assumes "short_lines ls"
  shows "copy_output what (join_lines ls) readErr =
      map (LogInfo \<circ> dropCR) ls @ (case readErr of None \<Rightarrow> [] | Some e \<Rightarrow> [LogErr what e]) \<and>
    (newline_byte \<notin> set l \<and> MaxScanTokenSize \<le> length l \<longrightarrow>
      copy_output what (join_lines ls @ l @ newline_byte # rest) readErr =
        map (LogInfo \<circ> dropCR) ls @ [LogErr what (ErrCodec ''bufio.Scanner: token too long'')])"
  using Scan_lines [OF assms, of "[]"] Scan_lines [OF assms, of "l @ newline_byte # rest"] Scan_long [of l rest]
  by (auto simp: copy_output_def)

theorem copy_output_lines_witness:
  "copy_output ''x'' (join_lines [[104, 105], [], [98, 13]]) None = [LogInfo [104, 105], LogInfo [], LogInfo [98]] \<and>
   copy_output ''x'' (join_lines [[104, 105], [], [98, 13]] @ replicate 65536 65 @ newline_byte # [66]) None =
     [LogInfo [104, 105], LogInfo [], LogInfo [98], LogErr ''x'' (ErrCodec ''bufio.Scanner: token too long'')]"
  using copy_output_lines [of "[[104, 105], [], [98, 13]]" "''x''" None "replicate 65536 65" "[66]"]
  by (simp add: short_lines_def newline_byte_def MaxScanTokenSize_def dropCR_def return_byte_def)

text \<open>Stopping the child takes at most five seconds.\<close>

lemma stopChild_bounded: "fst (snd (bridge_stopChild signalErr exits waitErr c)) \<le> 5"
  by (simp add: bridge_stopChild_def split: option.splits)

lemma stopChild_kills_iff:
  "\<not> ch_killed c \<Longrightarrow> ch_killed (fst (bridge_stopChild signalErr exits waitErr c)) \<longleftrightarrow>
     signalErr \<noteq> None \<or> (case exits of None \<Rightarrow> True | Some t \<Rightarrow> 5 \<le> t)"
  by (auto simp: bridge_stopChild_def split: option.splits)

text \<open>The child runs with the environment and arguments of the configuration; that it dies with the bridge is asked
  for on Linux only.\<close>

lemma child_attributes:
  assumes "NewBridge os newWorker cfg = Inr (w, c, b)" and "bridge_Start env c = (c', logged, err)"
  shows "ch_Path c' = bc_Name cfg \<and> ch_Args c' = bc_Args cfg \<and> ch_Env c' = bc_Env cfg \<and>
    (Pdeathsig (ch_SysProcAttr c') = SIGKILL \<longleftrightarrow> os = Linux)"
  using assms
  by (cases os)
    (auto simp: NewBridge_def bridge_Start_def exec_Command_def getSysProctAttr_def getSysProctAttr_linux_def
      getSysProctAttr_darwin_def SIGKILL_def Let_def split: sum.splits if_splits)

text \<open>How the bridge's process ends. It stops with a message exactly when the logger, the settings
  of the environment or the worker fail; it returns when the child has run, whatever the child's
  result; and it panics exactly when the child could not be started, because \<open>Close\<close>, deferred
  before \<open>Start\<close>, waits for a process that does not exist.\<close>

theorem bridge_main_ends:
  "bridge_main os loggerErr osArgs environ getenv newWorker env =
    (if loggerErr \<noteq> None then Fatal ''unable to create logger''
     else case bridge_main_config getenv (fst (NewBridgeConfig osArgs environ)) of
       Inl e \<Rightarrow> Fatal e
     | Inr cfg \<Rightarrow>
         if isl newWorker then Fatal ''unable to create bridge''
         else if se_stdoutPipe env = None \<and> se_stderrPipe env = None \<and> se_start env = None
         then Finished (se_wait env) else Panicked NilDeref)"
  by (cases newWorker)
     (auto simp: bridge_main_def NewBridge_def bridge_Start_def bridge_CloseWait_def bridge_Close_def bridge_waitChild_def
       newBridge_def exec_Command_def split: sum.splits)

end
