(* ===== verification/Reader.thy ===== *)
theory Reader
  imports Handler
begin

text \<open>
  \<open>requestReader\<close> (\<open>cocaine12/utils.go\<close>), which makes an \<open>io.Reader\<close> of a request, and the test
  double of a request (\<open>cocaine12/cocainetest/request.go\<close>). The interface \<open>Request\<close> is the locale
  \<open>chunk_source\<close>: a call of \<open>Read\<close> is None when it would block, and may panic.
\<close>

type_synonym 's reading = "('s \<times> (goerr + slice)) go option"

section \<open>The reader\<close>

record 's requestReader =
  rr_req :: 's
  rr_buffer :: bytes

definition RequestReader :: "'s \<Rightarrow> 's requestReader" where
  "RequestReader req = \<lparr>rr_req = req, rr_buffer = []\<rparr>"

text \<open>\<open>Read(p)\<close> with \<open>len(p) = n\<close>: the bytes put into \<open>p\<close> and the error.\<close>

definition requestReader_Read ::
  "('s \<Rightarrow> 's reading) \<Rightarrow> nat \<Rightarrow> 's requestReader \<Rightarrow> ('s requestReader \<times> bytes \<times> goerr option) go option" where
  "requestReader_Read Read n r =
     (if rr_buffer r \<noteq> []
      then Some (Ret (r\<lparr>rr_buffer := drop n (rr_buffer r)\<rparr>, take n (rr_buffer r), None))
      else map_option (\<lambda>result. go_bind (result) (\<lambda>(req, v).
        case v of
          Inr data \<Rightarrow> Ret (r\<lparr>rr_req := req, rr_buffer := drop n (slice_bytes data)\<rparr>, take n (slice_bytes data), None)
        | Inl err \<Rightarrow> Ret (r\<lparr>rr_req := req\<rparr>, [], Some (if err = ErrStreamIsClosed then EOF else err))))
        (Read (rr_req r)))"

text \<open>Reading with buffers of the given sizes until an error, as \<open>io.ReadAll\<close> and \<open>io.Copy\<close> do.\<close>

fun read_all :: "('s \<Rightarrow> 's reading) \<Rightarrow> nat list \<Rightarrow> 's requestReader \<Rightarrow> (bytes \<times> goerr option) go option" where
  "read_all Read [] r = Some (Ret ([], None))"
| "read_all Read (n # ns) r =
     (case requestReader_Read Read n r of
        None \<Rightarrow> None
      | Some (Panic p) \<Rightarrow> Some (Panic p)
      | Some (Ret (r', bs, Some err)) \<Rightarrow> Some (Ret (bs, Some err))
      | Some (Ret (r', bs, None)) \<Rightarrow>
          map_option (\<lambda>rest. go_bind rest (\<lambda>(cs, err). Ret (bs @ cs, err))) (read_all Read ns r'))"

section \<open>The test double of a request\<close>

record testRequest =
  tq_chunks :: "slice list"

definition newTestRequest :: testRequest where "newTestRequest = \<lparr>tq_chunks = []\<rparr>"

definition testRequest_Write :: "slice \<Rightarrow> testRequest \<Rightarrow> testRequest \<times> nat \<times> goerr option" where
  "testRequest_Write p r = (r\<lparr>tq_chunks := tq_chunks r @ [p]\<rparr>, length (slice_bytes p), None)"

definition testRequest_Read :: "testRequest \<Rightarrow> testRequest reading" where
  "testRequest_Read r =
     (case tq_chunks r of
        [] \<Rightarrow> Some (Ret (r, Inl ErrStreamIsClosed))
      | chunk # rest \<Rightarrow> Some (Ret (r\<lparr>tq_chunks := rest\<rparr>, Inr chunk)))"

section \<open>The worker's request as a source\<close>

text \<open>
  \<open>request.Read\<close> against the request's own loop, for a context that does not end: the loop's
  rendezvous on \<open>toHandler\<close> when something is pending, its closing once it has returned.
\<close>

definition request_source_Read ::
  "(message \<Rightarrow> bool) \<Rightarrow> (gval list \<Rightarrow> goerr + i64 \<times> i64 \<times> string) \<Rightarrow> message request \<Rightarrow> message request reading" where
  "request_source_Read isChunk convertPayload r =
     (if rq_returned r
      then Some (go_bind (request_Read isChunk convertPayload (FromLoop None)) (\<lambda>v. Ret (r, v)))
      else (case rq_pending r of
              [] \<Rightarrow> None
            | m # ms \<Rightarrow> map_option (\<lambda>r'. go_bind (request_Read isChunk convertPayload (FromLoop (Some m))) (\<lambda>v. Ret (r', v)))
                (request_loop r (Pull m))))"

section \<open>The interface\<close>

locale chunk_source =
  fixes Read :: "'s \<Rightarrow> 's reading"
    and chunks :: "'s \<Rightarrow> bytes list"
    and invar :: "'s \<Rightarrow> bool"
  assumes read_chunk: "invar s \<Longrightarrow> chunks s = c # cs \<Longrightarrow>
      \<exists>t d. Read s = Some (Ret (t, Inr d)) \<and> slice_bytes d = c \<and> invar t \<and> chunks t = cs"
    and read_end: "invar s \<Longrightarrow> chunks s = [] \<Longrightarrow> Read s = Some (Ret (s, Inl ErrStreamIsClosed))"
begin

definition rest :: "'s requestReader \<Rightarrow> bytes" where
  "rest r = rr_buffer r @ concat (chunks (rr_req r))"

text \<open>How many reads are still possible at most.\<close>

definition fuel :: "'s requestReader \<Rightarrow> nat" where
  "fuel r = length (rr_buffer r) + sum_list (map (\<lambda>c. Suc (length c)) (chunks (rr_req r)))"

lemma read_step:
  assumes "invar (rr_req r)" and "rr_buffer r \<noteq> [] \<or> chunks (rr_req r) \<noteq> []"
  shows "\<exists>t bs. requestReader_Read Read n r = Some (Ret (t, bs, None)) \<and> invar (rr_req t) \<and>
    rest r = bs @ rest t \<and> length bs \<le> n \<and> (0 < n \<longrightarrow> fuel t < fuel r)"
proof (cases "rr_buffer r = []")
  case True
  with assms(2) obtain c cs where c: "chunks (rr_req r) = c # cs" by (cases "chunks (rr_req r)") auto
  from read_chunk [OF assms(1) c] obtain t d where
    "Read (rr_req r) = Some (Ret (t, Inr d))" "slice_bytes d = c" "invar t" "chunks t = cs" by blast
  with True c show ?thesis by (auto simp: requestReader_Read_def rest_def fuel_def)
next
  case False
  with assms(1) show ?thesis by (cases "rr_buffer r") (auto simp: requestReader_Read_def rest_def fuel_def)
qed

lemma read_eof:
  assumes "invar (rr_req r)" and "rr_buffer r = []" and "chunks (rr_req r) = []"
  shows "requestReader_Read Read n r = Some (Ret (r, [], Some EOF))"
  using read_end [OF assms(1,3)] assms(2) by (simp add: requestReader_Read_def)

lemma read_prefix:
  assumes "invar (rr_req r)"
  shows "\<exists>bs err. read_all Read ns r = Some (Ret (bs, err)) \<and> prefix bs (rest r) \<and>
    (err = None \<or> err = Some EOF \<and> bs = rest r)"
  using assms
proof (induction ns arbitrary: r)
  case Nil
  then show ?case by simp
next
  case (Cons n ns)
  show ?case
  proof (cases "rr_buffer r = [] \<and> chunks (rr_req r) = []")
    case True
    with read_eof [OF Cons.prems, of n] show ?thesis by (simp add: rest_def)
  next
    case False
    with read_step [OF Cons.prems, of n] obtain t bs where t: "requestReader_Read Read n r = Some (Ret (t, bs, None))"
      "invar (rr_req t)" "rest r = bs @ rest t" by blast
    from Cons.IH [OF t(2)] t(1,3) show ?thesis by auto
  qed
qed

lemma read_whole:
  assumes "invar (rr_req r)" and "list_all (\<lambda>n. 0 < n) ns" and "fuel r < length ns"
  shows "read_all Read ns r = Some (Ret (rest r, Some EOF))"
  using assms
proof (induction ns arbitrary: r)
  case Nil
  then show ?case by simp
next
  case (Cons n ns)
  show ?case
  proof (cases "rr_buffer r = [] \<and> chunks (rr_req r) = []")
    case True
    with read_eof [OF Cons.prems(1), of n] show ?thesis by (simp add: rest_def)
  next
    case False
    with read_step [OF Cons.prems(1), of n] Cons.prems(2) obtain t bs where
      t: "requestReader_Read Read n r = Some (Ret (t, bs, None))" "invar (rr_req t)" "rest r = bs @ rest t" "fuel t < fuel r"
      by auto
    with Cons.IH [OF t(2)] Cons.prems(2,3) show ?thesis by simp
  qed
qed

end

interpretation tq: chunk_source testRequest_Read "\<lambda>r. map slice_bytes (tq_chunks r)" "\<lambda>_. True"
  by unfold_locales (auto simp: testRequest_Read_def split: list.splits)

text \<open>A request whose stream has been closed by the worker, and which holds only chunks.\<close>

definition chunk_of :: "message \<Rightarrow> bytes" where
  "chunk_of m = (case Payload m of GBytes d # _ \<Rightarrow> slice_bytes d | _ \<Rightarrow> [])"

definition ended_request :: "u64 \<Rightarrow> message request \<Rightarrow> bool" where
  "ended_request s r \<longleftrightarrow> rq_closed_nil r \<and> (rq_returned r \<longleftrightarrow> rq_pending r = []) \<and> list_all (is_data s) (rq_pending r)"

interpretation rqs: chunk_source "request_source_Read isChunkV1 convertPayload"
  "\<lambda>r. map chunk_of (rq_pending r)" "ended_request s" for convertPayload s
proof
  show "\<exists>u d. request_source_Read isChunkV1 convertPayload r = Some (Ret (u, Inr d)) \<and> slice_bytes d = c \<and>
      ended_request s u \<and> map chunk_of (rq_pending u) = cs"
    if "ended_request s r" "map chunk_of (rq_pending r) = c # cs" for r c cs
    using that
    by (auto simp: ended_request_def request_source_Read_def request_loop_def request_head_def request_Read_def
        is_data_def chunk_of_def v1_messages split: list.splits)
  show "request_source_Read isChunkV1 convertPayload r = Some (Ret (r, Inl ErrStreamIsClosed))"
    if "ended_request s r" "map chunk_of (rq_pending r) = []" for r
    using that by (auto simp: ended_request_def request_source_Read_def request_Read_def)
qed

section \<open>Properties\<close>

text \<open>C37: reading a request as a byte stream gives its chunks, whole and in order, whatever buffers
  the caller reads with. For a session whose worker pushed the chunks \<open>ds\<close> and then closed it, any
  sequence of reads returns a prefix of their concatenation and \<open>EOF\<close> only after all of it; and
  with non-empty buffers, as many as there are bytes and chunks and one more, the whole stream and
  then \<open>EOF\<close> are read, so a reader of the stream always terminates.\<close>

theorem requestReader_stream:
  assumes "run request_loop newRequest (map (Push \<circ> newChunkV1 s) ds @ [CloseRequest, SeeClosed]) = Some r"
  shows "\<exists>bs err. read_all (request_source_Read isChunkV1 convertPayload) ns (RequestReader r) = Some (Ret (bs, err)) \<and>
      prefix bs (concat (map slice_bytes ds)) \<and> (err = None \<or> err = Some EOF \<and> bs = concat (map slice_bytes ds)) \<and>
      (list_all (\<lambda>n. 0 < n) ns \<longrightarrow> length (concat (map slice_bytes ds)) + length ds < length ns \<longrightarrow> err = Some EOF)"
proof -
  have push: "\<not> rq_returned q \<Longrightarrow> \<not> rq_closed_nil q \<Longrightarrow> run request_loop q (map (Push \<circ> newChunkV1 s) xs) =
      Some (q\<lparr>rq_pending := rq_pending q @ map (newChunkV1 s) xs\<rparr>)" for q xs
    by (induction xs arbitrary: q) (simp_all add: request_loop_def request_head_def)
  have r: "r = \<lparr>rq_pending = map (newChunkV1 s) ds, rq_closed_nil = True, rq_closed = True, rq_returned = (ds = [])\<rparr>"
    using assms push [of newRequest ds]
    by (simp add: run_append newRequest_def request_loop_def request_head_def split: if_splits)
  have inv: "ended_request s (rr_req (RequestReader r))"
    by (auto simp: ended_request_def r RequestReader_def is_data_def list_all_iff)
  have chunks: "map chunk_of (rq_pending r) = map slice_bytes ds"
    by (simp add: r chunk_of_def newChunkV1_def)
  have rest: "rqs.rest (RequestReader r) = concat (map slice_bytes ds)"
    by (simp add: rqs.rest_def RequestReader_def chunks)
  have fuel: "rqs.fuel (RequestReader r) = length (concat (map slice_bytes ds)) + length ds"
    unfolding rqs.fuel_def RequestReader_def by (simp add: chunks) (induction ds, auto)
  show ?thesis
    using rqs.read_prefix [OF inv, of convertPayload ns] rqs.read_whole [OF inv, of ns convertPayload] unfolding rest fuel
    by auto
qed

theorem requestReader_stream_witness:
  "\<exists>bs err. read_all (request_source_Read isChunkV1 (\<lambda>_. Inl EOF)) [2, 2, 2, 2, 2, 2, 2]
       (RequestReader \<lparr>rq_pending = [newChunkV1 9 (Some [1, 2, 3]), newChunkV1 9 None], rq_closed_nil = True,
          rq_closed = True, rq_returned = False\<rparr>) = Some (Ret (bs, err)) \<and> bs = [1, 2, 3] \<and> err = Some EOF"
proof -
  have "run request_loop newRequest (map (Push \<circ> newChunkV1 9) [Some [1, 2, 3], None] @ [CloseRequest, SeeClosed]) =
      Some \<lparr>rq_pending = [newChunkV1 9 (Some [1, 2, 3]), newChunkV1 9 None], rq_closed_nil = True,
          rq_closed = True, rq_returned = False\<rparr>"
    by (simp add: newRequest_def request_loop_def request_head_def)
  from requestReader_stream [OF this, of "\<lambda>_. Inl EOF" "[2, 2, 2, 2, 2, 2, 2]"] show ?thesis by auto
qed

end
