(* ===== verification/V11Buf.thy ===== *)
theory V11Buf
  imports Relay
begin

text \<open>
  The buffering goroutines of the v0.11 package: \<open>asyncBuff\<close> (\<open>cocaine/asocket.go\<close>), the loops of
  \<open>Request\<close> and \<open>Response\<close> (\<open>cocaine/worker.go\<close>) and of \<open>getServiceChanPair\<close>
  (\<open>cocaine/service.go\<close>). Each is one more interpretation of the relay contract, so the
  first-in-first-out and drain lemmas hold for all of them.
\<close>

section \<open>\<open>asyncBuff\<close> and \<open>getServiceChanPair\<close>\<close>

text \<open>
  Both loops have the same shape: an input that may be closed, an output closed when the loop
  ends, and a \<open>stop\<close> channel that ends it at once. For \<open>asyncBuff\<close> the channel \<open>stop\<close> is the
  buffer's own; for a channel pair it is the service's.
\<close>

record 'm buf11 =
  b11_pending :: "'m list"
  b11_in_nil :: bool \<comment> \<open>\<open>_in\<close>, respectively \<open>In\<close>, has been set to nil\<close>
  b11_finished :: bool
  b11_in_closed :: bool
  b11_stop_closed :: bool
  b11_returned :: bool \<comment> \<open>the loop has ended and \<open>out\<close> is closed\<close>

definition newAsyncBuf11 :: "'m buf11" where
  "newAsyncBuf11 = \<lparr>b11_pending = [], b11_in_nil = False, b11_finished = False, b11_in_closed = False,
     b11_stop_closed = False, b11_returned = False\<rparr>"

datatype 'm b11event = In11 'm | InClosed11 | Out11 'm | Stop11 | CloseIn11 | CloseStop11

fun buf11_select :: "'m buf11 \<Rightarrow> 'm b11event \<Rightarrow> 'm buf11 option" where
  "buf11_select b (In11 m) =
     (if \<not> b11_in_nil b \<and> \<not> b11_in_closed b then Some (b\<lparr>b11_pending := b11_pending b @ [m]\<rparr>) else None)"
| "buf11_select b InClosed11 =
     (if \<not> b11_in_nil b \<and> b11_in_closed b then Some (b\<lparr>b11_finished := True, b11_in_nil := True\<rparr>) else None)"
| "buf11_select b (Out11 m) =
     (case b11_pending b of
        [] \<Rightarrow> None
      | first # rest \<Rightarrow> if first = m then Some (b\<lparr>b11_pending := rest\<rparr>) else None)"
| "buf11_select b Stop11 = (if b11_stop_closed b then Some (b\<lparr>b11_returned := True\<rparr>) else None)"
| "buf11_select b CloseIn11 = (if b11_in_closed b then None else Some (b\<lparr>b11_in_closed := True\<rparr>))"
| "buf11_select b CloseStop11 = (if b11_stop_closed b then None else Some (b\<lparr>b11_stop_closed := True\<rparr>))"

definition buf11_head :: "'m buf11 \<Rightarrow> 'm buf11" where
  "buf11_head b = (if b11_pending b = [] \<and> b11_finished b then b\<lparr>b11_returned := True\<rparr> else b)"

definition asyncBuff11_loop :: "'m buf11 \<Rightarrow> 'm b11event \<Rightarrow> 'm buf11 option" where
  "asyncBuff11_loop b e = (if b11_returned b then None else map_option buf11_head (buf11_select b e))"

definition getServiceChanPair :: "'m buf11 \<Rightarrow> 'm b11event \<Rightarrow> 'm buf11 option" where
  "getServiceChanPair b e = asyncBuff11_loop b e"

definition asyncBuff11_Stop :: "'m buf11 \<Rightarrow> 'm buf11 go" where
  "asyncBuff11_Stop b = (if b11_stop_closed b then Panic CloseOfClosed else Ret (b\<lparr>b11_stop_closed := True\<rparr>))"

fun b11_recv :: "'m b11event \<Rightarrow> 'm list" where
  "b11_recv (In11 m) = [m]"
| "b11_recv _ = []"

fun b11_sent :: "'m b11event \<Rightarrow> 'm list" where
  "b11_sent (Out11 m) = [m]"
| "b11_sent _ = []"

lemma buf11_head_simps [simp]:
  "b11_pending (buf11_head b) = b11_pending b" "b11_finished (buf11_head b) = b11_finished b"
  "b11_returned (buf11_head b) \<longleftrightarrow> b11_returned b \<or> b11_pending b = [] \<and> b11_finished b"
  by (auto simp: buf11_head_def)

lemma asyncBuff11_loop_Some [loop_simps]:
  "asyncBuff11_loop b e = Some c \<longleftrightarrow>
     \<not> b11_returned b \<and> (\<exists>d. buf11_select b e = Some d \<and> c = buf11_head d)"
  by (auto simp: asyncBuff11_loop_def)

interpretation b11: draining_relay asyncBuff11_loop b11_pending b11_recv b11_sent b11_returned
  "\<lambda>e. e = Stop11" Out11 b11_finished
proof unfold_locales
  show "b11_pending s @ b11_recv e = b11_sent e @ b11_pending t" if "asyncBuff11_loop s e = Some t"
    for s t :: "'a buf11" and e
    using that by (cases e) (auto simp: loop_simps split: if_splits list.splits)
  show "asyncBuff11_loop s e = None" if "b11_returned s" for s :: "'a buf11" and e
    using that by (simp add: asyncBuff11_loop_def)
  show "b11_pending t = []" if "asyncBuff11_loop s e = Some t" "b11_returned t" "e \<noteq> Stop11"
    for s t :: "'a buf11" and e
    using that by (cases e) (auto simp: loop_simps split: if_splits list.splits)
  show "\<exists>t. asyncBuff11_loop s (Out11 m) = Some t \<and> b11_pending t = ms \<and> b11_finished t = b11_finished s
      \<and> (b11_returned t \<longleftrightarrow> b11_finished s \<and> ms = [])"
    if "\<not> b11_returned s" "b11_pending s = m # ms" for s :: "'a buf11" and m ms
    using that by (auto simp: loop_simps)
qed

section \<open>\<open>Request\<close> and \<open>Response\<close>\<close>

text \<open>
  The loops of \<open>newRequest\<close> and \<open>newResponse\<close>: a send on \<open>quit\<close> makes the loop end once its queue
  is empty. The output is never closed. Both loops differ only in their channels' types.
\<close>

record 'm req11 =
  r11_pending :: "'m list"
  r11_quit :: bool
  r11_returned :: bool

definition newRequest11 :: "'m req11" where
  "newRequest11 = \<lparr>r11_pending = [], r11_quit = False, r11_returned = False\<rparr>"

datatype 'm r11event = Push11 'm | Pull11 'm | Quit11

fun req11_select :: "'m req11 \<Rightarrow> 'm r11event \<Rightarrow> 'm req11 option" where
  "req11_select r (Push11 m) = Some (r\<lparr>r11_pending := r11_pending r @ [m]\<rparr>)"
| "req11_select r (Pull11 m) =
     (case r11_pending r of
        [] \<Rightarrow> None
      | first # rest \<Rightarrow> if first = m then Some (r\<lparr>r11_pending := rest\<rparr>) else None)"
| "req11_select r Quit11 = Some (r\<lparr>r11_quit := True\<rparr>)"

definition req11_head :: "'m req11 \<Rightarrow> 'm req11" where
  "req11_head r = (if r11_pending r = [] \<and> r11_quit r then r\<lparr>r11_returned := True\<rparr> else r)"

definition request11_loop :: "'m req11 \<Rightarrow> 'm r11event \<Rightarrow> 'm req11 option" where
  "request11_loop r e = (if r11_returned r then None else map_option req11_head (req11_select r e))"

definition response11_loop :: "'m req11 \<Rightarrow> 'm r11event \<Rightarrow> 'm req11 option" where
  "response11_loop r e = request11_loop r e"

fun r11_recv :: "'m r11event \<Rightarrow> 'm list" where
  "r11_recv (Push11 m) = [m]"
| "r11_recv _ = []"

fun r11_sent :: "'m r11event \<Rightarrow> 'm list" where
  "r11_sent (Pull11 m) = [m]"
| "r11_sent _ = []"

lemma req11_head_simps [simp]:
  "r11_pending (req11_head r) = r11_pending r" "r11_quit (req11_head r) = r11_quit r"
  "r11_returned (req11_head r) \<longleftrightarrow> r11_returned r \<or> r11_pending r = [] \<and> r11_quit r"
  by (auto simp: req11_head_def)

lemma request11_loop_Some [loop_simps]:
  "request11_loop r e = Some t \<longleftrightarrow>
     \<not> r11_returned r \<and> (\<exists>d. req11_select r e = Some d \<and> t = req11_head d)"
  by (auto simp: request11_loop_def)

interpretation r11: draining_relay request11_loop r11_pending r11_recv r11_sent r11_returned
  "\<lambda>_. False" Pull11 r11_quit
proof unfold_locales
  show "r11_pending s @ r11_recv e = r11_sent e @ r11_pending t" if "request11_loop s e = Some t"
    for s t :: "'a req11" and e
    using that by (cases e) (auto simp: loop_simps split: if_splits list.splits)
  show "request11_loop s e = None" if "r11_returned s" for s :: "'a req11" and e
    using that by (simp add: request11_loop_def)
  show "r11_pending t = []" if "request11_loop s e = Some t" "r11_returned t"
    for s t :: "'a req11" and e
    using that by (cases e) (auto simp: loop_simps split: if_splits list.splits)
  show "\<exists>t. request11_loop s (Pull11 m) = Some t \<and> r11_pending t = ms \<and> r11_quit t = r11_quit s
      \<and> (r11_returned t \<longleftrightarrow> r11_quit s \<and> ms = [])"
    if "\<not> r11_returned s" "r11_pending s = m # ms" for s :: "'a req11" and m ms
    using that by (auto simp: loop_simps)
qed

section \<open>Lemmas\<close>

text \<open>Once the loop has returned, every send to it blocks for ever.\<close>

lemma returned_blocks: "r11_returned r \<Longrightarrow> request11_loop r e = None"
  by (rule r11.returned_stuck)

text \<open>A loop whose queue is empty returns as soon as \<open>quit\<close> is received.\<close>

lemma quit_returns:
  "\<not> r11_returned r \<Longrightarrow> r11_pending r = [] \<Longrightarrow>
     \<exists>t. request11_loop r Quit11 = Some t \<and> r11_returned t"
  by (simp add: request11_loop_def)

end
