(* ===== verification/V11Message.thy ===== *)
theory V11Message
  imports Prelude
begin

text \<open>
  Messages of the v0.11 protocol (\<open>cocaine/message.go\<close>): their types, the payload each packs, the
  unpackers, and the stream unpacker that cuts a byte stream into messages. The UUID type and
  its text form belong to a third-party package and the msgpack codec to another: both are
  parameters.
\<close>

section \<open>Messages\<close>

datatype 'u msg11 =
    Handshake11 (session11: i64) 'u
  | Heartbeat11 (session11: i64)
  | Terminate11 (session11: i64) string string
  | Invoke11 (session11: i64) string
  | Chunk11 (session11: i64) slice
  | Error11 (session11: i64) i64 string
  | Choke11 (session11: i64)

definition HANDSHAKE :: i64 where "HANDSHAKE = 0"
definition HEARTBEAT :: i64 where "HEARTBEAT = 1"
definition TERMINATE :: i64 where "TERMINATE = 2"
definition INVOKE :: i64 where "INVOKE = 3"
definition CHUNK :: i64 where "CHUNK = 4"
definition ERROR :: i64 where "ERROR = 5"
definition CHOKE :: i64 where "CHOKE = 6"

lemmas type_ids = HANDSHAKE_def HEARTBEAT_def TERMINATE_def INVOKE_def CHUNK_def ERROR_def CHOKE_def

fun getTypeID :: "'u msg11 \<Rightarrow> i64" where
  "getTypeID (Handshake11 s u) = HANDSHAKE"
| "getTypeID (Heartbeat11 s) = HEARTBEAT"
| "getTypeID (Terminate11 s r m) = TERMINATE"
| "getTypeID (Invoke11 s e) = INVOKE"
| "getTypeID (Chunk11 s d) = CHUNK"
| "getTypeID (Error11 s c m) = ERROR"
| "getTypeID (Choke11 s) = CHOKE"

text \<open>The method \<open>getPayload\<close> of each message type, and the call through the interface.\<close>

definition handshake_getPayload :: "('u \<Rightarrow> string) \<Rightarrow> 'u \<Rightarrow> gval list" where [simp]: "handshake_getPayload uuidString u = [GString (uuidString u)]"
definition heartbeat_getPayload :: "gval list" where [simp]: "heartbeat_getPayload = []"
definition terminate_getPayload :: "string \<Rightarrow> string \<Rightarrow> gval list" where [simp]: "terminate_getPayload reason msg = [GString reason, GString msg]"
definition invoke_getPayload :: "string \<Rightarrow> gval list" where [simp]: "invoke_getPayload event = [GString event]"
definition chunk_getPayload :: "slice \<Rightarrow> gval list" where [simp]: "chunk_getPayload d = [GBytes d]"
definition errorMsg_getPayload :: "i64 \<Rightarrow> string \<Rightarrow> gval list" where [simp]: "errorMsg_getPayload code msg = [GInt code, GString msg]"
definition choke_getPayload :: "gval list" where [simp]: "choke_getPayload = []"

fun getPayload :: "('u \<Rightarrow> string) \<Rightarrow> 'u msg11 \<Rightarrow> gval list" where
  "getPayload uuidString (Handshake11 s u) = handshake_getPayload uuidString u"
| "getPayload uuidString (Heartbeat11 s) = heartbeat_getPayload"
| "getPayload uuidString (Terminate11 s reason text) = terminate_getPayload reason text"
| "getPayload uuidString (Invoke11 s event) = invoke_getPayload event"
| "getPayload uuidString (Chunk11 s d) = chunk_getPayload d"
| "getPayload uuidString (Error11 s code text) = errorMsg_getPayload code text"
| "getPayload uuidString (Choke11 s) = choke_getPayload"

text \<open>What \<open>packMsg\<close> hands to the encoder.\<close>

definition packMsg :: "('u \<Rightarrow> string) \<Rightarrow> 'u msg11 \<Rightarrow> gval list" where
  "packMsg uuidString msg = [GInt64 (getTypeID msg), GInt64 (session11 msg), GSlice (getPayload uuidString msg)]"

section \<open>Unpackers\<close>

text \<open>\<open>data[i]\<close>, which panics out of range, and \<open>if x, ok := data[i].([]byte)\<close>.\<close>

definition data_index :: "gval list \<Rightarrow> nat \<Rightarrow> gval go" where
  "data_index data i = (if i < length data then Ret (data ! i) else Panic IndexOutOfRange)"

fun bytes_string :: "gval \<Rightarrow> string" where
  "bytes_string (GBytes b) = string_of_bytes (slice_bytes b)"
| "bytes_string _ = []"

definition unpackHandshake :: "'u \<Rightarrow> (string \<Rightarrow> goerr + 'u) \<Rightarrow> i64 \<Rightarrow> gval list \<Rightarrow> (goerr + 'u msg11) go" where
  "unpackHandshake zero FromString session data =
     go_bind (data_index data 0) (\<lambda>d.
       case d of
         GBytes b \<Rightarrow>
           (case FromString (string_of_bytes (slice_bytes b)) of
              Inl err \<Rightarrow> Ret (Inl err)
            | Inr u \<Rightarrow> Ret (Inr (Handshake11 session u)))
       | _ \<Rightarrow> Ret (Inr (Handshake11 session zero)))"

definition unpackHeartbeat :: "i64 \<Rightarrow> gval list \<Rightarrow> (goerr + 'u msg11) go" where
  "unpackHeartbeat session data = Ret (Inr (Heartbeat11 session))"

definition unpackTerminate :: "i64 \<Rightarrow> gval list \<Rightarrow> (goerr + 'u msg11) go" where
  "unpackTerminate session data =
     go_bind (data_index data 0) (\<lambda>r. go_bind (data_index data 1) (\<lambda>m.
       Ret (Inr (Terminate11 session (bytes_string r) (bytes_string m)))))"

definition unpackInvoke :: "i64 \<Rightarrow> gval list \<Rightarrow> (goerr + 'u msg11) go" where
  "unpackInvoke session data =
     go_bind (data_index data 0) (\<lambda>e. Ret (Inr (Invoke11 session (bytes_string e))))"

definition unpackChunk :: "i64 \<Rightarrow> gval list \<Rightarrow> (goerr + 'u msg11) go" where
  "unpackChunk session data =
     go_bind (data_index data 0) (\<lambda>d.
       case d of GBytes b \<Rightarrow> Ret (Inr (Chunk11 session b)) | _ \<Rightarrow> Panic TypeAssertion)"

definition unpackErrorMsg :: "i64 \<Rightarrow> gval list \<Rightarrow> (goerr + 'u msg11) go" where
  "unpackErrorMsg session data =
     go_bind (data_index data 0) (\<lambda>c. go_bind (data_index data 1) (\<lambda>m.
       Ret (Inr (Error11 session
         (case c of GUint64 n \<Rightarrow> n | GInt64 n \<Rightarrow> n | _ \<Rightarrow> 0)
         (case m of GBytes b \<Rightarrow> string_of_bytes (slice_bytes b) | GString t \<Rightarrow> t | _ \<Rightarrow> [])))))"

definition unpackChoke :: "i64 \<Rightarrow> gval list \<Rightarrow> (goerr + 'u msg11) go" where
  "unpackChoke session data = Ret (Inr (Choke11 session))"

definition unpackers :: "'u \<Rightarrow> (string \<Rightarrow> goerr + 'u) \<Rightarrow> i64 \<Rightarrow> (i64 \<Rightarrow> gval list \<Rightarrow> (goerr + 'u msg11) go) option" where
  "unpackers zero FromString t =
     (if t = HANDSHAKE then Some (unpackHandshake zero FromString)
      else if t = HEARTBEAT then Some unpackHeartbeat
      else if t = TERMINATE then Some unpackTerminate
      else if t = INVOKE then Some unpackInvoke
      else if t = CHUNK then Some unpackChunk
      else if t = ERROR then Some unpackErrorMsg
      else if t = CHOKE then Some unpackChoke
      else None)"

text \<open>
  \<open>unpackMessage\<close>: an unknown type sets \<open>err\<close> and goes on to call the missing (nil) unpacker.
\<close>

definition unpackMessage :: "'u \<Rightarrow> (string \<Rightarrow> goerr + 'u) \<Rightarrow> gval list \<Rightarrow> (goerr + 'u msg11) go" where
  "unpackMessage zero FromString input =
     go_bind (data_index input 1) (\<lambda>i1.
       let session = (case i1 of GUint64 n \<Rightarrow> n | GInt64 n \<Rightarrow> n | _ \<Rightarrow> 0) in
       go_bind (data_index input 0) (\<lambda>i0.
         case i0 of
           GInt64 t \<Rightarrow>
             go_bind (data_index input 2) (\<lambda>i2.
               case i2 of
                 GSlice data \<Rightarrow>
                   (case unpackers zero FromString t of
                      Some unpacker \<Rightarrow> unpacker session data
                    | None \<Rightarrow> Panic NilDeref)
               | _ \<Rightarrow> Panic TypeAssertion)
         | _ \<Rightarrow> Panic TypeAssertion))"

lemmas unpack_defs = unpackHandshake_def unpackHeartbeat_def unpackTerminate_def unpackInvoke_def
  unpackChunk_def unpackErrorMsg_def unpackChoke_def data_index_def

section \<open>The stream unpacker\<close>

text \<open>
  \<open>Feed\<close> appends the data to its buffer and decodes values from it until the decoder fails,
  which it also does when the buffer holds an incomplete value. \<open>decode\<close> gives an error, or a
  decoded array and the bytes it has not read. The buffer is cut after each good message only.
  None: the loop does not end.
\<close>

partial_function (option) feed_loop ::
  "(bytes \<Rightarrow> goerr + gval list \<times> bytes) \<Rightarrow> (gval list \<Rightarrow> (goerr + 'm) go) \<Rightarrow> bytes \<Rightarrow> bytes \<Rightarrow> 'm list
     \<Rightarrow> (bytes \<times> 'm list) go option" where
  "feed_loop decode unpack buf tmp msgs =
     (case decode tmp of
        Inl err \<Rightarrow> Some (Ret (buf, msgs))
      | Inr (res, rest) \<Rightarrow>
          (case unpack res of
             Panic p \<Rightarrow> Some (Panic p)
           | Ret (Inl err) \<Rightarrow> feed_loop decode unpack buf rest msgs
           | Ret (Inr msg) \<Rightarrow>
               feed_loop decode unpack (drop (length buf - length rest) buf) rest (msgs @ [msg])))"

definition Feed :: "(bytes \<Rightarrow> goerr + gval list \<times> bytes) \<Rightarrow> (gval list \<Rightarrow> (goerr + 'm) go) \<Rightarrow> bytes \<Rightarrow> bytes
    \<Rightarrow> (bytes \<times> 'm list) go option" where
  "Feed decode unpack buf data = feed_loop decode unpack (buf @ data) (buf @ data) []"

text \<open>Feeding one piece of data after another.\<close>

fun Feeds :: "(bytes \<Rightarrow> goerr + gval list \<times> bytes) \<Rightarrow> (gval list \<Rightarrow> (goerr + 'm) go) \<Rightarrow> bytes \<Rightarrow> bytes list
    \<Rightarrow> (bytes \<times> 'm list) go option" where
  "Feeds decode unpack buf [] = Some (Ret (buf, []))"
| "Feeds decode unpack buf (c # cs) =
     (case Feed decode unpack buf c of
        None \<Rightarrow> None
      | Some (Panic p) \<Rightarrow> Some (Panic p)
      | Some (Ret (buf', msgs)) \<Rightarrow>
          (case Feeds decode unpack buf' cs of
             None \<Rightarrow> None
           | Some (Panic p) \<Rightarrow> Some (Panic p)
           | Some (Ret (buf'', msgs')) \<Rightarrow> Some (Ret (buf'', msgs @ msgs'))))"

section \<open>Decoding a buffer\<close>

inductive decodes :: "(bytes \<Rightarrow> goerr + gval list \<times> bytes) \<Rightarrow> bytes \<Rightarrow> gval list list \<Rightarrow> bytes \<Rightarrow> bool"
  for decode where
  decodes_Nil: "decodes decode bs [] bs"
| decodes_Cons: "decode bs = Inr (v, r) \<Longrightarrow> decodes decode r vs s \<Longrightarrow> decodes decode bs (v # vs) s"

inductive_simps decodes_Nil_iff [simp]: "decodes decode bs [] r"
inductive_simps decodes_Cons_iff [simp]: "decodes decode bs (v # vs) r"

definition unpacked_all :: "(gval list \<Rightarrow> (goerr + 'm) go) \<Rightarrow> gval list list \<Rightarrow> bool" where
  "unpacked_all unpack vs \<longleftrightarrow> (\<forall>v \<in> set vs. \<exists>x. unpack v = Ret x)"

definition good :: "(gval list \<Rightarrow> (goerr + 'm) go) \<Rightarrow> gval list list \<Rightarrow> 'm list" where
  "good unpack vs = List.map_filter (\<lambda>v. case unpack v of Ret (Inr m) \<Rightarrow> Some m | _ \<Rightarrow> None) vs"

lemma good_simps [simp]:
  "good unpack [] = []"
  "good unpack (v # vs) = (case unpack v of Ret (Inr m) \<Rightarrow> m # good unpack vs | _ \<Rightarrow> good unpack vs)"
  "good unpack (us @ vs) = good unpack us @ good unpack vs"
  by (auto simp: good_def map_filter_simps map_filter_append split: go.splits sum.splits)

lemma decodes_append:
  "decodes decode bs us r \<Longrightarrow> decodes decode r vs s \<Longrightarrow> decodes decode bs (us @ vs) s"
  by (induction us arbitrary: bs) auto

text \<open>What the code relies on of the decoder: it reads a value from the front and never looks
  beyond it.\<close>

definition prefix_decoder :: "(bytes \<Rightarrow> goerr + gval list \<times> bytes) \<Rightarrow> bool" where
  "prefix_decoder decode \<longleftrightarrow>
     (\<forall>bs v r. decode bs = Inr (v, r) \<longrightarrow> (\<exists>front. front \<noteq> [] \<and> bs = front @ r)) \<and>
     (\<forall>bs v r xs. decode bs = Inr (v, r) \<longrightarrow> decode (bs @ xs) = Inr (v, r @ xs))"

lemma prefix_decoder_front:
  "prefix_decoder decode \<Longrightarrow> decode bs = Inr (v, r) \<Longrightarrow> \<exists>front. front \<noteq> [] \<and> bs = front @ r"
  unfolding prefix_decoder_def by blast

lemma prefix_decoder_extend:
  "prefix_decoder decode \<Longrightarrow> decode bs = Inr (v, r) \<Longrightarrow> decode (bs @ xs) = Inr (v, r @ xs)"
  unfolding prefix_decoder_def by blast

lemma decodes_extend:
  assumes "prefix_decoder decode"
  shows "decodes decode bs vs r \<Longrightarrow> decodes decode (bs @ xs) vs (r @ xs)"
  using assms by (induction vs arbitrary: bs) (auto simp: prefix_decoder_def)

lemma decodes_suffix:
  assumes "prefix_decoder decode"
  shows "decodes decode bs vs r \<Longrightarrow> \<exists>front. bs = front @ r"
proof (induction vs arbitrary: bs)
  case (Cons v vs)
  then obtain s where s: "decode bs = Inr (v, s)" "decodes decode s vs r" by auto
  with prefix_decoder_front [OF assms] obtain f where "bs = f @ s" by blast
  with Cons.IH [OF s(2)] show ?case by auto
qed simp

text \<open>A buffer splits into complete values and a rest the decoder fails on.\<close>

lemma decodes_total:
  assumes "prefix_decoder decode"
  shows "\<exists>vs r err. decodes decode bs vs r \<and> decode r = Inl err"
proof (induction "length bs" arbitrary: bs rule: less_induct)
  case less
  show ?case
  proof (cases "decode bs")
    case (Inl err)
    then show ?thesis by (intro exI [of _ "[]"] exI [of _ bs]) auto
  next
    case (Inr x)
    obtain v r where x: "x = (v, r)" by (cases x)
    with Inr prefix_decoder_front [OF assms] obtain f where "f \<noteq> []" "bs = f @ r" by blast
    then have "length r < length bs" by simp
    from less [OF this] obtain vs s err where "decodes decode r vs s" "decode s = Inl err" by blast
    with Inr x show ?thesis by (intro exI [of _ "v # vs"]) auto
  qed
qed

section \<open>Feeding\<close>

text \<open>Between \<open>b\<close> and its suffix \<open>tmp\<close> lie only messages that failed to unpack.\<close>

definition only_bad :: "(bytes \<Rightarrow> goerr + gval list \<times> bytes) \<Rightarrow> (gval list \<Rightarrow> (goerr + 'm) go) \<Rightarrow> bytes \<Rightarrow> bytes \<Rightarrow> bool" where
  "only_bad decode unpack b tmp \<longleftrightarrow>
     (\<exists>us. decodes decode b us tmp \<and> unpacked_all unpack us \<and> good unpack us = [])"

text \<open>A buffer \<open>Feed\<close> leaves behind: such messages, then a rest the decoder fails on.\<close>

definition quiet :: "(bytes \<Rightarrow> goerr + gval list \<times> bytes) \<Rightarrow> (gval list \<Rightarrow> (goerr + 'm) go) \<Rightarrow> bytes \<Rightarrow> bool" where
  "quiet decode unpack b \<longleftrightarrow> (\<exists>rest err. only_bad decode unpack b rest \<and> decode rest = Inl err)"

lemma only_bad_refl: "only_bad decode unpack b b"
  unfolding only_bad_def by (rule exI [of _ "[]"]) (simp add: unpacked_all_def)

lemma only_bad_snoc:
  assumes "only_bad decode unpack b tmp" and "decode tmp = Inr (v, r)" and "unpack v = Ret (Inl e)"
  shows "only_bad decode unpack b r"
proof -
  obtain us where "decodes decode b us tmp" "unpacked_all unpack us" "good unpack us = []"
    using assms(1) by (auto simp: only_bad_def)
  with assms(2,3) show ?thesis
    by (auto simp: only_bad_def unpacked_all_def intro!: exI [of _ "us @ [v]"] decodes_append)
qed

lemma feed_loop_values:
  assumes "prefix_decoder decode"
  shows "decodes decode tmp vs rest \<Longrightarrow> unpacked_all unpack vs \<Longrightarrow> only_bad decode unpack buf tmp \<Longrightarrow>
    \<exists>buf'. only_bad decode unpack buf' rest \<and>
      (\<forall>xs msgs. feed_loop decode unpack (buf @ xs) (tmp @ xs) msgs =
         feed_loop decode unpack (buf' @ xs) (rest @ xs) (msgs @ good unpack vs))"
proof (induction vs arbitrary: buf tmp)
  case Nil
  then show ?case by auto
next
  case (Cons v vs)
  obtain r where r: "decode tmp = Inr (v, r)" "decodes decode r vs rest" using Cons.prems(1) by auto
  have ext: "decode (tmp @ xs) = Inr (v, r @ xs)" for xs by (rule prefix_decoder_extend [OF assms r(1)])
  have all: "unpacked_all unpack vs" using Cons.prems(2) by (simp add: unpacked_all_def)
  from Cons.prems(2) obtain x where x: "unpack v = Ret x" by (auto simp: unpacked_all_def)
  show ?case
  proof (cases x)
    case (Inl e)
    have "only_bad decode unpack buf r" using only_bad_snoc [OF Cons.prems(3) r(1)] x Inl by simp
    from Cons.IH [OF r(2) all this] show ?thesis
      using x Inl ext by (subst feed_loop.simps) simp
  next
    case (Inr m)
    obtain us where us: "decodes decode buf us tmp" using Cons.prems(3) unfolding only_bad_def by blast
    obtain f where f: "buf = f @ r"
      using decodes_suffix [OF assms us] prefix_decoder_front [OF assms r(1)] by auto
    have cut: "drop (length (buf @ xs) - length (r @ xs)) (buf @ xs) = r @ xs" for xs
      by (simp add: f)
    from Cons.IH [OF r(2) all only_bad_refl] obtain b where b: "only_bad decode unpack b rest"
      and eq: "\<And>xs msgs. feed_loop decode unpack (r @ xs) (r @ xs) msgs =
         feed_loop decode unpack (b @ xs) (rest @ xs) (msgs @ good unpack vs)"
      by blast
    have "feed_loop decode unpack (buf @ xs) (tmp @ xs) msgs =
        feed_loop decode unpack (b @ xs) (rest @ xs) (msgs @ good unpack (v # vs))" for xs msgs
      using x Inr ext [of xs] cut [of xs] eq [of xs "msgs @ [m]"] by (subst feed_loop.simps) simp
    with b show ?thesis by blast
  qed
qed

lemma feed_loop_panics:
  assumes "prefix_decoder decode"
  shows "decodes decode tmp vs rest \<Longrightarrow> \<not> unpacked_all unpack vs \<Longrightarrow>
    \<exists>p. \<forall>buf xs msgs. feed_loop decode unpack buf (tmp @ xs) msgs = Some (Panic p)"
proof (induction vs arbitrary: tmp)
  case Nil
  then show ?case by (simp add: unpacked_all_def)
next
  case (Cons v vs)
  obtain r where r: "decode tmp = Inr (v, r)" "decodes decode r vs rest" using Cons.prems(1) by auto
  have ext: "decode (tmp @ xs) = Inr (v, r @ xs)" for xs by (rule prefix_decoder_extend [OF assms r(1)])
  show ?case
  proof (cases "unpack v")
    case (Panic p)
    then show ?thesis using ext by (intro exI [of _ p]) (subst feed_loop.simps, simp)
  next
    case (Ret x)
    then have "\<not> unpacked_all unpack vs" using Cons.prems(2) by (simp add: unpacked_all_def)
    from Cons.IH [OF r(2) this] show ?thesis
      using Ret ext by (subst feed_loop.simps) (auto split: sum.splits)
  qed
qed

lemma feed_loop_skip:
  assumes "prefix_decoder decode" and "only_bad decode unpack b rest"
  shows "feed_loop decode unpack buf (b @ xs) msgs = feed_loop decode unpack buf (rest @ xs) msgs"
proof -
  have "decodes decode b us rest \<Longrightarrow> unpacked_all unpack us \<Longrightarrow> good unpack us = [] \<Longrightarrow> ?thesis" for us
  proof (induction us arbitrary: b)
    case (Cons u us)
    obtain r where r: "decode b = Inr (u, r)" "decodes decode r us rest" using Cons.prems(1) by auto
    obtain e where e: "unpack u = Ret (Inl e)" "good unpack us = []" "unpacked_all unpack us"
      using Cons.prems(2,3) by (auto simp: unpacked_all_def split: sum.splits)
    from Cons.IH [OF r(2) e(3,2)] show ?case
      using prefix_decoder_extend [OF assms(1) r(1), of xs] e(1) by (subst feed_loop.simps) simp
  qed simp
  with assms(2) show ?thesis by (auto simp: only_bad_def)
qed

text \<open>Two pieces of data, one after the other or at once.\<close>

definition then_feed :: "(bytes \<times> 'm list) go option \<Rightarrow> (bytes \<Rightarrow> (bytes \<times> 'm list) go option) \<Rightarrow> (bytes \<times> 'm list) go option" where
  "then_feed r f =
     (case r of None \<Rightarrow> None | Some (Panic p) \<Rightarrow> Some (Panic p)
      | Some (Ret (b, ms)) \<Rightarrow> (case f b of None \<Rightarrow> None | Some (Panic p) \<Rightarrow> Some (Panic p)
          | Some (Ret (b', ms')) \<Rightarrow> Some (Ret (b', ms @ ms'))))"

lemma feed_loop_acc:
  assumes "prefix_decoder decode" and "only_bad decode unpack buf tmp"
  shows "feed_loop decode unpack buf tmp msgs = then_feed (Some (Ret ([], msgs))) (\<lambda>_. feed_loop decode unpack buf tmp [])"
proof -
  obtain vs rest err where v: "decodes decode tmp vs rest" "decode rest = Inl err"
    using decodes_total [OF assms(1)] by blast
  show ?thesis
  proof (cases "unpacked_all unpack vs")
    case True
    obtain buf' where "\<forall>xs msgs. feed_loop decode unpack (buf @ xs) (tmp @ xs) msgs =
         feed_loop decode unpack (buf' @ xs) (rest @ xs) (msgs @ good unpack vs)"
      using feed_loop_values [OF assms(1) v(1) True assms(2)] by blast
    from spec [OF this, of "[]"] have "feed_loop decode unpack buf tmp ms = Some (Ret (buf', ms @ good unpack vs))" for ms
      using v(2) by (simp add: feed_loop.simps [of _ _ _ rest])
    then show ?thesis by (simp add: then_feed_def)
  next
    case False
    from feed_loop_panics [OF assms(1) v(1) False] obtain p
      where "\<forall>buf xs msgs. feed_loop decode unpack buf (tmp @ xs) msgs = Some (Panic p)" by blast
    then have "feed_loop decode unpack b tmp ms = Some (Panic p)" for b ms by (metis append_Nil2)
    then show ?thesis by (simp add: then_feed_def)
  qed
qed

lemma Feed_split:
  assumes "prefix_decoder decode"
  shows "Feed decode unpack b (c @ d) = then_feed (Feed decode unpack b c) (\<lambda>b'. Feed decode unpack b' d)"
    and "Feed decode unpack b c = Some (Ret (b', ms)) \<Longrightarrow> quiet decode unpack b'"
proof -
  obtain vs rest err where v: "decodes decode (b @ c) vs rest" "decode rest = Inl err"
    using decodes_total [OF assms] by blast
  have "Feed decode unpack b (c @ d) = then_feed (Feed decode unpack b c) (\<lambda>b'. Feed decode unpack b' d) \<and>
    (\<forall>b' ms. Feed decode unpack b c = Some (Ret (b', ms)) \<longrightarrow> quiet decode unpack b')"
  proof (cases "unpacked_all unpack vs")
    case True
    obtain b1 where b1: "only_bad decode unpack b1 rest"
      and eq: "\<And>xs msgs. feed_loop decode unpack ((b @ c) @ xs) ((b @ c) @ xs) msgs =
         feed_loop decode unpack (b1 @ xs) (rest @ xs) (msgs @ good unpack vs)"
      using feed_loop_values [OF assms v(1) True only_bad_refl] by blast
    have c: "Feed decode unpack b c = Some (Ret (b1, good unpack vs))"
      using eq [of "[]" "[]"] v(2) by (simp add: Feed_def feed_loop.simps [of _ _ _ rest])
    have bad: "only_bad decode unpack (b1 @ d) (rest @ d)"
      using b1 decodes_extend [OF assms] unfolding only_bad_def by blast
    have "Feed decode unpack b (c @ d) = feed_loop decode unpack (b1 @ d) (rest @ d) (good unpack vs)"
      using eq [of d "[]"] by (simp add: Feed_def)
    also have "\<dots> = then_feed (Some (Ret ([], good unpack vs))) (\<lambda>_. feed_loop decode unpack (b1 @ d) (rest @ d) [])"
      by (rule feed_loop_acc [OF assms bad])
    also have "feed_loop decode unpack (b1 @ d) (rest @ d) [] = Feed decode unpack b1 d"
      using feed_loop_skip [OF assms b1] by (simp add: Feed_def)
    finally show ?thesis using c b1 v(2) by (auto simp: then_feed_def quiet_def)
  next
    case False
    from feed_loop_panics [OF assms v(1) False] obtain p
      where p: "\<And>buf xs msgs. feed_loop decode unpack buf ((b @ c) @ xs) msgs = Some (Panic p)" by blast
    from p [of "b @ c @ d" d "[]"] p [of "b @ c" "[]" "[]"] show ?thesis
      by (simp add: Feed_def then_feed_def)
  qed
  then show "Feed decode unpack b (c @ d) = then_feed (Feed decode unpack b c) (\<lambda>b'. Feed decode unpack b' d)"
    and "Feed decode unpack b c = Some (Ret (b', ms)) \<Longrightarrow> quiet decode unpack b'" by blast+
qed

lemma Feed_quiet:
  assumes "prefix_decoder decode" and "quiet decode unpack b"
  shows "Feed decode unpack b [] = Some (Ret (b, []))"
proof -
  obtain rest err where rest: "only_bad decode unpack b rest" "decode rest = Inl err"
    using assms(2) by (auto simp: quiet_def)
  from feed_loop_skip [OF assms(1) rest(1), of b "[]" "[]"] rest(2) show ?thesis
    by (simp add: Feed_def feed_loop.simps [of _ _ _ rest])
qed

lemma Feeds_concat:
  assumes "prefix_decoder decode"
  shows "quiet decode unpack b \<Longrightarrow> Feeds decode unpack b cs = Feed decode unpack b (concat cs)"
proof (induction cs arbitrary: b)
  case Nil
  from Feed_quiet [OF assms Nil] show ?case by simp
next
  case (Cons c cs)
  have "Feeds decode unpack b (c # cs) =
      then_feed (Feed decode unpack b c) (\<lambda>b'. Feeds decode unpack b' cs)"
    by (simp add: then_feed_def split: option.splits go.splits)
  also have "\<dots> = then_feed (Feed decode unpack b c) (\<lambda>b'. Feed decode unpack b' (concat cs))"
    using Feed_split(2) [OF assms, of unpack b c] Cons.IH
    by (auto simp: then_feed_def split: option.splits go.splits)
  finally show ?case by (simp add: Feed_split(1) [OF assms])
qed

lemma quiet_empty: "prefix_decoder decode \<Longrightarrow> quiet decode unpack []"
proof -
  assume d: "prefix_decoder decode"
  obtain err where "decode [] = Inl err"
    using prefix_decoder_front [OF d, of "[]"] by (cases "decode []") auto
  then show ?thesis using only_bad_refl by (auto simp: quiet_def)
qed

section \<open>Properties\<close>

text \<open>C25: the stream unpacker does not depend on how the network cuts the stream. With a decoder
  that reads a value from the front of its input and never beyond it, feeding the bytes piece by
  piece gives the same messages in the same order, and leaves the same buffer, as feeding them
  at once, whatever the pieces are, messages that fail to unpack included; and it always
  returns.\<close>

theorem Feed_chunking:
  assumes "prefix_decoder decode"
  shows "Feeds decode unpack [] cs = Feed decode unpack [] (concat cs) \<and>
    (\<exists>r. Feed decode unpack [] (concat cs) = Some r)"
proof
  show "Feeds decode unpack [] cs = Feed decode unpack [] (concat cs)"
    by (rule Feeds_concat [OF assms quiet_empty [OF assms]])
  obtain vs rest err where v: "decodes decode (concat cs) vs rest" "decode rest = Inl err"
    using decodes_total [OF assms] by blast
  show "\<exists>r. Feed decode unpack [] (concat cs) = Some r"
  proof (cases "unpacked_all unpack vs")
    case True
    obtain b where "\<forall>xs msgs. feed_loop decode unpack (concat cs @ xs) (concat cs @ xs) msgs =
         feed_loop decode unpack (b @ xs) (rest @ xs) (msgs @ good unpack vs)"
      using feed_loop_values [OF assms v(1) True only_bad_refl] by blast
    from spec [OF this, of "[]"] v(2) show ?thesis by (simp add: Feed_def feed_loop.simps [of _ _ _ rest])
  next
    case False
    from feed_loop_panics [OF assms v(1) False] obtain p
      where "\<forall>buf xs msgs. feed_loop decode unpack buf (concat cs @ xs) msgs = Some (Panic p)" by blast
    then show ?thesis by (metis Feed_def append_Nil append_Nil2)
  qed
qed

text \<open>A decoder for the witness: a value is one byte long, its length is that byte.\<close>

definition demo_decode :: "bytes \<Rightarrow> goerr + gval list \<times> bytes" where
  "demo_decode bs =
     (case bs of
        [] \<Rightarrow> Inl EOF
      | n # r \<Rightarrow> if unat n \<le> length r
                 then Inr ([GInt64 CHUNK, GInt64 7, GSlice [GBytes (Some (take (unat n) r))]], drop (unat n) r)
                 else Inl ErrUnexpectedEOF)"

lemma demo_decode_prefix: "prefix_decoder demo_decode"
proof -
  have "\<exists>front. front \<noteq> [] \<and> bs = front @ r" if "demo_decode bs = Inr (v, r)" for bs v r
    using that by (cases bs) (auto simp: demo_decode_def split: if_splits
        intro!: exI [of _ "hd bs # take (unat (hd bs)) (tl bs)"])
  moreover have "demo_decode (bs @ xs) = Inr (v, r @ xs)" if "demo_decode bs = Inr (v, r)" for bs v r xs
    using that by (cases bs) (auto simp: demo_decode_def split: if_splits)
  ultimately show ?thesis unfolding prefix_decoder_def by blast
qed

definition demo_unpack :: "gval list \<Rightarrow> (goerr + unit msg11) go" where
  "demo_unpack = unpackMessage () (\<lambda>_. Inr ())"

theorem Feed_chunking_witness:
  "Feeds demo_decode demo_unpack [] [[2, 5], [6, 1], [9]] = Feed demo_decode demo_unpack [] [2, 5, 6, 1, 9] \<and>
   (\<exists>r. Feed demo_decode demo_unpack [] [2, 5, 6, 1, 9] = Some r)"
  using Feed_chunking [OF demo_decode_prefix, of demo_unpack "[[2, 5], [6, 1], [9]]"] by simp

text \<open>Packing and unpacking are inverse. Given that the codec brings strings back as raw
  bytes, integers as \<open>int64\<close> and bytes as they are, and that a UUID's text form parses back, every
  message unpacks to itself.\<close>

theorem unpack_packMsg:
  assumes "\<And>t. wire (GString t) = GBytes (Some (bytes_of_string t))" and "\<And>n. wire (GInt n) = GInt64 n"
    and "\<And>b. wire (GBytes b) = GBytes b" and "\<And>n. wire (GInt64 n) = GInt64 n"
    and "\<And>xs. wire (GSlice xs) = GSlice (map wire xs)" and "\<And>u. FromString (uuidString u) = Inr u"
  shows "unpackMessage zero FromString (map wire (packMsg uuidString msg)) = Ret (Inr msg)"
  by (cases msg) (simp_all add: packMsg_def unpackMessage_def assms unpackers_def type_ids unpack_defs)

fun demo_wire :: "gval \<Rightarrow> gval" where
  "demo_wire (GString t) = GBytes (Some (bytes_of_string t))"
| "demo_wire (GInt n) = GInt64 n"
| "demo_wire (GSlice xs) = GSlice (map demo_wire xs)"
| "demo_wire v = v"

theorem unpack_packMsg_witness:
  "unpackMessage '''' Inr (map demo_wire (packMsg (\<lambda>u. u) (Error11 3 7 ''bad''))) = Ret (Inr (Error11 3 7 ''bad''))"
  using unpack_packMsg [of demo_wire Inr "\<lambda>u. u" "''''" "Error11 3 7 ''bad''"] by simp

text \<open>An unknown message type is not rejected. \<open>unpackMessage\<close> notes the error and then calls
  the unpacker that does not exist, so a peer's message of an unknown type panics.\<close>

theorem unpackMessage_unknown_type:
  assumes "t \<notin> {HANDSHAKE, HEARTBEAT, TERMINATE, INVOKE, CHUNK, ERROR, CHOKE}"
  shows "unpackMessage zero FromString [GInt64 t, GInt64 s, GSlice data] = Panic NilDeref"
  using assms by (simp add: unpackMessage_def unpackers_def data_index_def)

theorem unpackMessage_unknown_type_witness:
  "unpackMessage () (\<lambda>_. Inr ()) [GInt64 9, GInt64 1, GSlice []] = Panic NilDeref"
  using unpackMessage_unknown_type [of 9 "()" "\<lambda>_. Inr ()" 1 "[]"] by (simp add: type_ids)


definition demo_encode :: "gval list \<Rightarrow> bytes" where
  "demo_encode v = (case v of [_, _, GSlice [GBytes d]] \<Rightarrow> word_of_nat (length (slice_bytes d)) # slice_bytes d | _ \<Rightarrow> [])"


end
