(* ===== verification/V11Worker.thy ===== *)
theory V11Worker
  imports V11Buf V11Message Worker
begin

text \<open>
  The worker of the v0.11 package (\<open>cocaine/worker.go\<close>): one event loop that reads messages,
  forwards what the responses' loops hand it, and watches two timers. Requests and responses live
  in stores and are referred to by the position of the invocation that made them; the worker's
  map goes from session numbers to such positions. Timers are those of the theory of the v12
  worker, in seconds.
\<close>

section \<open>State\<close>

definition HEARTBEAT_TIMEOUT :: nat where "HEARTBEAT_TIMEOUT = 20"

text \<open>An invocation: its session, the event, whether a bound callback or the fallback runs.\<close>

record invocation =
  iv_session :: i64
  iv_event :: string
  iv_bound :: bool

datatype exit11 = Exit0 | Crashed11 panic

record 'u worker11 =
  x_uuid :: 'u
  x_bind :: "string list" \<comment> \<open>the events that have a callback\<close>
  x_disown_timeout :: nat
  x_now :: nat
  x_heartbeat :: timer
  x_disown :: timer
  x_sessions :: "(i64 \<times> nat) list"
  x_invocations :: "invocation list"
  x_requests :: "slice req11 list"
  x_responses :: "'u msg11 req11 list"
  x_out :: "(nat option \<times> 'u msg11) list" \<comment> \<open>what was written, with the response it came from\<close>
  x_exit :: "exit11 option"

section \<open>Operations\<close>

definition x_write :: "'u msg11 \<Rightarrow> 'u worker11 \<Rightarrow> 'u worker11" where
  "x_write m w = w\<lparr>x_out := x_out w @ [(None, m)]\<rparr>"

definition worker11_heartbeat :: "'u worker11 \<Rightarrow> 'u worker11" where
  "worker11_heartbeat w =
     (let w' = x_write (Heartbeat11 0) w in
      w'\<lparr>x_disown := timer_Reset (x_now w) (x_disown_timeout w) (x_disown w),
         x_heartbeat := timer_Reset (x_now w) HEARTBEAT_TIMEOUT (x_heartbeat w)\<rparr>)"

definition worker11_handshake :: "'u worker11 \<Rightarrow> 'u worker11" where
  "worker11_handshake w = x_write (Handshake11 0 (x_uuid w)) w"

definition SetDisownTimeout11 :: "nat \<Rightarrow> 'u worker11 \<Rightarrow> 'u worker11" where
  "SetDisownTimeout11 timeout w = w\<lparr>x_disown_timeout := timeout\<rparr>"

text \<open>\<open>NewWorkerWithLocalLogger\<close> once the socket and the logger exist.\<close>

definition NewWorker11 :: "'u \<Rightarrow> string list \<Rightarrow> 'u worker11" where
  "NewWorker11 u bind =
     worker11_heartbeat (worker11_handshake
       \<lparr>x_uuid = u, x_bind = bind, x_disown_timeout = 5, x_now = 0,
        x_heartbeat = \<lparr>tm_deadline = Some HEARTBEAT_TIMEOUT, tm_fired = False\<rparr>, x_disown = timer_off,
        x_sessions = [], x_invocations = [], x_requests = [], x_responses = [], x_out = [], x_exit = None\<rparr>)"

text \<open>
  The body of the loop for one message. A nil \<open>*Request\<close> from the map is dereferenced by \<open>push\<close>
  and \<open>close\<close>. None: a send that nobody will ever receive.
\<close>

definition x_crash :: "panic \<Rightarrow> 'u worker11 \<Rightarrow> 'u worker11" where
  "x_crash p w = w\<lparr>x_exit := Some (Crashed11 p)\<rparr>"

definition to_request :: "i64 \<Rightarrow> slice r11event \<Rightarrow> 'u worker11 \<Rightarrow> 'u worker11 option" where
  "to_request s e w =
     (case map_of (x_sessions w) s of
        None \<Rightarrow> Some (x_crash NilDeref w)
      | Some r \<Rightarrow> map_option (\<lambda>q. w\<lparr>x_requests := (x_requests w)[r := q]\<rparr>)
          (request11_loop (x_requests w ! r) e))"

fun worker11_message :: "'u msg11 \<Rightarrow> 'u worker11 \<Rightarrow> 'u worker11 option" where
  "worker11_message (Chunk11 s d) w = to_request s (Push11 d) w"
| "worker11_message (Choke11 s) w =
     map_option (\<lambda>w'. if x_exit w' = None
        then w'\<lparr>x_sessions := filter (\<lambda>(k, _). k \<noteq> s) (x_sessions w')\<rparr> else w')
       (to_request s Quit11 w)"
| "worker11_message (Invoke11 s event) w =
     Some (w\<lparr>x_sessions := (s, length (x_invocations w)) # filter (\<lambda>(k, _). k \<noteq> s) (x_sessions w),
             x_invocations := x_invocations w @
               [\<lparr>iv_session = s, iv_event = event, iv_bound = (event \<in> set (x_bind w))\<rparr>],
             x_requests := x_requests w @ [newRequest11], x_responses := x_responses w @ [newRequest11]\<rparr>)"
| "worker11_message (Heartbeat11 s) w = Some (w\<lparr>x_disown := timer_Stop (x_disown w)\<rparr>)"
| "worker11_message (Terminate11 s reason text) w = Some (w\<lparr>x_exit := Some Exit0\<rparr>)"
| "worker11_message _ w = Some w"

text \<open>
  The calls of a handler on its response, as the sends they make. \<open>Write\<close> and \<open>ErrorMsg\<close> send one
  message to the response's loop; \<open>Close\<close> sends the choke and then \<open>quit\<close>.
\<close>

datatype resp11 = Write11 slice | ErrorMsg11 i64 string | CloseChoke11 | CloseQuit11

fun resp11_event :: "i64 \<Rightarrow> resp11 \<Rightarrow> 'u msg11 r11event" where
  "resp11_event s (Write11 d) = Push11 (Chunk11 s d)"
| "resp11_event s (ErrorMsg11 c t) = Push11 (Error11 s c t)"
| "resp11_event s CloseChoke11 = Push11 (Choke11 s)"
| "resp11_event s CloseQuit11 = Quit11"

definition Response11_Close :: "resp11 list" where "Response11_Close = [CloseChoke11, CloseQuit11]"

text \<open>The deferred recovery around a callback, and around the fallback; and the default fallback.\<close>

definition recover11 :: "bool \<Rightarrow> string \<Rightarrow> string \<Rightarrow> resp11 list" where
  "recover11 bound event r =
     (if bound then [ErrorMsg11 1 (''Error in event: '' @ [quote] @ event @ [quote] @ '', exception: '' @ r)]
      else []) @ Response11_Close"

definition defaultFallbackHandler11 :: "string \<Rightarrow> resp11 list" where
  "defaultFallbackHandler11 event =
     [ErrorMsg11 (- 100) (''There is no event handler for '' @ event)] @ Response11_Close"

section \<open>The loop\<close>

datatype 'u xevent =
    XMessage "'u msg11"
  | XHeartbeatTick
  | XDisownTick
  | XForward nat "'u msg11"
  | XTime nat
  | XHandler nat resp11
  | XRead nat slice

definition x_elapse :: "nat \<Rightarrow> 'u worker11 \<Rightarrow> 'u worker11" where
  "x_elapse n w = w\<lparr>x_now := x_now w + n, x_heartbeat := timer_elapse (x_now w + n) (x_heartbeat w),
     x_disown := timer_elapse (x_now w + n) (x_disown w)\<rparr>"

fun worker11_loop :: "'u worker11 \<Rightarrow> 'u xevent \<Rightarrow> 'u worker11 option" where
  "worker11_loop w (XMessage m) = (if x_exit w = None then worker11_message m w else None)"
| "worker11_loop w XHeartbeatTick =
     (if x_exit w = None \<and> tm_fired (x_heartbeat w)
      then Some (worker11_heartbeat (w\<lparr>x_heartbeat := (x_heartbeat w)\<lparr>tm_fired := False\<rparr>\<rparr>)) else None)"
| "worker11_loop w XDisownTick =
     (if x_exit w = None \<and> tm_fired (x_disown w) then Some (w\<lparr>x_exit := Some Exit0\<rparr>) else None)"
| "worker11_loop w (XForward r m) =
     (if x_exit w = None \<and> r < length (x_responses w)
      then map_option (\<lambda>q. w\<lparr>x_responses := (x_responses w)[r := q], x_out := x_out w @ [(Some r, m)]\<rparr>)
             (response11_loop (x_responses w ! r) (Pull11 m)) else None)"
| "worker11_loop w (XTime n) = (if x_exit w = None then Some (x_elapse n w) else None)"
| "worker11_loop w (XHandler r op) =
     (if x_exit w = None \<and> r < length (x_responses w)
      then map_option (\<lambda>q. w\<lparr>x_responses := (x_responses w)[r := q]\<rparr>)
             (response11_loop (x_responses w ! r) (resp11_event (iv_session (x_invocations w ! r)) op))
      else None)"
| "worker11_loop w (XRead r d) =
     (if x_exit w = None \<and> r < length (x_requests w)
      then map_option (\<lambda>q. w\<lparr>x_requests := (x_requests w)[r := q]\<rparr>)
             (request11_loop (x_requests w ! r) (Pull11 d)) else None)"

section \<open>Invariant\<close>

text \<open>
  The stores have one entry per invocation, and a session in the map has a request whose loop
  runs and has not been told to quit.
\<close>

definition x_inv :: "'u worker11 \<Rightarrow> bool" where
  "x_inv w \<longleftrightarrow> length (x_requests w) = length (x_invocations w) \<and>
     length (x_responses w) = length (x_invocations w) \<and> distinct (map fst (x_sessions w)) \<and>
     distinct (map snd (x_sessions w)) \<and>
     (\<forall>(s, r) \<in> set (x_sessions w). r < length (x_invocations w) \<and>
        \<not> r11_quit (x_requests w ! r) \<and> \<not> r11_returned (x_requests w ! r))"

lemma request11_push:
  "\<not> r11_returned q \<Longrightarrow> \<not> r11_quit q \<Longrightarrow> \<exists>t. request11_loop q (Push11 d) = Some t \<and> \<not> r11_quit t \<and> \<not> r11_returned t"
  by (auto simp: request11_loop_def)

lemma request11_quit: "\<not> r11_returned q \<Longrightarrow> \<exists>t. request11_loop q Quit11 = Some t"
  by (simp add: request11_loop_def)

lemma request11_pull:
  "request11_loop q (Pull11 d) = Some t \<Longrightarrow> r11_quit t = r11_quit q \<and> (r11_returned t \<longrightarrow> r11_returned q \<or> r11_quit q)"
  by (auto simp: loop_simps split: list.splits if_splits)

lemma x_inv_session:
  assumes "x_inv w" and "map_of (x_sessions w) s = Some r"
  shows "r < length (x_requests w)" "\<not> r11_quit (x_requests w ! r)" "\<not> r11_returned (x_requests w ! r)"
  using assms map_of_SomeD [OF assms(2)] by (auto simp: x_inv_def)

lemma x_inv_frame:
  assumes "x_inv w" and "x_sessions v = x_sessions w" and "length (x_invocations v) = length (x_invocations w)"
    and "length (x_responses v) = length (x_responses w)" and "x_requests v = x_requests w"
  shows "x_inv v"
  using assms by (simp add: x_inv_def)

lemma x_inv_request:
  assumes "x_inv w" and "x_requests v = (x_requests w)[r := q]" and "x_sessions v = x_sessions w"
    and "x_invocations v = x_invocations w" and "x_responses v = x_responses w"
    and "\<not> r11_quit (x_requests w ! r) \<and> \<not> r11_returned (x_requests w ! r) \<longrightarrow> \<not> r11_quit q \<and> \<not> r11_returned q"
  shows "x_inv v"
proof -
  have "k < length (x_invocations v) \<and> \<not> r11_quit (x_requests v ! k) \<and> \<not> r11_returned (x_requests v ! k)"
    if "(s, k) \<in> set (x_sessions v)" for s k
  proof -
    have "k < length (x_requests w)" "\<not> r11_quit (x_requests w ! k)" "\<not> r11_returned (x_requests w ! k)"
      using assms(1,3) that by (auto simp: x_inv_def)
    with assms show ?thesis by (cases "k = r") (simp_all add: x_inv_def)
  qed
  with assms(1-5) show ?thesis by (auto simp: x_inv_def)
qed

lemma x_inv_chunk:
  assumes "x_inv w" and "worker11_message (Chunk11 s d) w = Some v"
  shows "x_inv v"
proof (cases "map_of (x_sessions w) s")
  case None
  with assms show ?thesis by (auto simp: to_request_def x_crash_def intro: x_inv_frame)
next
  case (Some r)
  note open_r = x_inv_session [OF assms(1) Some]
  from request11_push [OF open_r(3,2)] obtain q
    where q: "request11_loop (x_requests w ! r) (Push11 d) = Some q" "\<not> r11_quit q" "\<not> r11_returned q" by blast
  with assms(2) Some have v: "v = w\<lparr>x_requests := (x_requests w)[r := q]\<rparr>" by (simp add: to_request_def)
  show ?thesis
    by (rule x_inv_request [OF assms(1), of _ r q]) (simp_all add: v q)
qed

lemma x_inv_choke:
  assumes "x_inv w" and "worker11_message (Choke11 s) w = Some v" and "x_exit w = None"
  shows "x_inv v"
proof (cases "map_of (x_sessions w) s")
  case None
  with assms show ?thesis by (auto simp: to_request_def x_crash_def intro: x_inv_frame)
next
  case (Some r)
  then have sr: "(s, r) \<in> set (x_sessions w)" by (rule map_of_SomeD)
  obtain q where v: "v = w\<lparr>x_requests := (x_requests w)[r := q],
      x_sessions := filter (\<lambda>(k, _). k \<noteq> s) (x_sessions w)\<rparr>"
    using assms Some by (auto simp: to_request_def)
  have inj: "inj_on snd (set (x_sessions w))" using assms(1) by (simp add: x_inv_def distinct_map)
  have "k \<noteq> r" if "(t, k) \<in> set (x_sessions w)" "t \<noteq> s" for t k
    using inj_onD [OF inj, of "(t, k)" "(s, r)"] that sr by auto
  then have "k < length (x_invocations w) \<and> \<not> r11_quit ((x_requests w)[r := q] ! k) \<and>
      \<not> r11_returned ((x_requests w)[r := q] ! k)"
    if "(t, k) \<in> set (x_sessions w)" "t \<noteq> s" for t k
    using that assms(1) by (force simp: x_inv_def)
  moreover have "distinct (map fst (filter (\<lambda>(k, _). k \<noteq> s) (x_sessions w)))"
      "distinct (map snd (filter (\<lambda>(k, _). k \<noteq> s) (x_sessions w)))"
    using assms(1) by (simp_all add: x_inv_def distinct_map_filter)
  ultimately show ?thesis using assms(1) by (auto simp: v x_inv_def)
qed

lemma x_inv_invoke:
  assumes "x_inv w" and "worker11_message (Invoke11 s e) w = Some v"
  shows "x_inv v"
proof -
  let ?n = "length (x_invocations w)"
  let ?old = "filter (\<lambda>(k, _). k \<noteq> s) (x_sessions w)"
  have v: "x_sessions v = (s, ?n) # ?old" "length (x_invocations v) = Suc ?n"
      "x_requests v = x_requests w @ [newRequest11]" "length (x_responses v) = Suc (length (x_responses w))"
    using assms(2) by auto
  have lt: "k < ?n \<and> \<not> r11_quit (x_requests w ! k) \<and> \<not> r11_returned (x_requests w ! k)"
    if "(t, k) \<in> set (x_sessions w)" for t k
    using assms(1) that by (auto simp: x_inv_def)
  have "distinct (map fst ?old)" "distinct (map snd ?old)"
    using assms(1) by (simp_all add: x_inv_def distinct_map_filter)
  moreover have "s \<notin> fst ` set ?old" "?n \<notin> snd ` set ?old" using lt [of _ ?n] by auto
  ultimately show ?thesis
    using assms(1) v lt by (auto simp: x_inv_def nth_append newRequest11_def)
qed

lemma x_inv_step:
  assumes "worker11_loop w e = Some v" and "x_inv w"
  shows "x_inv v"
proof (cases e)
  case (XMessage m)
  then have m: "worker11_message m w = Some v" "x_exit w = None" using assms(1) by (auto split: if_splits)
  show ?thesis
  proof (cases m)
    case (Chunk11 s d)
    with m assms(2) x_inv_chunk show ?thesis by blast
  next
    case (Choke11 s)
    with m assms(2) x_inv_choke show ?thesis by blast
  next
    case (Invoke11 s ev)
    with m assms(2) x_inv_invoke show ?thesis by blast
  qed (use m assms(2) in \<open>auto intro: x_inv_frame\<close>)
next
  case (XRead r d)
  with assms obtain q where q: "request11_loop (x_requests w ! r) (Pull11 d) = Some q"
      "v = w\<lparr>x_requests := (x_requests w)[r := q]\<rparr>"
    by (auto split: if_splits)
  show ?thesis
    by (rule x_inv_request [OF assms(2), of _ r q]) (use q request11_pull [OF q(1)] in auto)
qed (use assms in \<open>auto simp: worker11_heartbeat_def x_write_def x_elapse_def Let_def split: if_splits
      intro: x_inv_frame\<close>)

lemma x_inv_new: "x_inv (NewWorker11 u bind)"
  by (simp add: x_inv_def NewWorker11_def worker11_heartbeat_def worker11_handshake_def x_write_def Let_def)

lemma x_inv_run:
  assumes "run worker11_loop (NewWorker11 u bind) es = Some w"
  shows "x_inv w"
  using assms
proof (induction rule: run_induct)
  case start
  show ?case by (rule x_inv_new)
next
  case (step es t e v)
  from x_inv_step [OF step(2,3)] show ?case .
qed

section \<open>Answers\<close>

text \<open>What a handler has sent to its response's loop, and what the worker has written of it.\<close>

fun x_pushed :: "nat \<Rightarrow> i64 \<Rightarrow> 'u xevent \<Rightarrow> 'u msg11 list" where
  "x_pushed r s (XHandler k op) = (if k = r then r11_recv (resp11_event s op) else [])"
| "x_pushed r s _ = []"

definition x_written :: "nat \<Rightarrow> 'u worker11 \<Rightarrow> 'u msg11 list" where
  "x_written r w = map snd (filter (\<lambda>(k, _). k = Some r) (x_out w))"

definition x_order :: "'u xevent list \<Rightarrow> 'u worker11 \<Rightarrow> bool" where
  "x_order es w \<longleftrightarrow> (\<forall>r. if r < length (x_invocations w)
     then concat (map (x_pushed r (iv_session (x_invocations w ! r))) es) =
            x_written r w @ r11_pending (x_responses w ! r)
     else x_written r w = [] \<and> (\<forall>s. concat (map (x_pushed r s) es) = []))"

lemma x_order_frame:
  assumes "x_order es w" and "x_invocations v = x_invocations w" and "x_responses v = x_responses w"
    and "\<And>r. x_written r v = x_written r w" and "\<And>r s. x_pushed r s e = []"
  shows "x_order (es @ [e]) v"
  using assms by (simp add: x_order_def)

lemma x_order_message:
  assumes "worker11_message m w = Some v" and "x_order es w" and "x_inv w"
  shows "x_order (es @ [XMessage m]) v"
proof (cases m)
  case (Invoke11 s ev)
  let ?n = "length (x_invocations w)"
  have v: "x_invocations v = x_invocations w @ [\<lparr>iv_session = s, iv_event = ev, iv_bound = (ev \<in> set (x_bind w))\<rparr>]"
      "x_responses v = x_responses w @ [newRequest11]" "x_out v = x_out w"
    using assms(1) Invoke11 by auto
  have len: "length (x_responses w) = ?n" using assms(3) by (simp add: x_inv_def)
  have "x_written r v = x_written r w" for r using v by (simp add: x_written_def)
  with assms(2) v len show ?thesis
    by (auto simp: x_order_def nth_append newRequest11_def less_Suc_eq not_less
        split: if_splits dest!: spec [of _ ?n])
next
  case (Chunk11 s d)
  with assms(1) have "x_invocations v = x_invocations w \<and> x_responses v = x_responses w \<and> x_out v = x_out w"
    by (auto simp: to_request_def x_crash_def split: option.splits)
  then show ?thesis by (intro x_order_frame [OF assms(2)]) (simp_all add: x_written_def)
next
  case (Choke11 s)
  with assms(1) have "x_invocations v = x_invocations w \<and> x_responses v = x_responses w \<and> x_out v = x_out w"
    by (auto simp: to_request_def x_crash_def split: option.splits if_splits)
  then show ?thesis by (intro x_order_frame [OF assms(2)]) (simp_all add: x_written_def)
qed (use assms(1) in \<open>auto intro!: x_order_frame [OF assms(2)] simp: x_written_def\<close>)

lemma x_order_response:
  assumes "x_order es w" and "x_inv w" and "k < length (x_responses w)"
    and "response11_loop (x_responses w ! k) ev = Some q"
    and "x_invocations v = x_invocations w" and "x_responses v = (x_responses w)[k := q]"
    and "\<And>r. x_written r v = x_written r w @ (if r = k then r11_sent ev else [])"
    and "\<And>r. x_pushed r (iv_session (x_invocations w ! k)) e = (if r = k then r11_recv ev else [])"
    and "\<And>r s. r \<noteq> k \<Longrightarrow> x_pushed r s e = []"
  shows "x_order (es @ [e]) v"
proof -
  have cons: "r11_pending (x_responses w ! k) @ r11_recv ev = r11_sent ev @ r11_pending q"
    using r11.conserve assms(4) by (simp add: response11_loop_def)
  have len: "length (x_responses w) = length (x_invocations w)" using assms(2) by (simp add: x_inv_def)
  show ?thesis
    unfolding x_order_def
  proof
    fix r
    show "if r < length (x_invocations v)
     then concat (map (x_pushed r (iv_session (x_invocations v ! r))) (es @ [e])) =
            x_written r v @ r11_pending (x_responses v ! r)
     else x_written r v = [] \<and> (\<forall>s. concat (map (x_pushed r s) (es @ [e])) = [])"
    proof (cases "r = k")
      case True
      have "concat (map (x_pushed k (iv_session (x_invocations w ! k))) es) =
          x_written k w @ r11_pending (x_responses w ! k)"
        using assms(1,3) len by (simp add: x_order_def)
      with True cons assms(3,5-8) len show ?thesis by simp
    next
      case False
      with assms(1,5,6,7,9) show ?thesis by (simp add: x_order_def)
    qed
  qed
qed

lemma x_order_step:
  assumes "worker11_loop w e = Some v" and "x_order es w" and "x_inv w"
  shows "x_order (es @ [e]) v"
proof (cases e)
  case (XMessage m)
  with assms x_order_message show ?thesis by (auto split: if_splits)
next
  case (XForward k m)
  with assms obtain q where "k < length (x_responses w)"
      and q: "response11_loop (x_responses w ! k) (Pull11 m) = Some q"
      "v = w\<lparr>x_responses := (x_responses w)[k := q], x_out := x_out w @ [(Some k, m)]\<rparr>"
    by (auto split: if_splits)
  then show ?thesis
    by (intro x_order_response [OF assms(2,3) _ q(1)]) (auto simp: XForward x_written_def)
next
  case (XHandler k op)
  with assms obtain q where "k < length (x_responses w)"
      and q: "response11_loop (x_responses w ! k) (resp11_event (iv_session (x_invocations w ! k)) op) = Some q"
      "v = w\<lparr>x_responses := (x_responses w)[k := q]\<rparr>"
    by (auto split: if_splits)
  moreover have "r11_sent (resp11_event s op) = []" for s by (cases op) simp_all
  ultimately show ?thesis
    by (intro x_order_response [OF assms(2,3) _ q(1)]) (auto simp: XHandler x_written_def)
next
  case (XRead k d)
  with assms(1) show ?thesis
    by (auto intro!: x_order_frame [OF assms(2)] simp: x_written_def split: if_splits)
next
  case XHeartbeatTick
  with assms(1) show ?thesis
    by (auto intro!: x_order_frame [OF assms(2)] split: if_splits
        simp: x_written_def worker11_heartbeat_def x_write_def Let_def)
qed (use assms(1) in \<open>auto intro!: x_order_frame [OF assms(2)] split: if_splits
       simp: x_written_def x_elapse_def\<close>)

section \<open>Properties\<close>

text \<open>C28: the v0.11 worker writes each handler's answer in order. Whatever the interleaving of
  handlers, messages and timers, what a handler has sent to its response is exactly what the
  worker has written for that invocation, in order, followed by what the response's loop still
  holds.\<close>

theorem worker11_answers_in_order:
  assumes "run worker11_loop (NewWorker11 u bind) es = Some w" and "r < length (x_invocations w)"
  shows "concat (map (x_pushed r (iv_session (x_invocations w ! r))) es) =
    x_written r w @ r11_pending (x_responses w ! r)"
proof -
  have "x_inv w \<and> x_order es w"
    using assms(1)
  proof (induction rule: run_induct)
    case start
    show ?case
      using x_inv_new by (auto simp: x_order_def x_written_def NewWorker11_def worker11_heartbeat_def
          worker11_handshake_def x_write_def Let_def)
  next
    case (step es t e v)
    then show ?case using x_inv_step x_order_step by blast
  qed
  with assms(2) show ?thesis by (simp add: x_order_def)
qed


definition demo_bind :: "string list" where "demo_bind = [''ping'']"

definition demo_xevents :: "unit xevent list" where
  "demo_xevents = [XMessage (Invoke11 1 ''ping''), XMessage (Chunk11 1 (Some [7])), XHandler 0 (Write11 (Some [8])),
     XHandler 0 CloseChoke11, XForward 0 (Chunk11 1 (Some [8]))]"

lemmas demo11_simps = demo_bind_def demo_xevents_def NewWorker11_def worker11_heartbeat_def
  worker11_handshake_def x_write_def to_request_def newRequest11_def request11_loop_def
  response11_loop_def req11_head_def

theorem worker11_answers_in_order_witness:
  "\<exists>w. run worker11_loop (NewWorker11 () demo_bind) demo_xevents = Some w \<and>
     [Chunk11 1 (Some [8]), Choke11 1] = x_written 0 w @ r11_pending (x_responses w ! 0)"
proof -
  obtain w where w: "run worker11_loop (NewWorker11 () demo_bind) demo_xevents = Some w"
      "0 < length (x_invocations w)" "iv_session (x_invocations w ! 0) = 1"
    by (simp add: demo11_simps)
  from worker11_answers_in_order [OF w(1,2)] w(1,3) show ?thesis by (simp add: demo_xevents_def)
qed


end
