(* ===== verification/V11Service.thy ===== *)
theory V11Service
  imports V11Buf V11Message Sessions Endpoints
begin

text \<open>
  The client of the v0.11 package (\<open>cocaine/service.go\<close>, \<open>cocaine/locator.go\<close>). Every call owns a
  pair of channels with the goroutine of \<open>getServiceChanPair\<close> between them; the pairs live in a
  store and the session table refers to them by position. An operation that would block for
  ever, because a pair's goroutine has ended, is None.
\<close>

section \<open>State\<close>

datatype res11 = Res11 slice | ResErr11 i64 string

text \<open>
  What a caller reads from a result; \<open>decode\<close> is the msgpack decoder for the caller's target. A result with an
  error has no bytes, and \<open>Extract\<close> decodes whatever there is.
\<close>

definition serviceRes11_Extract :: "(bytes \<Rightarrow> goerr + 'a) \<Rightarrow> res11 \<Rightarrow> goerr + 'a" where
  "serviceRes11_Extract decode r = decode (case r of Res11 res \<Rightarrow> slice_bytes res | ResErr11 code msg \<Rightarrow> [])"

definition serviceRes11_Err :: "res11 \<Rightarrow> (i64 \<times> string) option" where
  "serviceRes11_Err r = (case r of Res11 res \<Rightarrow> None | ResErr11 code msg \<Rightarrow> Some (code, msg))"

text \<open>A caller that only extracts cannot tell one error of the service from another.\<close>

lemma serviceRes11_Extract_error:
  "serviceRes11_Err r \<noteq> None \<Longrightarrow> serviceRes11_Extract decode r = decode []"
  by (auto simp: serviceRes11_Err_def serviceRes11_Extract_def split: res11.splits)

record endpoint11 =
  Host :: string
  Port11 :: nat

definition Endpoint_AsString :: "endpoint11 \<Rightarrow> string" where
  "Endpoint_AsString e = Host e @ '':'' @ decimal (Port11 e)"

record resolveResult =
  success :: bool
  rr_Endpoint :: endpoint11
  rr_Version :: nat
  rr_API :: "(i64 \<times> string) list"

definition getMethodNumber :: "string \<Rightarrow> (i64 \<times> string) list \<Rightarrow> i64 option" where
  "getMethodNumber name api = map_option fst (List.find (\<lambda>(key, value). value = name) api)"

record service11 =
  t_API :: "(i64 \<times> string) list"
  t_sessions :: "nat keeperStruct"
  t_pairs :: "res11 buf11 list"
  t_stop_closed :: bool
  t_sock_closed :: bool
  t_close_called :: bool
  t_reconnecting :: bool
  t_sent :: "(i64 \<times> i64 \<times> gval list) list" \<comment> \<open>method, session, arguments\<close>

definition newService11 :: "(i64 \<times> string) list \<Rightarrow> service11" where
  "newService11 api = \<lparr>t_API = api, t_sessions = newKeeperStruct, t_pairs = [], t_stop_closed = False,
     t_sock_closed = False, t_close_called = False, t_reconnecting = False, t_sent = []\<rparr>"

section \<open>Operations\<close>

text \<open>An operation that may block for ever (None) or panic, and another one after it.\<close>

fun then11 :: "'a go option \<Rightarrow> ('a \<Rightarrow> 'b go option) \<Rightarrow> 'b go option" where
  "then11 None f = None"
| "then11 (Some (Panic p)) f = Some (Panic p)"
| "then11 (Some (Ret x)) f = f x"

text \<open>A send to the input of a channel pair waits for the pair's goroutine; closing it does not.\<close>

definition pair_send :: "nat \<Rightarrow> res11 \<Rightarrow> service11 \<Rightarrow> service11 go option" where
  "pair_send r v s =
     (if b11_in_closed (t_pairs s ! r) then Some (Panic SendOnClosed)
      else map_option (\<lambda>b. Ret (s\<lparr>t_pairs := (t_pairs s)[r := b]\<rparr>)) (getServiceChanPair (t_pairs s ! r) (In11 v)))"

definition pair_close :: "nat \<Rightarrow> service11 \<Rightarrow> service11 go" where
  "pair_close r s =
     (if b11_in_closed (t_pairs s ! r) then Panic CloseOfClosed
      else Ret (s\<lparr>t_pairs := (t_pairs s)[r := (t_pairs s ! r)\<lparr>b11_in_closed := True\<rparr>]\<rparr>))"

definition service11_detach :: "i64 \<Rightarrow> service11 \<Rightarrow> service11" where
  "service11_detach i s = s\<lparr>t_sessions := keeper_Detach i (t_sessions s)\<rparr>"

text \<open>One message of the range loop in \<open>loop\<close>, with nobody in between.\<close>

fun service11_message :: "'u msg11 \<Rightarrow> service11 \<Rightarrow> service11 go option" where
  "service11_message (Chunk11 i d) s =
     (case keeper_Get (t_sessions s) i of Some r \<Rightarrow> pair_send r (Res11 d) s | None \<Rightarrow> Some (Ret s))"
| "service11_message (Choke11 i) s =
     (case keeper_Get (t_sessions s) i of
        Some r \<Rightarrow> Some (go_bind (pair_close r s) (\<lambda>s1. Ret (service11_detach i s1)))
      | None \<Rightarrow> Some (Ret s))"
| "service11_message (Error11 i code text) s =
     (case keeper_Get (t_sessions s) i of Some r \<Rightarrow> pair_send r (ResErr11 code text) s | None \<Rightarrow> Some (Ret s))"
| "service11_message _ s = Some (Ret s)"

text \<open>The end of \<open>loop\<close>: every open session gets an error and is closed and detached.\<close>

definition loop11_error :: res11 where "loop11_error = ResErr11 (- 1) ''Disconnected''"

fun loop11_end :: "i64 list \<Rightarrow> service11 \<Rightarrow> service11 go option" where
  "loop11_end [] s = Some (Ret s)"
| "loop11_end (i # is) s =
     (case keeper_Get (t_sessions s) i of
        None \<Rightarrow> loop11_end is s
      | Some r \<Rightarrow> then11 (pair_send r loop11_error s) (\<lambda>s1.
          then11 (Some (pair_close r s1)) (\<lambda>s2. loop11_end is (service11_detach i s2))))"

definition service11_loop_end :: "service11 \<Rightarrow> service11 go option" where
  "service11_loop_end s = loop11_end (keeper_Keys (t_sessions s)) s"

text \<open>\<open>Close\<close>: the channel \<open>stop\<close> tells the goroutine of every pair; then the socket is closed.\<close>

definition service11_Close :: "service11 \<Rightarrow> service11 go" where
  "service11_Close s =
     (if t_stop_closed s \<or> t_close_called s then Panic CloseOfClosed
      else Ret (s\<lparr>t_stop_closed := True, t_close_called := True, t_sock_closed := True,
                 t_pairs := map (\<lambda>b. b\<lparr>b11_stop_closed := True\<rparr>) (t_pairs s)\<rparr>))"

text \<open>\<open>Reconnect\<close>'s own loop over the sessions: an error, and detached, but not closed.\<close>

definition reconnect11_error :: res11 where "reconnect11_error = ResErr11 (- 100) ''Disconnected''"

fun reconnect11_errors :: "i64 list \<Rightarrow> service11 \<Rightarrow> service11 go option" where
  "reconnect11_errors [] s = Some (Ret s)"
| "reconnect11_errors (i # is) s =
     (case keeper_Get (t_sessions s) i of
        None \<Rightarrow> reconnect11_errors is (service11_detach i s)
      | Some r \<Rightarrow> then11 (pair_send r reconnect11_error s) (\<lambda>s1. reconnect11_errors is (service11_detach i s1)))"

datatype reconnect11 = AlreadyReconnecting | AlreadyConnected | ReconnectFailed goerr | Reconnected

text \<open>The exchange of the socket, once the new one is connected.\<close>

definition service11_renew :: "service11 \<Rightarrow> service11 go" where
  "service11_renew s = go_bind (service11_Close s) (\<lambda>s1.
     Ret (s1\<lparr>t_stop_closed := False, t_close_called := False, t_sock_closed := False\<rparr>))"

definition service11_Reconnect :: "bool \<Rightarrow> goerr option \<Rightarrow> goerr option \<Rightarrow> service11
    \<Rightarrow> (service11 \<times> reconnect11) go option" where
  "service11_Reconnect force resolveErr ioErr s =
     (if t_reconnecting s then Some (Ret (s, AlreadyReconnecting))
      else if \<not> force \<and> \<not> t_sock_closed s then Some (Ret (s, AlreadyConnected))
      else then11 (reconnect11_errors (keeper_Keys (t_sessions s)) s) (\<lambda>s1.
        case resolveErr of
          Some err \<Rightarrow> Some (Ret (s1, ReconnectFailed err))
        | None \<Rightarrow>
            (case ioErr of
               Some err \<Rightarrow> Some (Ret (s1, ReconnectFailed err))
             | None \<Rightarrow> Some (go_bind (service11_renew s1) (\<lambda>s2. Ret (s2, Reconnected))))))"

text \<open>\<open>call\<close>: None when the method is unknown (the caller gets a channel with an error in it).\<close>

definition service11_call :: "string \<Rightarrow> gval list \<Rightarrow> service11 \<Rightarrow> service11 \<times> nat option" where
  "service11_call name args s =
     (case getMethodNumber name (t_API s) of
        None \<Rightarrow> (s, None)
      | Some method \<Rightarrow>
          (let r = length (t_pairs s) in
           case keeper_Attach r (t_sessions s) of (k, i) \<Rightarrow>
             (s\<lparr>t_sessions := k, t_pairs := t_pairs s @ [newAsyncBuf11\<lparr>b11_stop_closed := t_stop_closed s\<rparr>],
                t_sent := t_sent s @ [(method, i, args)]\<rparr>,
              Some r)))"

definition service11_Call :: "string \<Rightarrow> gval list \<Rightarrow> goerr option \<Rightarrow> goerr option \<Rightarrow> service11
    \<Rightarrow> (service11 \<times> nat option) go option" where
  "service11_Call name args resolveErr ioErr s =
     (if t_sock_closed s then
        then11 (service11_Reconnect False resolveErr ioErr s) (\<lambda>(s1, r).
          Some (Ret (if r = Reconnected then service11_call name args s1 else (s1, None))))
      else Some (Ret (service11_call name args s)))"

text \<open>\<open>Locator.Resolve\<close>: the messages of the answers read until a choke; the last chunk wins.\<close>

fun Resolve11 :: "(slice \<Rightarrow> resolveResult) \<Rightarrow> 'u msg11 list \<Rightarrow> resolveResult \<Rightarrow> resolveResult \<times> bool" where
  "Resolve11 unpackchunk [] res = (res, False)"
| "Resolve11 unpackchunk (Chunk11 i d # ms) res = Resolve11 unpackchunk ms ((unpackchunk d)\<lparr>success := True\<rparr>)"
| "Resolve11 unpackchunk (Choke11 i # ms) res = (fst (Resolve11 unpackchunk ms res), True)"
| "Resolve11 unpackchunk (m # ms) res = Resolve11 unpackchunk ms res"

section \<open>Disconnection\<close>

text \<open>Sessions refer to different pairs, whose goroutines run and whose inputs are open.\<close>

definition pairs_ready :: "service11 \<Rightarrow> bool" where
  "pairs_ready s \<longleftrightarrow> keeper_inv (t_sessions s) \<and>
     (\<forall>i r. keeper_Get (t_sessions s) i = Some r \<longrightarrow> r < length (t_pairs s) \<and>
        \<not> b11_returned (t_pairs s ! r) \<and> \<not> b11_in_closed (t_pairs s ! r) \<and> \<not> b11_in_nil (t_pairs s ! r) \<and>
        \<not> b11_finished (t_pairs s ! r)) \<and>
     (\<forall>i j r. keeper_Get (t_sessions s) i = Some r \<longrightarrow> keeper_Get (t_sessions s) j = Some r \<longrightarrow> i = j)"

definition disconnected11 :: "res11 buf11 \<Rightarrow> res11 buf11" where
  "disconnected11 b = b\<lparr>b11_pending := b11_pending b @ [loop11_error], b11_in_closed := True\<rparr>"

lemma disconnect11_one:
  assumes "pairs_ready s" and i: "keeper_Get (t_sessions s) i = Some r"
  obtains s1 s2 u where "pair_send r loop11_error s = Some (Ret s1)"
    "pair_close r s1 = Ret s2" "u = service11_detach i s2"
    "t_pairs u = (t_pairs s)[r := disconnected11 (t_pairs s ! r)]"
    "keeper_Get (t_sessions u) = (keeper_Get (t_sessions s))(i := None)" "pairs_ready u"
proof -
  let ?b = "t_pairs s ! r"
  let ?c = "?b\<lparr>b11_pending := b11_pending ?b @ [loop11_error]\<rparr>"
  have r: "r < length (t_pairs s)" "\<not> b11_returned ?b" "\<not> b11_in_closed ?b" "\<not> b11_in_nil ?b" "\<not> b11_finished ?b"
    using assms by (auto simp: pairs_ready_def)
  then have c: "getServiceChanPair ?b (In11 loop11_error) = Some ?c"
    by (simp add: getServiceChanPair_def asyncBuff11_loop_def buf11_head_def)
  define s1 where "s1 = s\<lparr>t_pairs := (t_pairs s)[r := ?c]\<rparr>"
  define s2 where "s2 = s1\<lparr>t_pairs := (t_pairs s1)[r := ?c\<lparr>b11_in_closed := True\<rparr>]\<rparr>"
  define u where "u = service11_detach i s2"
  have inv: "keeper_inv (t_sessions s)" using assms(1) by (simp add: pairs_ready_def)
  have e: "pair_send r loop11_error s = Some (Ret s1)" "pair_close r s1 = Ret s2"
    using c r(1,3) by (simp_all add: pair_send_def pair_close_def s1_def s2_def)
  have pairs: "t_pairs u = (t_pairs s)[r := disconnected11 ?b]"
    by (simp add: u_def s2_def s1_def service11_detach_def disconnected11_def)
  have get: "keeper_Get (t_sessions u) = (keeper_Get (t_sessions s))(i := None)"
    using kp.get_detach [OF inv, of i] by (simp add: u_def s2_def s1_def service11_detach_def)
  have other: "q \<noteq> r" if "keeper_Get (t_sessions s) j = Some q" "j \<noteq> i" for j q
    using assms that by (auto simp: pairs_ready_def)
  have same: "t_pairs u ! q = t_pairs s ! q" if "keeper_Get (t_sessions s) j = Some q" "j \<noteq> i" for j q
    using other [OF that] by (simp add: pairs)
  have len: "length (t_pairs u) = length (t_pairs s)" by (simp add: pairs)
  have "r' < length (t_pairs u) \<and> \<not> b11_returned (t_pairs u ! r') \<and> \<not> b11_in_closed (t_pairs u ! r') \<and>
      \<not> b11_in_nil (t_pairs u ! r') \<and> \<not> b11_finished (t_pairs u ! r')"
    if "keeper_Get (t_sessions u) j = Some r'" for j r'
  proof -
    from that have j: "keeper_Get (t_sessions s) j = Some r'" "j \<noteq> i" by (auto simp: get split: if_splits)
    with assms(1) show ?thesis unfolding same [OF j] len pairs_ready_def by blast
  qed
  moreover have "j = k" if "keeper_Get (t_sessions u) j = Some r'" "keeper_Get (t_sessions u) k = Some r'" for j k r'
    using that assms(1) unfolding get pairs_ready_def by (auto split: if_splits)
  moreover have "keeper_inv (t_sessions u)"
    using kp.invar_detach [OF inv, of i] by (simp add: u_def s2_def s1_def service11_detach_def)
  ultimately have "pairs_ready u" unfolding pairs_ready_def by blast
  with e pairs get u_def show ?thesis by (blast intro: that)
qed

lemma loop11_end_spec:
  "pairs_ready s \<Longrightarrow> distinct is \<Longrightarrow>
     \<exists>t. loop11_end is s = Some (Ret t) \<and> length (t_pairs t) = length (t_pairs s) \<and>
       (\<forall>j. keeper_Get (t_sessions t) j = (if j \<in> set is then None else keeper_Get (t_sessions s) j)) \<and>
       (\<forall>r < length (t_pairs s). t_pairs t ! r =
          (if \<exists>i \<in> set is. keeper_Get (t_sessions s) i = Some r then disconnected11 (t_pairs s ! r) else t_pairs s ! r))"
proof (induction "is" arbitrary: s)
  case Nil
  then show ?case by simp
next
  case (Cons i "is")
  show ?case
  proof (cases "keeper_Get (t_sessions s) i")
    case None
    from Cons.IH [OF Cons.prems(1)] Cons.prems(2) None show ?thesis by fastforce
  next
    case (Some r)
    obtain s1 s2 u where u: "pair_send r loop11_error s = Some (Ret s1)"
        "pair_close r s1 = Ret s2" "u = service11_detach i s2"
        "t_pairs u = (t_pairs s)[r := disconnected11 (t_pairs s ! r)]"
        "keeper_Get (t_sessions u) = (keeper_Get (t_sessions s))(i := None)" "pairs_ready u"
      by (rule disconnect11_one [OF Cons.prems(1) Some])
    obtain t where t: "loop11_end is u = Some (Ret t)" "length (t_pairs t) = length (t_pairs u)"
        "\<And>j. keeper_Get (t_sessions t) j = (if j \<in> set is then None else keeper_Get (t_sessions u) j)"
        "\<And>q. q < length (t_pairs u) \<Longrightarrow> t_pairs t ! q =
          (if \<exists>j \<in> set is. keeper_Get (t_sessions u) j = Some q then disconnected11 (t_pairs u ! q) else t_pairs u ! q)"
      using Cons.IH [OF u(6)] Cons.prems(2) by auto
    have own: "j = i" if "keeper_Get (t_sessions s) j = Some r" for j
      using Cons.prems(1) Some that by (auto simp: pairs_ready_def)
    have "t_pairs t ! q = (if \<exists>j \<in> set (i # is). keeper_Get (t_sessions s) j = Some q
        then disconnected11 (t_pairs s ! q) else t_pairs s ! q)" if "q < length (t_pairs s)" for q
    proof (cases "q = r")
      case True
      have "\<not> (\<exists>j \<in> set is. keeper_Get (t_sessions u) j = Some r)"
        using own Cons.prems(2) by (auto simp: u(5) split: if_splits)
      with True that Some t(4) [of q] u(4) show ?thesis by simp
    next
      case False
      with Some Cons.prems(2) have "(\<exists>j \<in> set is. keeper_Get (t_sessions u) j = Some q) \<longleftrightarrow>
          (\<exists>j \<in> set (i # is). keeper_Get (t_sessions s) j = Some q)"
        by (auto simp: u(5))
      with False that t(4) [of q] u(4) show ?thesis by simp
    qed
    with Some u t show ?thesis by auto
  qed
qed

section \<open>Properties\<close>

text \<open>When the v0.11 service's connection ends, every caller is released. If the sessions'
  goroutines are running and their inputs open, the end of \<open>loop\<close> terminates without blocking,
  empties the session table, and hands each waiting caller, behind the results it already has,
  one \<open>Disconnected\<close> error and then the end of its channel.\<close>

theorem service11_disconnect:
  assumes "pairs_ready s"
  shows "\<exists>t. service11_loop_end s = Some (Ret t) \<and> keeper_Keys (t_sessions t) = [] \<and>
    (\<forall>r < length (t_pairs s). t_pairs t ! r =
       (if \<exists>i. keeper_Get (t_sessions s) i = Some r then disconnected11 (t_pairs s ! r) else t_pairs s ! r))"
proof -
  let ?keys = "keeper_Keys (t_sessions s)"
  have inv: "keeper_inv (t_sessions s)" using assms by (simp add: pairs_ready_def)
  have keys: "distinct ?keys" "set ?keys = dom (keeper_Get (t_sessions s))"
    using inv by (simp_all add: kp.distinct_keys kp.set_keys)
  obtain t where t: "service11_loop_end s = Some (Ret t)"
      "\<And>j. keeper_Get (t_sessions t) j = (if j \<in> set ?keys then None else keeper_Get (t_sessions s) j)"
      "\<forall>r < length (t_pairs s). t_pairs t ! r =
          (if \<exists>i \<in> set ?keys. keeper_Get (t_sessions s) i = Some r then disconnected11 (t_pairs s ! r) else t_pairs s ! r)"
    using loop11_end_spec [OF assms keys(1)] by (auto simp: service11_loop_end_def)
  have "keeper_Get (t_sessions t) j = None" for j using t(2) [of j] keys(2) by auto
  then have "set (keeper_Keys (t_sessions t)) = {}" by (simp add: kp.set_keys dom_def)
  moreover have "(\<exists>i \<in> set ?keys. keeper_Get (t_sessions s) i = Some r) \<longleftrightarrow>
      (\<exists>i. keeper_Get (t_sessions s) i = Some r)" for r
    using keys(2) by auto
  ultimately show ?thesis using t(1,3) by auto
qed

theorem service11_disconnect_witness:
  "\<exists>t. service11_loop_end (fst (service11_call ''read'' [] (newService11 [(0, ''read'')]))) = Some (Ret t) \<and>
     keeper_Keys (t_sessions t) = []"
proof -
  have "pairs_ready (fst (service11_call ''read'' [] (newService11 [(0, ''read'')])))"
    by (simp add: pairs_ready_def service11_call_def newService11_def getMethodNumber_def keeper_defs
        newKeeperStruct_def newAsyncBuf11_def alist_ok_def)
  from service11_disconnect [OF this] show ?thesis by blast
qed

end
