(* ===== verification/V11Client.thy ===== *)
theory V11Client
  imports V11Service
begin

text \<open>
  The v0.11 client with all its goroutines (\<open>cocaine/service.go\<close>, \<open>cocaine/locator.go\<close>): the locator
  exchange, the construction of a service, and a machine in which the loops of the old and the
  new connections, a \<open>Reconnect\<close>, callers and the goroutines of the channel pairs interleave
  between any two operations on shared state. The theory V11Service has the same operations run
  without interference. A message here is what \<open>Feed\<close> returned for the data the loop read.
\<close>

section \<open>The locator\<close>

text \<open>\<open>NewLocator\<close>: the endpoint of the command line, unless the only argument is a string.\<close>

definition locator11_endpoint :: "string \<Rightarrow> gval list \<Rightarrow> string" where
  "locator11_endpoint flagLocator args = (case args of [GString e] \<Rightarrow> e | _ \<Rightarrow> flagLocator)"

definition NewLocator11 :: "(string \<Rightarrow> goerr + 's) \<Rightarrow> string \<Rightarrow> gval list \<Rightarrow> goerr + 's" where
  "NewLocator11 newAsyncRWSocket flagLocator args = newAsyncRWSocket (locator11_endpoint flagLocator args)"

text \<open>\<open>unpackchunk\<close> logs the error of the codec and returns what was decoded.\<close>

definition unpackchunk :: "(slice \<Rightarrow> resolveResult \<times> goerr option) \<Rightarrow> slice \<Rightarrow> resolveResult" where
  "unpackchunk decode chunk = fst (decode chunk)"

text \<open>The loop of \<open>Resolve\<close> over the successive reads; None when it still waits for a choke.\<close>

fun Resolve11_loop :: "(bytes \<Rightarrow> bytes \<Rightarrow> (bytes \<times> 'u msg11 list) go option) \<Rightarrow> (slice \<Rightarrow> resolveResult)
    \<Rightarrow> bytes list \<Rightarrow> bytes \<Rightarrow> resolveResult \<Rightarrow> resolveResult go option" where
  "Resolve11_loop feed uc [] buf res = None"
| "Resolve11_loop feed uc (answer # reads) buf res =
     then11 (feed buf answer) (\<lambda>(buf', msgs).
       case Resolve11 uc msgs res of (res', closed) \<Rightarrow>
         if closed then Some (Ret res') else Resolve11_loop feed uc reads buf' res')"

text \<open>\<open>serviceResolve\<close>, \<open>serviceCreateIO\<close> and \<open>NewService\<close>; resolving and dialling are arguments.\<close>

definition serviceResolve11 :: "goerr + 's \<Rightarrow> ('s \<Rightarrow> resolveResult) \<Rightarrow> goerr + resolveResult" where
  "serviceResolve11 locator resolve = (case locator of Inl err \<Rightarrow> Inl err | Inr l \<Rightarrow> Inr (resolve l))"

definition serviceCreateIO11 :: "(string \<Rightarrow> goerr + 's) \<Rightarrow> string \<Rightarrow> goerr + 's" where
  "serviceCreateIO11 newAsyncRWSocket endpoint = newAsyncRWSocket endpoint"

definition NewService11 :: "(string \<Rightarrow> goerr + 's) \<Rightarrow> string \<Rightarrow> goerr + resolveResult \<Rightarrow> goerr + 's \<times> service11" where
  "NewService11 newAsyncRWSocket name resolved =
     (case resolved of
        Inl err \<Rightarrow> Inl err
      | Inr info \<Rightarrow>
          if \<not> success info then Inl (ErrUnresolved name)
          else (case serviceCreateIO11 newAsyncRWSocket (Endpoint_AsString (rr_Endpoint info)) of
                  Inl err \<Rightarrow> Inl err
                | Inr sock \<Rightarrow> Inr (sock, newService11 (rr_API info))))"

section \<open>The goroutines\<close>

text \<open>Where a \<open>loop\<close> is, with the channel and the session it has looked up.\<close>

datatype loop11Pc =
    LReading
  | LSend nat i64 res11
  | LClose nat i64
  | LDetach i64
  | LKeys "i64 list"
  | LEndSend nat i64 "i64 list"
  | LEndClose nat i64 "i64 list"
  | LEndDetach i64 "i64 list"
  | LDone

text \<open>Where the one \<open>Reconnect\<close> that holds the mutex is.\<close>

datatype recon11Pc =
    RIdle
  | RKeys "i64 list"
  | RSend nat i64 "i64 list"
  | RDetach i64 "i64 list"
  | RConnect

record loop11 =
  l_sock :: nat
  l_pc :: loop11Pc

record client11 =
  k_svc :: service11
  k_sock :: nat
  k_spawned :: nat
  k_loops :: "loop11 list"
  k_rpc :: recon11Pc
  k_crash :: "panic option"

definition newClient11 :: "(i64 \<times> string) list \<Rightarrow> client11" where
  "newClient11 api = \<lparr>k_svc = newService11 api, k_sock = 0, k_spawned = 1, k_loops = [], k_rpc = RIdle, k_crash = None\<rparr>"

datatype 'u c11event =
    CCall string "gval list"
  | CLoopStart
  | CMsg nat "'u msg11"
  | CReadEnd nat
  | CLoop nat
  | CPair nat "res11 b11event"
  | CLost
  | CClose
  | CReconnect bool
  | CRecon
  | CConnected "goerr option"

text \<open>The socket a loop reads is closed: it is the current one and closed, or a former one.\<close>

definition sock11_closed :: "client11 \<Rightarrow> nat \<Rightarrow> bool" where
  "sock11_closed c k \<longleftrightarrow> k \<noteq> k_sock c \<or> t_sock_closed (k_svc c)"

definition set_pc :: "nat \<Rightarrow> loop11Pc \<Rightarrow> client11 \<Rightarrow> client11" where
  "set_pc l pc c = c\<lparr>k_loops := (k_loops c)[l := (k_loops c ! l)\<lparr>l_pc := pc\<rparr>]\<rparr>"

definition crash11 :: "panic \<Rightarrow> client11 \<Rightarrow> client11" where
  "crash11 p c = c\<lparr>k_crash := Some p\<rparr>"

text \<open>An operation on the shared state, and what the goroutine does after it.\<close>

definition on_svc :: "service11 go option \<Rightarrow> (client11 \<Rightarrow> client11) \<Rightarrow> client11 \<Rightarrow> client11 option" where
  "on_svc r f c =
     (case r of
        None \<Rightarrow> None
      | Some (Panic p) \<Rightarrow> Some (crash11 p c)
      | Some (Ret s) \<Rightarrow> Some (f (c\<lparr>k_svc := s\<rparr>)))"

text \<open>A message: its session is looked up.\<close>

fun msg_pc :: "'u msg11 \<Rightarrow> service11 \<Rightarrow> loop11Pc" where
  "msg_pc (Chunk11 i d) s = (case keeper_Get (t_sessions s) i of Some r \<Rightarrow> LSend r i (Res11 d) | None \<Rightarrow> LReading)"
| "msg_pc (Choke11 i) s = (case keeper_Get (t_sessions s) i of Some r \<Rightarrow> LClose r i | None \<Rightarrow> LReading)"
| "msg_pc (Error11 i code t) s =
     (case keeper_Get (t_sessions s) i of Some r \<Rightarrow> LSend r i (ResErr11 code t) | None \<Rightarrow> LReading)"
| "msg_pc _ s = LReading"

definition loop11_step :: "nat \<Rightarrow> client11 \<Rightarrow> client11 option" where
  "loop11_step l c =
     (let s = k_svc c in
      case l_pc (k_loops c ! l) of
        LSend r i v \<Rightarrow> on_svc (pair_send r v s) (set_pc l LReading) c
      | LClose r i \<Rightarrow> on_svc (Some (pair_close r s)) (set_pc l (LDetach i)) c
      | LDetach i \<Rightarrow> on_svc (Some (Ret (service11_detach i s))) (set_pc l LReading) c
      | LKeys [] \<Rightarrow> Some (set_pc l LDone c)
      | LKeys (i # is) \<Rightarrow>
          Some (set_pc l (case keeper_Get (t_sessions s) i of Some r \<Rightarrow> LEndSend r i is | None \<Rightarrow> LKeys is) c)
      | LEndSend r i is \<Rightarrow> on_svc (pair_send r loop11_error s) (set_pc l (LEndClose r i is)) c
      | LEndClose r i is \<Rightarrow> on_svc (Some (pair_close r s)) (set_pc l (LEndDetach i is)) c
      | LEndDetach i is \<Rightarrow> on_svc (Some (Ret (service11_detach i s))) (set_pc l (LKeys is)) c
      | _ \<Rightarrow> None)"

definition recon11_step :: "client11 \<Rightarrow> client11 option" where
  "recon11_step c =
     (let s = k_svc c in
      case k_rpc c of
        RKeys [] \<Rightarrow> Some (c\<lparr>k_rpc := RConnect\<rparr>)
      | RKeys (i # is) \<Rightarrow>
          Some (c\<lparr>k_rpc := (case keeper_Get (t_sessions s) i of Some r \<Rightarrow> RSend r i is | None \<Rightarrow> RDetach i is)\<rparr>)
      | RSend r i is \<Rightarrow> on_svc (pair_send r reconnect11_error s) (\<lambda>c. c\<lparr>k_rpc := RDetach i is\<rparr>) c
      | RDetach i is \<Rightarrow> on_svc (Some (Ret (service11_detach i s))) (\<lambda>c. c\<lparr>k_rpc := RKeys is\<rparr>) c
      | _ \<Rightarrow> None)"

text \<open>The steps of a pair's goroutine that are not a send or a close by somebody else.\<close>

fun pair_side :: "'m b11event \<Rightarrow> bool" where
  "pair_side InClosed11 = True"
| "pair_side (Out11 m) = True"
| "pair_side Stop11 = True"
| "pair_side _ = False"

fun client11_events :: "client11 \<Rightarrow> 'u c11event \<Rightarrow> client11 option" where
  "client11_events c (CCall name args) = Some (c\<lparr>k_svc := fst (service11_call name args (k_svc c))\<rparr>)"
| "client11_events c CLoopStart =
     (if 0 < k_spawned c
      then Some (c\<lparr>k_spawned := k_spawned c - 1, k_loops := k_loops c @ [\<lparr>l_sock = k_sock c, l_pc = LReading\<rparr>]\<rparr>) else None)"
| "client11_events c (CMsg l m) =
     (if l < length (k_loops c) \<and> l_pc (k_loops c ! l) = LReading then Some (set_pc l (msg_pc m (k_svc c)) c) else None)"
| "client11_events c (CReadEnd l) =
     (if l < length (k_loops c) \<and> l_pc (k_loops c ! l) = LReading \<and> sock11_closed c (l_sock (k_loops c ! l))
      then Some (set_pc l (LKeys (keeper_Keys (t_sessions (k_svc c)))) c) else None)"
| "client11_events c (CLoop l) = (if l < length (k_loops c) then loop11_step l c else None)"
| "client11_events c (CPair r e) =
     (if r < length (t_pairs (k_svc c)) \<and> pair_side e then
        map_option (\<lambda>b. c\<lparr>k_svc := (k_svc c)\<lparr>t_pairs := (t_pairs (k_svc c))[r := b]\<rparr>\<rparr>)
          (getServiceChanPair (t_pairs (k_svc c) ! r) e)
      else None)"
| "client11_events c CLost = Some (c\<lparr>k_svc := (k_svc c)\<lparr>t_sock_closed := True\<rparr>\<rparr>)"
| "client11_events c CClose = on_svc (Some (service11_Close (k_svc c))) (\<lambda>c. c) c"
| "client11_events c (CReconnect force) =
     (if k_rpc c = RIdle \<and> (force \<or> t_sock_closed (k_svc c))
      then Some (c\<lparr>k_rpc := RKeys (keeper_Keys (t_sessions (k_svc c))),
             k_svc := (k_svc c)\<lparr>t_reconnecting := True\<rparr>\<rparr>) else None)"
| "client11_events c CRecon = recon11_step c"
| "client11_events c (CConnected err) =
     (if k_rpc c = RConnect then
        (case err of
           Some e \<Rightarrow> Some (c\<lparr>k_rpc := RIdle, k_svc := (k_svc c)\<lparr>t_reconnecting := False\<rparr>\<rparr>)
         | None \<Rightarrow> on_svc (Some (service11_renew (k_svc c))) (\<lambda>c. c\<lparr>k_rpc := RIdle, k_sock := k_sock c + 1,
               k_spawned := k_spawned c + 1, k_svc := (k_svc c)\<lparr>t_reconnecting := False\<rparr>\<rparr>) c)
      else None)"

definition client11_step :: "client11 \<Rightarrow> 'u c11event \<Rightarrow> client11 option" where
  "client11_step c e = (if k_crash c = None then client11_events c e else None)"

section \<open>Sessions and references\<close>

text \<open>The pair at position \<open>r\<close> belongs to the session \<open>id11 r\<close>.\<close>

definition id11 :: "nat \<Rightarrow> i64" where "id11 r = word_of_nat (Suc r)"

text \<open>What a message carries to its caller.\<close>

fun msg_result :: "'u msg11 \<Rightarrow> res11 option" where
  "msg_result (Chunk11 i d) = Some (Res11 d)"
| "msg_result (Error11 i code t) = Some (ResErr11 code t)"
| "msg_result _ = None"

text \<open>A value that may be handed to the caller of the session, after the given events.\<close>

definition result_for :: "'u c11event list \<Rightarrow> i64 \<Rightarrow> res11 \<Rightarrow> bool" where
  "result_for es i v \<longleftrightarrow> v = loop11_error \<or> v = reconnect11_error \<or>
     (\<exists>l m. CMsg l m \<in> set es \<and> session11 m = i \<and> msg_result m = Some v)"

fun pc_ok :: "(i64 \<Rightarrow> res11 \<Rightarrow> bool) \<Rightarrow> nat \<Rightarrow> loop11Pc \<Rightarrow> bool" where
  "pc_ok P n (LSend r i v) \<longleftrightarrow> r < n \<and> i = id11 r \<and> P i v"
| "pc_ok P n (LClose r i) \<longleftrightarrow> r < n \<and> i = id11 r"
| "pc_ok P n (LEndSend r i is) \<longleftrightarrow> r < n \<and> i = id11 r"
| "pc_ok P n (LEndClose r i is) \<longleftrightarrow> r < n \<and> i = id11 r"
| "pc_ok P n _ \<longleftrightarrow> True"

fun rpc_ok :: "nat \<Rightarrow> recon11Pc \<Rightarrow> bool" where
  "rpc_ok n (RSend r i is) \<longleftrightarrow> r < n \<and> i = id11 r"
| "rpc_ok n _ \<longleftrightarrow> True"

definition table_ok :: "service11 \<Rightarrow> bool" where
  "table_ok s \<longleftrightarrow> keeper_inv (t_sessions s) \<and> kcounter (t_sessions s) = word_of_nat (length (t_pairs s)) \<and>
     (\<forall>i r. keeper_Get (t_sessions s) i = Some r \<longrightarrow> r < length (t_pairs s) \<and> i = id11 r)"

definition pairs_ok :: "(i64 \<Rightarrow> res11 \<Rightarrow> bool) \<Rightarrow> service11 \<Rightarrow> bool" where
  "pairs_ok P s \<longleftrightarrow> (\<forall>r < length (t_pairs s). \<forall>v \<in> set (b11_pending (t_pairs s ! r)). P (id11 r) v)"

definition c11_inv :: "(i64 \<Rightarrow> res11 \<Rightarrow> bool) \<Rightarrow> client11 \<Rightarrow> bool" where
  "c11_inv P c \<longleftrightarrow> table_ok (k_svc c) \<and> pairs_ok P (k_svc c) \<and>
     (\<forall>lp \<in> set (k_loops c). pc_ok P (length (t_pairs (k_svc c))) (l_pc lp)) \<and>
     rpc_ok (length (t_pairs (k_svc c))) (k_rpc c)"

lemma pc_ok_mono: "pc_ok P n pc \<Longrightarrow> n \<le> m \<Longrightarrow> (\<And>i v. P i v \<Longrightarrow> Q i v) \<Longrightarrow> pc_ok Q m pc"
  by (cases pc) auto

lemma rpc_ok_mono: "rpc_ok n pc \<Longrightarrow> n \<le> m \<Longrightarrow> rpc_ok m pc"
  by (cases pc) auto

lemma c11_inv_mono: "c11_inv P c \<Longrightarrow> (\<And>i v. P i v \<Longrightarrow> Q i v) \<Longrightarrow> c11_inv Q c"
  by (auto simp: c11_inv_def pairs_ok_def intro: pc_ok_mono)

text \<open>The operations on the shared state.\<close>

definition svc_ok :: "(i64 \<Rightarrow> res11 \<Rightarrow> bool) \<Rightarrow> service11 \<Rightarrow> service11 \<Rightarrow> bool" where
  "svc_ok P s t \<longleftrightarrow> table_ok t \<and> pairs_ok P t \<and> length (t_pairs s) \<le> length (t_pairs t)"

lemma pairs_ok_update:
  assumes "pairs_ok P s" and "\<forall>v \<in> set (b11_pending b). v \<in> set (b11_pending (t_pairs s ! r)) \<or> P (id11 r) v"
    and "t_pairs t = (t_pairs s)[r := b]"
  shows "pairs_ok P t"
proof -
  have "P (id11 q) v" if "q < length (t_pairs s)" "v \<in> set (b11_pending ((t_pairs s)[r := b] ! q))" for q v
    using that assms(1,2) by (cases "q = r") (auto simp: pairs_ok_def)
  with assms(3) show ?thesis by (simp add: pairs_ok_def)
qed

lemma pair_send_ok:
  assumes "pair_send r v s = Some (Ret t)" and "table_ok s" and "pairs_ok P s" and "P (id11 r) v"
  shows "svc_ok P s t"
proof -
  obtain b where b: "getServiceChanPair (t_pairs s ! r) (In11 v) = Some b" "t = s\<lparr>t_pairs := (t_pairs s)[r := b]\<rparr>"
    using assms(1) by (auto simp: pair_send_def split: if_splits)
  then have "b11_pending b = b11_pending (t_pairs s ! r) @ [v]"
    by (auto simp: getServiceChanPair_def loop_simps split: if_splits)
  with b(2) assms(3,4) have "pairs_ok P t" by (intro pairs_ok_update [OF assms(3), of b r]) auto
  with b(2) assms(2) show ?thesis by (simp add: svc_ok_def table_ok_def)
qed

lemma pair_close_ok: "pair_close r s = Ret t \<Longrightarrow> table_ok s \<Longrightarrow> pairs_ok P s \<Longrightarrow> svc_ok P s t"
  by (auto simp: pair_close_def svc_ok_def table_ok_def split: if_splits
      intro!: pairs_ok_update [of P s "(t_pairs s ! r)\<lparr>b11_in_closed := True\<rparr>" r])

lemma detach_ok: "table_ok s \<Longrightarrow> pairs_ok P s \<Longrightarrow> svc_ok P s (service11_detach i s)"
  by (auto simp: service11_detach_def svc_ok_def table_ok_def pairs_ok_def kp.invar_detach kp.get_detach
      kp.count_detach split: if_splits)

lemma close_ok: "service11_Close s = Ret t \<Longrightarrow> table_ok s \<Longrightarrow> pairs_ok P s \<Longrightarrow> svc_ok P s t"
  by (auto simp: service11_Close_def svc_ok_def table_ok_def pairs_ok_def split: if_splits)

lemma renew_ok: "service11_renew s = Ret t \<Longrightarrow> table_ok s \<Longrightarrow> pairs_ok P s \<Longrightarrow> svc_ok P s t"
  by (auto simp: service11_renew_def svc_ok_def table_ok_def pairs_ok_def dest!: close_ok [where P = P])

lemma call_ok:
  assumes "table_ok s" and "pairs_ok P s"
  shows "svc_ok P s (fst (service11_call name args s))"
proof (cases "getMethodNumber name (t_API s)")
  case None
  with assms show ?thesis by (simp add: service11_call_def svc_ok_def)
next
  case (Some num)
  let ?t = "fst (service11_call name args s)" and ?n = "length (t_pairs s)"
  have t: "t_pairs ?t = t_pairs s @ [newAsyncBuf11\<lparr>b11_stop_closed := t_stop_closed s\<rparr>]"
      "t_sessions ?t = fst (keeper_Attach ?n (t_sessions s))"
    using Some by (simp_all add: service11_call_def Let_def case_prod_beta)
  have i: "kcounter (t_sessions s) + 1 = id11 ?n" "id11 ?n = 1 + word_of_nat ?n"
    using assms(1) by (simp_all add: table_ok_def id11_def)
  have "table_ok ?t"
    using assms(1) i kp.get_attach [of ?n "t_sessions s"] kp.invar_attach [of "t_sessions s" ?n]
      kp.count_attach [of ?n "t_sessions s"]
    by (auto simp: table_ok_def t less_Suc_eq split: if_splits)
  moreover have "pairs_ok P ?t"
    using assms(2) by (auto simp: pairs_ok_def t nth_append newAsyncBuf11_def)
  ultimately show ?thesis by (simp add: svc_ok_def t(1))
qed

lemma c11_inv_loops:
  assumes "c11_inv P c" and "svc_ok P (k_svc c) s" and "pc_ok P (length (t_pairs s)) pc"
  shows "c11_inv P (set_pc l pc (c\<lparr>k_svc := s\<rparr>))"
proof -
  have old: "pc_ok P (length (t_pairs s)) (l_pc lp)" if "lp \<in> set (k_loops c)" for lp
    using that assms(1,2) by (auto simp: c11_inv_def svc_ok_def intro: pc_ok_mono)
  then have "pc_ok P (length (t_pairs s)) (l_pc lp)" if "lp \<in> set ((k_loops c)[l := (k_loops c ! l)\<lparr>l_pc := pc\<rparr>])" for lp
    using that set_update_subset_insert [of "k_loops c" l] assms(3) by fastforce
  with assms(1,2) show ?thesis by (auto simp: c11_inv_def svc_ok_def set_pc_def intro: rpc_ok_mono)
qed

lemma c11_inv_svc:
  assumes "c11_inv P c" and "svc_ok P (k_svc c) (k_svc d)" and "k_loops d = k_loops c \<or> k_loops d = k_loops c @ [\<lparr>l_sock = k, l_pc = LReading\<rparr>]"
    and "k_rpc d = k_rpc c \<or> rpc_ok (length (t_pairs (k_svc d))) (k_rpc d)"
  shows "c11_inv P d"
  using assms by (auto simp: c11_inv_def svc_ok_def intro: pc_ok_mono rpc_ok_mono)

lemma c11_inv_crash: "c11_inv P c \<Longrightarrow> c11_inv P (crash11 p c)"
  by (simp add: c11_inv_def crash11_def)

lemma on_svc_loop:
  assumes "on_svc r (set_pc l pc) c = Some d" and "c11_inv P c"
    and "\<And>s. r = Some (Ret s) \<Longrightarrow> svc_ok P (k_svc c) s \<and> pc_ok P (length (t_pairs s)) pc"
  shows "c11_inv P d"
  using assms(1,2) c11_inv_loops [OF assms(2)] assms(3)
  by (auto simp: on_svc_def c11_inv_crash split: option.splits go.splits)

lemma svc_ok_refl: "c11_inv P c \<Longrightarrow> svc_ok P (k_svc c) (k_svc c)"
  by (simp add: c11_inv_def svc_ok_def)

lemma pair_send_length: "pair_send r v s = Some (Ret t) \<Longrightarrow> length (t_pairs t) = length (t_pairs s)"
  by (auto simp: pair_send_def split: if_splits)

lemma loop11_step_inv:
  assumes "loop11_step l c = Some d" and "c11_inv P c" and "l < length (k_loops c)"
    and errs: "\<And>i. P i loop11_error"
  shows "c11_inv P d"
proof -
  note inv = assms(2) [unfolded c11_inv_def]
  have tab: "table_ok (k_svc c)" "pairs_ok P (k_svc c)" using inv by simp_all
  have pc: "pc_ok P (length (t_pairs (k_svc c))) (l_pc (k_loops c ! l))" using inv assms(3) by simp
  have self: "c\<lparr>k_svc := k_svc c\<rparr> = c" by simp
  note plain = c11_inv_loops [OF assms(2) svc_ok_refl [OF assms(2)], of _ l, unfolded self]
  show ?thesis
  proof (cases "l_pc (k_loops c ! l)")
    case (LSend r i v)
    with assms(1) have "on_svc (pair_send r v (k_svc c)) (set_pc l LReading) c = Some d" by (simp add: loop11_step_def)
    then show ?thesis using LSend pc tab pair_send_ok by (auto elim!: on_svc_loop [OF _ assms(2)])
  next
    case (LClose r i)
    with assms(1) have "on_svc (Some (pair_close r (k_svc c))) (set_pc l (LDetach i)) c = Some d" by (simp add: loop11_step_def)
    then show ?thesis using tab pair_close_ok by (auto elim!: on_svc_loop [OF _ assms(2)])
  next
    case (LDetach i)
    with assms(1) have "on_svc (Some (Ret (service11_detach i (k_svc c)))) (set_pc l LReading) c = Some d"
      by (simp add: loop11_step_def)
    then show ?thesis using tab detach_ok by (auto elim!: on_svc_loop [OF _ assms(2)])
  next
    case (LKeys ks)
    with assms(1) tab(1) show ?thesis
      by (cases ks) (auto simp: loop11_step_def table_ok_def split: option.splits intro!: plain)
  next
    case (LEndSend r i ks)
    with assms(1) have "on_svc (pair_send r loop11_error (k_svc c)) (set_pc l (LEndClose r i ks)) c = Some d"
      by (simp add: loop11_step_def)
    then show ?thesis using LEndSend pc tab pair_send_ok errs pair_send_length
      by (auto elim!: on_svc_loop [OF _ assms(2)])
  next
    case (LEndClose r i ks)
    with assms(1) have "on_svc (Some (pair_close r (k_svc c))) (set_pc l (LEndDetach i ks)) c = Some d"
      by (simp add: loop11_step_def)
    then show ?thesis using tab pair_close_ok by (auto elim!: on_svc_loop [OF _ assms(2)])
  next
    case (LEndDetach i ks)
    with assms(1) have "on_svc (Some (Ret (service11_detach i (k_svc c)))) (set_pc l (LKeys ks)) c = Some d"
      by (simp add: loop11_step_def)
    then show ?thesis using tab detach_ok by (auto elim!: on_svc_loop [OF _ assms(2)])
  qed (use assms(1) in \<open>simp_all add: loop11_step_def\<close>)
qed

lemma recon11_step_inv:
  assumes "recon11_step c = Some d" and "c11_inv P c" and errs: "\<And>i. P i reconnect11_error"
  shows "c11_inv P d"
proof -
  have tab: "table_ok (k_svc c)" "pairs_ok P (k_svc c)" "rpc_ok (length (t_pairs (k_svc c))) (k_rpc c)"
    using assms(2) by (simp_all add: c11_inv_def)
  note next_pc = c11_inv_svc [OF assms(2)] and crash = c11_inv_crash [OF assms(2)]
  show ?thesis
  proof (cases "k_rpc c")
    case (RKeys ks)
    with assms(1) tab show ?thesis
      by (cases ks) (auto simp: recon11_step_def svc_ok_def table_ok_def split: option.splits intro!: next_pc)
  next
    case (RSend r i ks)
    with assms(1) tab errs pair_send_ok [of r reconnect11_error "k_svc c" _ P] crash show ?thesis
      by (auto simp: recon11_step_def on_svc_def crash11_def svc_ok_refl [OF assms(2)] split: option.splits go.splits
          intro!: next_pc)
  next
    case (RDetach i ks)
    with assms(1) tab detach_ok [of "k_svc c" P i] show ?thesis
      by (auto simp: recon11_step_def on_svc_def intro!: next_pc)
  qed (use assms(1) in \<open>simp_all add: recon11_step_def\<close>)
qed

lemma msg_pc_ok:
  assumes "table_ok s" and "\<And>v. msg_result m = Some v \<Longrightarrow> P (session11 m) v"
  shows "pc_ok P (length (t_pairs s)) (msg_pc m s)"
  using assms by (cases m) (auto simp: table_ok_def split: option.splits)

lemma chan_pair_pending:
  "getServiceChanPair b e = Some d \<Longrightarrow> pair_side e \<Longrightarrow> set (b11_pending d) \<subseteq> set (b11_pending b)"
  by (cases e) (auto simp: getServiceChanPair_def loop_simps split: if_splits list.splits)

lemma c11_inv_step:
  assumes "client11_step c e = Some d" and "c11_inv P c"
    and errs: "\<And>i. P i loop11_error" "\<And>i. P i reconnect11_error"
    and msgs: "\<And>l m v. e = CMsg l m \<Longrightarrow> msg_result m = Some v \<Longrightarrow> P (session11 m) v"
  shows "c11_inv P d"
proof -
  have e: "client11_events c e = Some d" using assms(1) by (simp add: client11_step_def split: if_splits)
  have tab: "table_ok (k_svc c)" "pairs_ok P (k_svc c)" using assms(2) by (simp_all add: c11_inv_def)
  note refl = svc_ok_refl [OF assms(2)] and frame = c11_inv_svc [OF assms(2)]
  have self: "c\<lparr>k_svc := k_svc c\<rparr> = c" by simp
  note plain = c11_inv_loops [OF assms(2) refl, unfolded self]
  have svc: "svc_ok P (k_svc c) ((k_svc c)\<lparr>t_sock_closed := b\<rparr>)" "svc_ok P (k_svc c) ((k_svc c)\<lparr>t_reconnecting := b\<rparr>)" for b
    using refl by (simp_all add: svc_ok_def table_ok_def pairs_ok_def)
  show ?thesis
  proof (cases e)
    case (CCall name args)
    with e call_ok [OF tab] show ?thesis by (auto intro!: frame)
  next
    case (CMsg l m)
    with e msg_pc_ok [OF tab(1), of m P] msgs plain show ?thesis by (auto split: if_splits)
  next
    case (CReadEnd l)
    with e plain show ?thesis by (auto split: if_splits)
  next
    case (CLoop l)
    with e loop11_step_inv [OF _ assms(2) _ errs(1)] show ?thesis by (auto split: if_splits)
  next
    case (CPair r x)
    with e obtain b where b: "getServiceChanPair (t_pairs (k_svc c) ! r) x = Some b" "pair_side x"
        "d = c\<lparr>k_svc := (k_svc c)\<lparr>t_pairs := (t_pairs (k_svc c))[r := b]\<rparr>\<rparr>"
      by (auto split: if_splits)
    have "pairs_ok P (k_svc d)"
      by (rule pairs_ok_update [OF tab(2), of b r]) (use chan_pair_pending [OF b(1,2)] b(3) in auto)
    with b(3) tab show ?thesis by (intro frame) (auto simp: svc_ok_def table_ok_def)
  next
    case CClose
    with e close_ok [OF _ tab] c11_inv_crash [OF assms(2)] show ?thesis
      by (auto simp: on_svc_def crash11_def refl split: go.splits intro!: frame)
  next
    case (CConnected err)
    show ?thesis
    proof (cases "service11_renew (k_svc c)")
      case (Panic p)
      with CConnected e svc c11_inv_crash [OF assms(2)] show ?thesis
        by (auto simp: on_svc_def crash11_def refl split: if_splits option.splits intro!: frame)
    next
      case (Ret s)
      then have "svc_ok P (k_svc c) (s\<lparr>t_reconnecting := False\<rparr>)"
        using renew_ok [OF _ tab] by (auto simp: svc_ok_def table_ok_def pairs_ok_def)
      with Ret CConnected e svc show ?thesis
        by (auto simp: on_svc_def split: if_splits option.splits intro!: frame)
    qed
  next
    case CRecon
    with e recon11_step_inv [OF _ assms(2) errs(2)] show ?thesis by simp
  qed (use e refl svc in \<open>auto split: if_splits intro!: frame\<close>)
qed

lemma c11_inv_run:
  fixes es :: "'u c11event list"
  assumes "run client11_step (newClient11 api) es = Some c"
  shows "c11_inv (result_for es) c"
  using assms
proof (induction rule: run_induct)
  case start
  show ?case
    by (simp add: c11_inv_def newClient11_def newService11_def table_ok_def pairs_ok_def newKeeperStruct_def
        keeper_inv_def alist_ok_def keeper_Get_def)
next
  case (step es t e u)
  have "c11_inv (result_for (es @ [e])) t"
    by (rule c11_inv_mono [OF step(3)]) (auto simp: result_for_def)
  then show ?case
    by (rule c11_inv_step [OF step(2)]) (auto simp: result_for_def)
qed

section \<open>Properties\<close>

text \<open>C30: callers of the v0.11 client never see each other's results. Whatever the interleaving of
  the loops of the former and the current connection, a \<open>Reconnect\<close>, \<open>Close\<close> and the goroutines of
  the channel pairs, a value that a caller receives is a result that arrived with the caller's
  own session number, or one of the two errors that tell of a disconnection.\<close>

theorem client11_no_crosstalk:
  fixes es :: "'u c11event list"
  assumes "run client11_step (newClient11 api) es = Some c" and "client11_step c (CPair r (Out11 v)) = Some d"
  shows "v = loop11_error \<or> v = reconnect11_error \<or>
    (\<exists>l m. CMsg l m \<in> set es \<and> session11 m = id11 r \<and> msg_result m = Some v)"
proof -
  have "r < length (t_pairs (k_svc c))" "v \<in> set (b11_pending (t_pairs (k_svc c) ! r))"
    using assms(2) by (auto simp: client11_step_def getServiceChanPair_def loop_simps split: if_splits list.splits)
  with c11_inv_run [OF assms(1)] have "result_for es (id11 r) v" by (simp add: c11_inv_def pairs_ok_def)
  then show ?thesis by (simp add: result_for_def)
qed

definition demo_api11 :: "(i64 \<times> string) list" where "demo_api11 = [(0, ''read'')]"

lemmas client11_eval = demo_api11_def client11_step_def newClient11_def newService11_def service11_call_def
  getMethodNumber_def keeper_defs newKeeperStruct_def newAsyncBuf11_def set_pc_def loop11_step_def recon11_step_def on_svc_def
  pair_send_def pair_close_def service11_detach_def getServiceChanPair_def asyncBuff11_loop_def buf11_head_def
  sock11_closed_def crash11_def service11_renew_def service11_Close_def loop11_error_def reconnect11_error_def

theorem client11_no_crosstalk_witness:
  "\<exists>c d. run client11_step (newClient11 demo_api11)
       [CLoopStart, CCall ''read'' [], CMsg 0 (Chunk11 1 None :: unit msg11), CLoop 0] = Some c \<and>
     client11_step c (CPair 0 (Out11 (Res11 None)) :: unit c11event) = Some d \<and> id11 0 = 1"
proof -
  let ?es = "[CLoopStart, CCall ''read'' [], CMsg 0 (Chunk11 1 None :: unit msg11), CLoop 0]"
  obtain c d where c: "run client11_step (newClient11 demo_api11) ?es = Some c"
      "client11_step c (CPair 0 (Out11 (Res11 None)) :: unit c11event) = Some d"
    by (simp add: client11_eval)
  have "session11 (Chunk11 1 None :: unit msg11) = id11 0"
    using client11_no_crosstalk [OF c] by (auto simp: loop11_error_def reconnect11_error_def)
  with c show ?thesis by auto
qed

text \<open>A caller on the new connection is told that it is disconnected. The loop of the old connection
  ends after a \<open>Reconnect\<close> has replaced the connection; it walks over the sessions of the service,
  which by then are those of the new connection.\<close>

theorem client11_stale_loop:
  "\<exists>c. run client11_step (newClient11 demo_api11)
       ([CLoopStart, CLost, CReconnect False, CRecon, CConnected None, CLoopStart, CCall ''read'' [],
        CReadEnd 0, CLoop 0, CLoop 0, CLoop 0] :: unit c11event list) = Some c \<and>
     \<not> t_sock_closed (k_svc c) \<and> b11_pending (t_pairs (k_svc c) ! 0) = [loop11_error] \<and>
     b11_in_closed (t_pairs (k_svc c) ! 0)"
  by (simp add: client11_eval)

text \<open>The process can end with a panic while it reconnects: \<open>Reconnect\<close> has looked up a session's
  channel to send the error to it, and the loop, which is told of the same disconnection, closes
  the channel first.\<close>

theorem client11_reconnect_panic:
  "\<exists>c. run client11_step (newClient11 demo_api11)
       ([CLoopStart, CCall ''read'' [], CLost, CReadEnd 0, CLoop 0, CReconnect False, CRecon,
        CLoop 0, CLoop 0, CRecon] :: unit c11event list) = Some c \<and>
     k_crash c = Some SendOnClosed"
  by (simp add: client11_eval)

text \<open>After \<open>Close\<close> with an open session the next \<open>Call\<close> never returns: the goroutine of the session's
  pair has ended, and \<open>Reconnect\<close> waits for it for ever, holding the mutex.\<close>

theorem client11_close_hangs:
  "\<exists>c. run client11_step (newClient11 demo_api11)
       ([CLoopStart, CCall ''read'' [], CClose, CPair 0 Stop11, CReconnect False, CRecon] :: unit c11event list) = Some c \<and>
     client11_step c (CRecon :: unit c11event) = None \<and> (\<forall>err. client11_step c (CConnected err :: unit c11event) = None)"
  by (simp add: client11_eval)

section \<open>Without interference\<close>

text \<open>The steps of a loop that nobody interrupts are the operations of the theory V11Service.\<close>

lemma set_pc_twice [simp]: "set_pc l pc (set_pc l pc' c) = set_pc l pc c"
  by (cases "l < length (k_loops c)") (simp_all add: set_pc_def list_update_beyond)

lemma set_pc_svc: "(set_pc l pc c)\<lparr>k_svc := s\<rparr> = set_pc l pc (c\<lparr>k_svc := s\<rparr>)"
  by (simp add: set_pc_def)

lemma set_pc_simps [simp]:
  "k_svc (set_pc l pc c) = k_svc c" "k_crash (set_pc l pc c) = k_crash c"
  "length (k_loops (set_pc l pc c)) = length (k_loops c)"
  "l < length (k_loops c) \<Longrightarrow> l_pc (k_loops (set_pc l pc c) ! l) = pc"
  by (simp_all add: set_pc_def)

lemma set_pc_same: "l_pc (k_loops c ! l) = pc \<Longrightarrow> set_pc l pc c = c"
  by (auto simp: set_pc_def)

definition msg_steps :: "'u msg11 \<Rightarrow> service11 \<Rightarrow> nat" where
  "msg_steps m s = (case msg_pc m s of LSend r i v \<Rightarrow> 1 | LClose r i \<Rightarrow> 2 | _ \<Rightarrow> 0)"

lemma message_atomic:
  fixes m :: "'u msg11"
  assumes "service11_message m (k_svc c) = Some (Ret s)" and "k_crash c = None"
    and "l < length (k_loops c)" and "l_pc (k_loops c ! l) = LReading"
  shows "run client11_step c (CMsg l m # replicate (msg_steps m (k_svc c)) (CLoop l)) = Some (c\<lparr>k_svc := s\<rparr>)"
  using assms
  by (cases m) (auto simp: client11_step_def loop11_step_def on_svc_def msg_steps_def numeral_2_eq_2 set_pc_svc set_pc_same
      split: option.splits go.splits)

section \<open>One connection\<close>

text \<open>The events of a service that is not reconnected.\<close>

fun reconnects :: "'u c11event \<Rightarrow> bool" where
  "reconnects (CReconnect force) = True"
| "reconnects _ = False"

text \<open>Sessions whose channel the loop has closed and not yet detached.\<close>

fun closing :: "loop11Pc \<Rightarrow> i64 set" where
  "closing (LDetach i) = {i}"
| "closing (LEndDetach i is) = {i}"
| "closing _ = {}"

fun holding :: "loop11Pc \<Rightarrow> (i64 \<times> nat) set" where
  "holding (LSend r i v) = {(i, r)}"
| "holding (LClose r i) = {(i, r)}"
| "holding (LEndSend r i is) = {(i, r)}"
| "holding (LEndClose r i is) = {(i, r)}"
| "holding _ = {}"

definition open_inv :: "service11 \<Rightarrow> loop11Pc \<Rightarrow> bool" where
  "open_inv s pc \<longleftrightarrow>
     (\<forall>i r. keeper_Get (t_sessions s) i = Some r \<longrightarrow> i \<notin> closing pc \<longrightarrow> \<not> b11_in_closed (t_pairs s ! r)) \<and>
     (\<forall>(i, r) \<in> holding pc. r < length (t_pairs s) \<and> i = id11 r \<and> \<not> b11_in_closed (t_pairs s ! r))"

definition loop_pc :: "client11 \<Rightarrow> loop11Pc" where
  "loop_pc c = (case k_loops c of [] \<Rightarrow> LReading | lp # _ \<Rightarrow> l_pc lp)"

definition one_inv :: "bool \<Rightarrow> client11 \<Rightarrow> bool" where
  "one_inv b c \<longleftrightarrow> k_rpc c = RIdle \<and> k_spawned c + length (k_loops c) = 1 \<and> k_crash c = None \<and>
     t_stop_closed (k_svc c) = b \<and> t_close_called (k_svc c) = b \<and>
     table_ok (k_svc c) \<and> open_inv (k_svc c) (loop_pc c)"

lemma one_loop:
  assumes "one_inv b c" and "l < length (k_loops c)"
  shows "l = 0" and "loop_pc c = l_pc (k_loops c ! l)" and "loop_pc (set_pc l pc (c\<lparr>k_svc := s\<rparr>)) = pc"
  using assms by (auto simp: one_inv_def loop_pc_def set_pc_def split: list.splits)

text \<open>A step of the loop: what remains to be shown is about the shared state and the position.\<close>

lemma one_inv_loop:
  assumes "one_inv b c" and "l < length (k_loops c)" and "table_ok s" and "open_inv s pc"
    and "t_stop_closed s = t_stop_closed (k_svc c)" and "t_close_called s = t_close_called (k_svc c)"
  shows "one_inv b (set_pc l pc (c\<lparr>k_svc := s\<rparr>))"
  using assms one_loop(3) [OF assms(1,2), of pc s] by (simp add: one_inv_def) (simp add: set_pc_def)

lemma pair_send_open:
  assumes "pair_send r v s = Some x" and "\<not> b11_in_closed (t_pairs s ! r)"
  obtains t where "x = Ret t" "t_sessions t = t_sessions s" "t_stop_closed t = t_stop_closed s"
    "t_close_called t = t_close_called s" "length (t_pairs t) = length (t_pairs s)"
    "\<And>q. b11_in_closed (t_pairs t ! q) = b11_in_closed (t_pairs s ! q)"
proof -
  obtain b where b: "getServiceChanPair (t_pairs s ! r) (In11 v) = Some b" "x = Ret (s\<lparr>t_pairs := (t_pairs s)[r := b]\<rparr>)"
    using assms by (auto simp: pair_send_def)
  have "b11_in_closed b = b11_in_closed (t_pairs s ! r)"
    using b(1) by (auto simp: getServiceChanPair_def asyncBuff11_loop_def buf11_head_def split: if_splits)
  then have "b11_in_closed ((t_pairs s)[r := b] ! q) = b11_in_closed (t_pairs s ! q)" for q
    by (cases "r < length (t_pairs s)") (auto simp: nth_list_update list_update_beyond)
  with b(2) show ?thesis by (intro that [OF b(2)]) simp_all
qed

lemma table_ok_frame:
  "table_ok s \<Longrightarrow> t_sessions t = t_sessions s \<Longrightarrow> length (t_pairs t) = length (t_pairs s) \<Longrightarrow> table_ok t"
  by (simp add: table_ok_def)

lemma open_inv_frame:
  "open_inv s pc \<Longrightarrow> t_sessions t = t_sessions s \<Longrightarrow>
     (\<And>q. b11_in_closed (t_pairs t ! q) = b11_in_closed (t_pairs s ! q)) \<Longrightarrow> holding pc' \<subseteq> holding pc \<Longrightarrow>
     closing pc \<subseteq> closing pc' \<Longrightarrow> length (t_pairs t) = length (t_pairs s) \<Longrightarrow> open_inv t pc'"
  by (fastforce simp: open_inv_def)

lemma one_inv_sent:
  assumes "on_svc (pair_send r v (k_svc c)) (set_pc l pc') c = Some d" and "one_inv b c" and "l < length (k_loops c)"
    and "holding (l_pc (k_loops c ! l)) = {(i, r)}" and "holding pc' \<subseteq> {(i, r)}"
    and "closing (l_pc (k_loops c ! l)) = {}"
  shows "one_inv b d"
proof -
  let ?s = "k_svc c" and ?pc = "l_pc (k_loops c ! l)"
  have inv: "table_ok ?s" "open_inv ?s ?pc" using assms(2) one_loop(2) [OF assms(2,3)] by (simp_all add: one_inv_def)
  then have r: "\<not> b11_in_closed (t_pairs ?s ! r)" using assms(4) by (auto simp: open_inv_def)
  obtain x where x: "pair_send r v ?s = Some x" using assms(1) by (cases "pair_send r v ?s") (auto simp: on_svc_def)
  from x r obtain t where t: "x = Ret t" "t_sessions t = t_sessions ?s" "t_stop_closed t = t_stop_closed ?s"
      "t_close_called t = t_close_called ?s" "length (t_pairs t) = length (t_pairs ?s)"
      "\<And>q. b11_in_closed (t_pairs t ! q) = b11_in_closed (t_pairs ?s ! q)"
    by (rule pair_send_open) blast
  have "open_inv t pc'" using t assms(4-6) by (intro open_inv_frame [OF inv(2)]) auto
  then have "one_inv b (set_pc l pc' (c\<lparr>k_svc := t\<rparr>))"
    using t table_ok_frame [OF inv(1) t(2,5)] by (intro one_inv_loop [OF assms(2,3)])
  with x t(1) assms(1) show ?thesis by (simp add: on_svc_def)
qed

lemma one_inv_closed:
  assumes "on_svc (Some (pair_close r (k_svc c))) (set_pc l pc') c = Some d" and "one_inv b c" and "l < length (k_loops c)"
    and "holding (l_pc (k_loops c ! l)) = {(i, r)}" and "closing (l_pc (k_loops c ! l)) = {}"
    and "holding pc' = {}" and "closing pc' = {i}"
  shows "one_inv b d"
proof -
  let ?s = "k_svc c" and ?pc = "l_pc (k_loops c ! l)"
  let ?t = "?s\<lparr>t_pairs := (t_pairs ?s)[r := (t_pairs ?s ! r)\<lparr>b11_in_closed := True\<rparr>]\<rparr>"
  have inv: "table_ok ?s" "open_inv ?s ?pc" using assms(2) one_loop(2) [OF assms(2,3)] by (simp_all add: one_inv_def)
  have r: "\<not> b11_in_closed (t_pairs ?s ! r)" "i = id11 r" using inv(2) assms(4) by (auto simp: open_inv_def)
  have "\<not> b11_in_closed (t_pairs ?t ! q)" if "keeper_Get (t_sessions ?s) j = Some q" "j \<noteq> i" for j q
  proof -
    have "q \<noteq> r" using that inv(1) r(2) by (auto simp: table_ok_def)
    moreover have "\<not> b11_in_closed (t_pairs ?s ! q)" using inv(2) that assms(5) by (auto simp: open_inv_def)
    ultimately show ?thesis by simp
  qed
  with assms(6,7) have "open_inv ?t pc'" by (simp add: open_inv_def)
  then have "one_inv b (set_pc l pc' (c\<lparr>k_svc := ?t\<rparr>))"
    using inv(1) by (intro one_inv_loop [OF assms(2,3)]) (auto intro: table_ok_frame)
  with assms(1) r(1) show ?thesis by (simp add: on_svc_def pair_close_def)
qed

lemma one_inv_detached:
  assumes "on_svc (Some (Ret (service11_detach i (k_svc c)))) (set_pc l pc') c = Some d" and "one_inv b c"
    and "l < length (k_loops c)" and "closing (l_pc (k_loops c ! l)) = {i}" and "holding pc' = {}" and "closing pc' = {}"
  shows "one_inv b d"
proof -
  let ?s = "k_svc c" and ?pc = "l_pc (k_loops c ! l)"
  have inv: "table_ok ?s" "open_inv ?s ?pc" using assms(2) one_loop(2) [OF assms(2,3)] by (simp_all add: one_inv_def)
  have kp: "keeper_inv (t_sessions ?s)" using inv(1) by (simp add: table_ok_def)
  have "open_inv (service11_detach i ?s) pc'"
    using inv(2) assms(4-6) by (auto simp: open_inv_def service11_detach_def kp.get_detach [OF kp])
  moreover have "table_ok (service11_detach i ?s)"
    using inv(1) by (auto simp: table_ok_def service11_detach_def kp.get_detach kp.count_detach kp.invar_detach split: if_splits)
  ultimately have "one_inv b (set_pc l pc' (c\<lparr>k_svc := service11_detach i ?s\<rparr>))"
    by (intro one_inv_loop [OF assms(2,3)]) (simp_all add: service11_detach_def)
  with assms(1) show ?thesis by (simp add: on_svc_def)
qed

lemma one_inv_step_loop:
  assumes "loop11_step l c = Some d" and "one_inv b c" and "l < length (k_loops c)"
  shows "one_inv b d"
proof -
  let ?s = "k_svc c"
  have inv: "table_ok ?s" "open_inv ?s (l_pc (k_loops c ! l))"
    using assms(2) one_loop(2) [OF assms(2,3)] by (simp_all add: one_inv_def)
  have self: "c\<lparr>k_svc := ?s\<rparr> = c" by simp
  note plain = one_inv_loop [OF assms(2,3) inv(1), unfolded self]
  note step = one_inv_sent [OF _ assms(2,3)] one_inv_closed [OF _ assms(2,3)] one_inv_detached [OF _ assms(2,3)]
  show ?thesis
  proof (cases "l_pc (k_loops c ! l)")
    case (LKeys ks)
    with assms(1) inv show ?thesis
      by (cases ks) (auto simp: loop11_step_def open_inv_def table_ok_def split: option.splits intro!: plain)
  qed (use assms(1) step in \<open>auto simp: loop11_step_def\<close>)
qed

lemma open_inv_call:
  assumes "open_inv s pc" and "table_ok s"
  shows "open_inv (fst (service11_call name args s)) pc"
proof (cases "getMethodNumber name (t_API s)")
  case None
  with assms(1) show ?thesis by (simp add: service11_call_def)
next
  case (Some num)
  let ?t = "fst (service11_call name args s)" and ?n = "length (t_pairs s)"
  have t: "t_pairs ?t = t_pairs s @ [newAsyncBuf11\<lparr>b11_stop_closed := t_stop_closed s\<rparr>]"
      "keeper_Get (t_sessions ?t) = (keeper_Get (t_sessions s))(kcounter (t_sessions s) + 1 \<mapsto> ?n)"
    using Some kp.get_attach [of ?n "t_sessions s"] by (simp_all add: service11_call_def Let_def case_prod_beta)
  have "\<not> b11_in_closed (t_pairs ?t ! r)" if "keeper_Get (t_sessions ?t) i = Some r" "i \<notin> closing pc" for i r
    using that assms by (auto simp: t open_inv_def table_ok_def nth_append newAsyncBuf11_def split: if_splits)
  moreover have "r < length (t_pairs ?t) \<and> i = id11 r \<and> \<not> b11_in_closed (t_pairs ?t ! r)" if "(i, r) \<in> holding pc" for i r
    using that assms(1) by (auto simp: t(1) open_inv_def nth_append)
  ultimately show ?thesis by (auto simp: open_inv_def)
qed

lemma call_flags:
  "t_stop_closed (fst (service11_call name args s)) = t_stop_closed s"
  "t_close_called (fst (service11_call name args s)) = t_close_called s"
  by (simp_all add: service11_call_def Let_def case_prod_beta split: option.splits)

lemma msg_pc_open: "open_inv s LReading \<Longrightarrow> table_ok s \<Longrightarrow> open_inv s (msg_pc m s)"
  by (cases m) (auto simp: open_inv_def table_ok_def split: option.splits)

lemma pair_side_closed:
  assumes "getServiceChanPair (bs ! r) e = Some b" and "pair_side e"
  shows "b11_in_closed (bs[r := b] ! q) = b11_in_closed (bs ! q)"
proof -
  have "b11_in_closed b = b11_in_closed (bs ! r)"
    using assms by (cases e) (auto simp: getServiceChanPair_def asyncBuff11_loop_def buf11_head_def split: if_splits list.splits)
  then show ?thesis by (cases "r < length bs") (auto simp: nth_list_update list_update_beyond)
qed

lemma one_inv_step:
  assumes "client11_step c e = Some d" and "one_inv b c" and "\<not> reconnects e" and "e = CClose \<longrightarrow> \<not> b"
  shows "one_inv (b \<or> e = CClose) d"
proof -
  have e: "client11_events c e = Some d" using assms(1) by (simp add: client11_step_def split: if_splits)
  have inv: "table_ok (k_svc c)" "open_inv (k_svc c) (loop_pc c)" using assms(2) by (simp_all add: one_inv_def)
  have self: "c\<lparr>k_svc := k_svc c\<rparr> = c" by simp
  note plain = one_inv_loop [OF assms(2) _ inv(1), unfolded self]
  have pcs: "loop_pc (c\<lparr>k_svc := s\<rparr>) = loop_pc c" for s by (simp add: loop_pc_def)
  show ?thesis
  proof (cases e)
    case (CCall name args)
    have "table_ok (fst (service11_call name args (k_svc c)))"
      using call_ok [OF inv(1), of "\<lambda>_ _. True"] by (simp add: svc_ok_def pairs_ok_def)
    with CCall e assms(2) open_inv_call [OF inv(2,1)] show ?thesis by (auto simp: one_inv_def pcs call_flags)
  next
    case CLoopStart
    with e assms(2) show ?thesis by (auto simp: one_inv_def loop_pc_def split: if_splits list.splits)
  next
    case (CMsg l m)
    with e one_loop(2) [OF assms(2), of l] inv msg_pc_open [of "k_svc c" m] plain show ?thesis by (auto split: if_splits)
  next
    case (CReadEnd l)
    with e one_loop(2) [OF assms(2), of l] inv show ?thesis
      by (auto split: if_splits intro!: plain) (simp add: open_inv_def)
  next
    case (CLoop l)
    with e one_inv_step_loop [OF _ assms(2)] show ?thesis by (auto split: if_splits)
  next
    case (CPair r x)
    with e obtain y where y: "getServiceChanPair (t_pairs (k_svc c) ! r) x = Some y" "pair_side x"
        "d = c\<lparr>k_svc := (k_svc c)\<lparr>t_pairs := (t_pairs (k_svc c))[r := y]\<rparr>\<rparr>"
      by (auto split: if_splits)
    have "open_inv (k_svc d) (loop_pc c)"
      using y(3) by (intro open_inv_frame [OF inv(2)]) (simp_all add: pair_side_closed [OF y(1,2)])
    with CPair y(3) assms(2) show ?thesis by (auto simp: one_inv_def pcs table_ok_def)
  next
    case CLost
    with e assms(2) show ?thesis by (auto simp: one_inv_def pcs table_ok_def open_inv_def)
  next
    case CClose
    then have d: "d = c\<lparr>k_svc := (k_svc c)\<lparr>t_stop_closed := True, t_close_called := True, t_sock_closed := True,
        t_pairs := map (\<lambda>b. b\<lparr>b11_stop_closed := True\<rparr>) (t_pairs (k_svc c))\<rparr>\<rparr>"
      using e assms(2,4) by (auto simp: one_inv_def on_svc_def service11_Close_def)
    have "open_inv (k_svc d) (loop_pc c)"
      using inv by (fastforce simp: d open_inv_def table_ok_def)
    with CClose d assms(2) show ?thesis by (auto simp: one_inv_def pcs table_ok_def)
  qed (use e assms in \<open>auto simp: one_inv_def recon11_step_def\<close>)
qed

lemma one_inv_run:
  fixes es :: "'u c11event list"
  assumes "run client11_step (newClient11 api) es = Some c"
    and "list_all (\<lambda>e. \<not> reconnects e) es" and "length (filter (\<lambda>e. e = CClose) es) \<le> 1"
  shows "one_inv (CClose \<in> set es) c"
  using assms
proof (induction rule: run_induct)
  case start
  show ?case
    by (simp add: one_inv_def newClient11_def newService11_def table_ok_def open_inv_def loop_pc_def newKeeperStruct_def
        keeper_inv_def alist_ok_def keeper_Get_def)
next
  case (step es t e u)
  then have "one_inv (CClose \<in> set es) t" by simp
  moreover have "e = CClose \<longrightarrow> CClose \<notin> set es" using step.prems(2) by (auto simp: filter_empty_conv)
  ultimately have "one_inv (CClose \<in> set es \<or> e = CClose) u" using one_inv_step [OF step(2)] step.prems(1) by simp
  moreover have "CClose \<in> set (es @ [e]) \<longleftrightarrow> CClose \<in> set es \<or> e = CClose" by auto
  ultimately show ?case by (simp only:)
qed



section \<open>Resolving\<close>

fun is_choke :: "'u msg11 \<Rightarrow> bool" where
  "is_choke (Choke11 i) = True"
| "is_choke _ = False"

lemma Resolve11_closed: "snd (Resolve11 uc ms res) \<longleftrightarrow> list_ex is_choke ms"
  by (induction uc ms res rule: Resolve11.induct) (auto simp: case_prod_beta)

lemma Resolve11_append: "Resolve11 uc (ms @ ns) res =
    (fst (Resolve11 uc ns (fst (Resolve11 uc ms res))), snd (Resolve11 uc ms res) \<or> snd (Resolve11 uc ns (fst (Resolve11 uc ms res))))"
  by (induction uc ms res rule: Resolve11.induct) (auto simp: prod_eq_iff)

text \<open>The description in the last chunk wins, whatever was received before it.\<close>

lemma Resolve11_chunk: "fst (Resolve11 uc (ms @ [Chunk11 i d]) res) = (uc d)\<lparr>success := True\<rparr>"
  by (simp add: Resolve11_append)

text \<open>After the data that arrived without a choke, reading from the closed connection changes nothing.\<close>

lemma Resolve11_loop_hangs:
  assumes "prefix_decoder decode" and "quiet decode unpack buf"
  shows "Resolve11_loop (Feed decode unpack) uc (replicate n []) buf res = None"
proof (induction n)
  case (Suc n)
  have "Feed decode unpack buf [] = Some (Ret (buf, []))" by (rule Feed_quiet [OF assms])
  with Suc show ?case by simp
qed simp

lemma Resolve11_loop_append:
  assumes "prefix_decoder decode"
  shows "quiet decode unpack buf \<Longrightarrow> Resolve11_loop (Feed decode unpack) uc reads buf res = None \<Longrightarrow>
    Resolve11_loop (Feed decode unpack) uc (reads @ replicate n []) buf res = None"
proof (induction reads arbitrary: buf res)
  case Nil
  with Resolve11_loop_hangs [OF assms] show ?case by simp
next
  case (Cons x reads)
  show ?case
  proof (cases "Feed decode unpack buf x")
    case None
    then show ?thesis by simp
  next
    case (Some y)
    show ?thesis
    proof (cases y)
      case (Panic p)
      with Some Cons.prems(2) show ?thesis by simp
    next
      case (Ret z)
      obtain b ms where z: "z = (b, ms)" by (cases z)
      have "quiet decode unpack b" using Feed_split(2) [OF assms] Some Ret z by blast
      with Some Ret z Cons show ?thesis by (auto simp: case_prod_beta split: if_splits)
    qed
  qed
qed

lemma Feed_cons:
  assumes "prefix_decoder decode" and "Feed decode unpack buf (x @ y) = Some (Ret (b, ms))"
  obtains c ms1 ms2 where "Feed decode unpack buf x = Some (Ret (c, ms1))" "Feed decode unpack c y = Some (Ret (b, ms2))"
    "ms = ms1 @ ms2" "quiet decode unpack c"
proof -
  have "then_feed (Feed decode unpack buf x) (\<lambda>b'. Feed decode unpack b' y) = Some (Ret (b, ms))"
    using assms Feed_split(1) [OF assms(1), of unpack buf x y] by simp
  then obtain c ms1 ms2 where f: "Feed decode unpack buf x = Some (Ret (c, ms1))" "Feed decode unpack c y = Some (Ret (b, ms2))"
      "ms = ms1 @ ms2"
    by (auto simp: then_feed_def split: option.splits go.splits prod.splits)
  from f Feed_split(2) [OF assms(1) f(1)] show ?thesis by (rule that)
qed

lemma Resolve11_loop_result:
  assumes "prefix_decoder decode"
  shows "quiet decode unpack buf \<Longrightarrow> Feed decode unpack buf (concat reads) = Some (Ret (b, pre @ [Choke11 i])) \<Longrightarrow>
    \<not> list_ex is_choke pre \<Longrightarrow> Resolve11_loop (Feed decode unpack) uc reads buf res = Some (Ret (fst (Resolve11 uc pre res)))"
proof (induction reads arbitrary: buf res pre)
  case Nil
  with Feed_quiet [OF assms Nil(1)] show ?case by simp
next
  case (Cons x reads)
  from Cons.prems(2) obtain c ms1 ms2 where f: "Feed decode unpack buf x = Some (Ret (c, ms1))"
      "Feed decode unpack c (concat reads) = Some (Ret (b, ms2))" "pre @ [Choke11 i] = ms1 @ ms2" "quiet decode unpack c"
    by (auto elim: Feed_cons [OF assms])
  show ?case
  proof (cases ms2 rule: rev_cases)
    case Nil
    with f(3) have "ms1 = pre @ [Choke11 i]" by simp
    with f(1) Cons.prems(3) show ?thesis by (simp add: case_prod_beta Resolve11_append)
  next
    case (snoc pre2 m)
    with f(3) have pre: "pre = ms1 @ pre2" "m = Choke11 i" by simp_all
    with Cons.prems(3) have "\<not> snd (Resolve11 uc ms1 res)" by (simp add: Resolve11_closed)
    with Cons.IH [OF f(4), of pre2 "fst (Resolve11 uc ms1 res)"] f(1,2) snoc pre Cons.prems(3) show ?thesis
      by (simp add: case_prod_beta Resolve11_append)
  qed
qed

lemma Resolve11_loop_waits:
  assumes "prefix_decoder decode"
  shows "quiet decode unpack buf \<Longrightarrow> Feed decode unpack buf (concat reads) = Some (Ret (b, ms)) \<Longrightarrow>
    \<not> list_ex is_choke ms \<Longrightarrow> Resolve11_loop (Feed decode unpack) uc reads buf res = None"
proof (induction reads arbitrary: buf res ms)
  case (Cons x reads)
  from Cons.prems(2) obtain c ms1 ms2 where f: "Feed decode unpack buf x = Some (Ret (c, ms1))"
      "Feed decode unpack c (concat reads) = Some (Ret (b, ms2))" "ms = ms1 @ ms2" "quiet decode unpack c"
    by (auto elim: Feed_cons [OF assms])
  with Cons.prems(3) have "\<not> snd (Resolve11 uc ms1 res)" "\<not> list_ex is_choke ms2" by (simp_all add: Resolve11_closed)
  with f Cons.IH [OF f(4,2)] show ?case by (simp add: case_prod_beta)
qed simp

text \<open>Resolving a name in the v0.11 package. However the network cuts the answer of the locator,
  once its choke has been read \<open>Resolve\<close> returns the description of the last chunk before it. But
  if the connection is lost before a choke, \<open>Resolve\<close> never returns: reading the closed channel
  gives nil each time, however often, so \<open>NewService\<close> and \<open>Reconnect\<close> do not return either.\<close>

theorem Resolve11_returns:
  assumes "prefix_decoder decode" and "Feed decode unpack [] (concat reads) = Some (Ret (b, ms))"
  shows "(ms = pre @ [Chunk11 i d, Choke11 j] \<and> \<not> list_ex is_choke pre \<longrightarrow>
       Resolve11_loop (Feed decode unpack) uc reads [] res = Some (Ret ((uc d)\<lparr>success := True\<rparr>))) \<and>
    (\<not> list_ex is_choke ms \<longrightarrow> Resolve11_loop (Feed decode unpack) uc (reads @ replicate n []) [] res = None)"
proof (intro conjI impI)
  note empty = quiet_empty [OF assms(1)]
  show "Resolve11_loop (Feed decode unpack) uc reads [] res = Some (Ret ((uc d)\<lparr>success := True\<rparr>))"
    if "ms = pre @ [Chunk11 i d, Choke11 j] \<and> \<not> list_ex is_choke pre"
    using Resolve11_loop_result [OF assms(1) empty, of unpack reads b "pre @ [Chunk11 i d]" j uc res] assms(2) that
    by (simp add: Resolve11_chunk)
  show "Resolve11_loop (Feed decode unpack) uc (reads @ replicate n []) [] res = None" if "\<not> list_ex is_choke ms"
    using Resolve11_loop_append [OF assms(1) empty Resolve11_loop_waits [OF assms(1) empty assms(2) that]] .
qed

definition demo_found :: "slice \<Rightarrow> resolveResult" where
  "demo_found d = \<lparr>success = False, rr_Endpoint = \<lparr>Host = ''h'', Port11 = length (slice_bytes d)\<rparr>, rr_Version = 1, rr_API = []\<rparr>"

theorem Resolve11_returns_witness:
  "Resolve11_loop (Feed demo_decode demo_unpack) demo_found ([[1], [9]] @ replicate 1000 []) [] (demo_found None) = None"
proof -
  obtain b where b: "Feed demo_decode demo_unpack [] (concat [[1], [9]]) = Some (Ret (b, [Chunk11 7 (Some [9])]))"
    by (simp add: Feed_def feed_loop.simps demo_decode_def demo_unpack_def unpackMessage_def unpackers_def type_ids unpack_defs)
  from Resolve11_returns [OF demo_decode_prefix b, of "[]" 0 None 0 demo_found "demo_found None" 1000] show ?thesis
    by simp
qed

end
