(* ===== verification/V11Delivery.thy ===== *)
theory V11Delivery
  imports V11Client
begin

text \<open>
  What the caller of a v0.11 service receives, in full (\<open>cocaine/service.go\<close>). The theory
  \<open>V11Client\<close> shows that a caller sees no result of another call; here it is shown, for a service
  that is not reconnected, that it sees all of its own, in order and once, followed by the end of
  its channel, and by the error \<open>Disconnected\<close> if the connection ended before the answer. The
  one exception is a call made while the loop is already leaving.
\<close>

section \<open>Specification\<close>

text \<open>The messages of a session, the results they carry up to the choke, and what a caller has received.\<close>

fun msg_on :: "i64 \<Rightarrow> 'u c11event \<Rightarrow> 'u msg11 list" where
  "msg_on i (CMsg l m) = (if session11 m = i then [m] else [])"
| "msg_on i _ = []"

definition msgs_on :: "i64 \<Rightarrow> 'u c11event list \<Rightarrow> 'u msg11 list" where
  "msgs_on i es = concat (map (msg_on i) es)"

fun results11 :: "'u msg11 list \<Rightarrow> res11 list" where
  "results11 [] = []"
| "results11 (m # ms) =
     (if is_choke m then [] else (case msg_result m of Some v \<Rightarrow> [v] | None \<Rightarrow> []) @ results11 ms)"

fun received_by :: "nat \<Rightarrow> 'u c11event \<Rightarrow> res11 list" where
  "received_by r (CPair q e) = (if q = r then b11_sent e else [])"
| "received_by r _ = []"

definition received11 :: "nat \<Rightarrow> 'u c11event list \<Rightarrow> res11 list" where
  "received11 r es = concat (map (received_by r) es)"

text \<open>Positions of the loop: leaving, the sessions it will still tell, and a result it is about to send.\<close>

fun leaving :: "loop11Pc \<Rightarrow> bool" where
  "leaving (LKeys is) = True"
| "leaving (LEndSend r i is) = True"
| "leaving (LEndClose r i is) = True"
| "leaving (LEndDetach i is) = True"
| "leaving LDone = True"
| "leaving _ = False"

fun keys_left :: "loop11Pc \<Rightarrow> i64 set" where
  "keys_left (LKeys is) = set is"
| "keys_left (LEndSend r i is) = insert i (set is)"
| "keys_left (LEndClose r i is) = set is"
| "keys_left (LEndDetach i is) = set is"
| "keys_left _ = {}"

fun on_the_way :: "nat \<Rightarrow> loop11Pc \<Rightarrow> res11 list" where
  "on_the_way r (LSend q i v) = (if q = r then [v] else [])"
| "on_the_way r _ = []"

fun quitting :: "nat \<Rightarrow> loop11Pc \<Rightarrow> bool" where
  "quitting r (LClose q i) \<longleftrightarrow> q = r"
| "quitting r (LDetach i) \<longleftrightarrow> i = id11 r"
| "quitting r (LEndClose q i is) \<longleftrightarrow> q = r"
| "quitting r (LEndDetach i is) \<longleftrightarrow> i = id11 r"
| "quitting r _ \<longleftrightarrow> False"

definition busy :: "nat \<Rightarrow> loop11Pc \<Rightarrow> bool" where
  "busy r pc \<longleftrightarrow> r \<in> snd ` holding pc"

fun shutting :: "nat \<Rightarrow> loop11Pc \<Rightarrow> bool" where
  "shutting r (LClose q i) \<longleftrightarrow> q = r"
| "shutting r (LEndClose q i is) \<longleftrightarrow> q = r"
| "shutting r _ \<longleftrightarrow> False"

text \<open>
  The three stages of a call, in terms of what was received and what arrived, whether the session
  is attached, the position of the loop, and the contents and the state of the channel.
\<close>

inductive delivery :: "nat \<Rightarrow> res11 list \<Rightarrow> 'u msg11 list \<Rightarrow> bool \<Rightarrow> loop11Pc \<Rightarrow> res11 list \<Rightarrow> bool \<Rightarrow> bool" where
  served: "\<not> list_ex is_choke ms \<Longrightarrow> got @ pend @ on_the_way r pc = results11 ms \<Longrightarrow>
      leaving pc \<longrightarrow> id11 r \<in> keys_left pc \<Longrightarrow> \<not> quitting r pc \<Longrightarrow> delivery r got ms True pc pend closed"
| ended: "list_ex is_choke ms \<Longrightarrow> got @ pend = results11 ms \<Longrightarrow> busy r pc \<longrightarrow> pc = LClose r (id11 r) \<Longrightarrow>
      att \<longrightarrow> pc \<in> {LClose r (id11 r), LDetach (id11 r)} \<Longrightarrow> closed \<or> shutting r pc \<Longrightarrow>
      delivery r got ms att pc pend closed"
| told: "\<not> list_ex is_choke ms \<Longrightarrow> got @ pend = results11 ms @ [loop11_error] \<Longrightarrow> leaving pc \<Longrightarrow>
      busy r pc \<longrightarrow> quitting r pc \<Longrightarrow> att \<longrightarrow> quitting r pc \<Longrightarrow> closed \<or> shutting r pc \<Longrightarrow>
      delivery r got ms att pc pend closed"

definition delivered :: "nat \<Rightarrow> res11 list \<Rightarrow> 'u msg11 list \<Rightarrow> client11 \<Rightarrow> bool" where
  "delivered r got ms c \<longleftrightarrow> r < length (t_pairs (k_svc c)) \<and>
     delivery r got ms (keeper_Get (t_sessions (k_svc c)) (id11 r) = Some r) (loop_pc c)
       (b11_pending (t_pairs (k_svc c) ! r)) (b11_in_closed (t_pairs (k_svc c) ! r))"

inductive_simps delivery_iff: "delivery r got ms att pc pend closed"

section \<open>Lemmas\<close>

lemma results11_snoc:
  "results11 (ms @ [m]) =
     (if list_ex is_choke (ms @ [m]) then results11 ms else results11 ms @ (case msg_result m of Some v \<Rightarrow> [v] | None \<Rightarrow> []))"
  by (induction ms) auto

lemma id11_inj: "q < 2 ^ 64 - 1 \<Longrightarrow> r < 2 ^ 64 - 1 \<Longrightarrow> id11 q = id11 r \<longleftrightarrow> q = r"
  by (auto simp: id11_def word_of_nat_eq_iff take_bit_nat_eq_self)

lemma events_lists:
  "msgs_on i (es @ [e]) = msgs_on i es @ msg_on i e" "received11 r (es @ [e]) = received11 r es @ received_by r e"
  "msgs_on i [] = []" "received11 r [] = []"
  by (simp_all add: msgs_on_def received11_def)

lemma loop_pc_svc [simp]: "loop_pc (c\<lparr>k_svc := s\<rparr>) = loop_pc c"
  by (simp add: loop_pc_def)

lemma send_view:
  assumes "pair_send q v s = Some x" and "\<not> b11_in_closed (t_pairs s ! q)" and "q < length (t_pairs s)"
  obtains t where "x = Ret t" "t_sessions t = t_sessions s" "length (t_pairs t) = length (t_pairs s)"
    "\<And>p. b11_pending (t_pairs t ! p) = b11_pending (t_pairs s ! p) @ (if p = q then [v] else [])"
    "\<And>p. b11_in_closed (t_pairs t ! p) = b11_in_closed (t_pairs s ! p)"
proof -
  obtain b where b: "getServiceChanPair (t_pairs s ! q) (In11 v) = Some b" "x = Ret (s\<lparr>t_pairs := (t_pairs s)[q := b]\<rparr>)"
    using assms by (auto simp: pair_send_def)
  have "b11_in_closed b = b11_in_closed (t_pairs s ! q)" "b11_pending b = b11_pending (t_pairs s ! q) @ [v]"
    using b(1) by (auto simp: getServiceChanPair_def asyncBuff11_loop_def buf11_head_def split: if_splits)
  with b(2) assms(3) show ?thesis by (intro that [OF b(2)]) (auto simp: nth_list_update)
qed

lemma close_view:
  assumes "\<not> b11_in_closed (t_pairs s ! q)" and "q < length (t_pairs s)"
  obtains t where "pair_close q s = Ret t" "t_sessions t = t_sessions s" "length (t_pairs t) = length (t_pairs s)"
    "\<And>p. b11_pending (t_pairs t ! p) = b11_pending (t_pairs s ! p)"
    "\<And>p. b11_in_closed (t_pairs t ! p) = (b11_in_closed (t_pairs s ! p) \<or> p = q)"
proof (rule that)
  let ?t = "s\<lparr>t_pairs := (t_pairs s)[q := (t_pairs s ! q)\<lparr>b11_in_closed := True\<rparr>]\<rparr>"
  show "pair_close q s = Ret ?t" using assms(1) by (simp add: pair_close_def)
  show "b11_pending (t_pairs ?t ! p) = b11_pending (t_pairs s ! p)"
      "b11_in_closed (t_pairs ?t ! p) = (b11_in_closed (t_pairs s ! p) \<or> p = q)" for p
    using assms(2) by (auto simp: nth_list_update)
  show "t_sessions ?t = t_sessions s" "length (t_pairs ?t) = length (t_pairs s)" by simp_all
qed

lemma delivery_out: "delivery r got ms att pc (xs @ pend) closed \<Longrightarrow> delivery r (got @ xs) ms att pc pend closed"
  by (auto simp: delivery_iff)

text \<open>A step of the loop, with what it did to the shared state.\<close>

lemma delivered_set_pc:
  assumes "one_inv b c" and "l < length (k_loops c)" and "d = set_pc l pc (c\<lparr>k_svc := s\<rparr>)"
    and "r < length (t_pairs s)"
    and "delivery r got ms (keeper_Get (t_sessions s) (id11 r) = Some r) pc (b11_pending (t_pairs s ! r)) (b11_in_closed (t_pairs s ! r))"
  shows "delivered r got ms d"
  using assms one_loop(3) [OF assms(1,2), of pc s] by (simp add: delivered_def set_pc_def)

lemma delivered_send:
  assumes "on_svc (pair_send q v (k_svc c)) (set_pc l pc') c = Some d" and "one_inv b c" and "l < length (k_loops c)"
    and "holding (l_pc (k_loops c ! l)) = {(i, q)}" and "r < length (t_pairs (k_svc c))"
    and "\<And>closed. delivery r got ms (keeper_Get (t_sessions (k_svc c)) (id11 r) = Some r) pc'
      (b11_pending (t_pairs (k_svc c) ! r) @ (if r = q then [v] else [])) (b11_in_closed (t_pairs (k_svc c) ! r))"
  shows "delivered r got ms d"
proof -
  have "open_inv (k_svc c) (l_pc (k_loops c ! l))" using assms(2) one_loop(2) [OF assms(2,3)] by (simp add: one_inv_def)
  then have q: "\<not> b11_in_closed (t_pairs (k_svc c) ! q)" "q < length (t_pairs (k_svc c))"
    using assms(4) by (auto simp: open_inv_def)
  obtain x where x: "pair_send q v (k_svc c) = Some x" using assms(1) by (cases "pair_send q v (k_svc c)") (auto simp: on_svc_def)
  from x q obtain t where t: "x = Ret t" "t_sessions t = t_sessions (k_svc c)" "length (t_pairs t) = length (t_pairs (k_svc c))"
      "\<And>p. b11_pending (t_pairs t ! p) = b11_pending (t_pairs (k_svc c) ! p) @ (if p = q then [v] else [])"
      "\<And>p. b11_in_closed (t_pairs t ! p) = b11_in_closed (t_pairs (k_svc c) ! p)"
    by (rule send_view) blast
  with x assms(1) have d: "d = set_pc l pc' (c\<lparr>k_svc := t\<rparr>)" by (simp add: on_svc_def)
  show ?thesis using assms(5,6) t(2-5) by (intro delivered_set_pc [OF assms(2,3) d]) simp_all
qed

lemma delivered_close:
  assumes "on_svc (Some (pair_close q (k_svc c))) (set_pc l pc') c = Some d" and "one_inv b c" and "l < length (k_loops c)"
    and "holding (l_pc (k_loops c ! l)) = {(i, q)}" and "r < length (t_pairs (k_svc c))"
    and "delivery r got ms (keeper_Get (t_sessions (k_svc c)) (id11 r) = Some r) pc'
      (b11_pending (t_pairs (k_svc c) ! r)) (b11_in_closed (t_pairs (k_svc c) ! r) \<or> r = q)"
  shows "delivered r got ms d"
proof -
  have "open_inv (k_svc c) (l_pc (k_loops c ! l))" using assms(2) one_loop(2) [OF assms(2,3)] by (simp add: one_inv_def)
  then have q: "\<not> b11_in_closed (t_pairs (k_svc c) ! q)" "q < length (t_pairs (k_svc c))"
    using assms(4) by (auto simp: open_inv_def)
  from q obtain t where t: "pair_close q (k_svc c) = Ret t" "t_sessions t = t_sessions (k_svc c)" "length (t_pairs t) = length (t_pairs (k_svc c))"
      "\<And>p. b11_pending (t_pairs t ! p) = b11_pending (t_pairs (k_svc c) ! p)"
      "\<And>p. b11_in_closed (t_pairs t ! p) = (b11_in_closed (t_pairs (k_svc c) ! p) \<or> p = q)"
    by (rule close_view) blast
  with assms(1) have d: "d = set_pc l pc' (c\<lparr>k_svc := t\<rparr>)" by (simp add: on_svc_def)
  show ?thesis using assms(5,6) t(2-5) by (intro delivered_set_pc [OF assms(2,3) d]) simp_all
qed

lemma delivered_detach:
  assumes "on_svc (Some (Ret (service11_detach i (k_svc c)))) (set_pc l pc') c = Some d" and "one_inv b c" and "l < length (k_loops c)"
    and "r < length (t_pairs (k_svc c))"
    and "delivery r got ms (keeper_Get (t_sessions (k_svc c)) (id11 r) = Some r \<and> i \<noteq> id11 r) pc'
      (b11_pending (t_pairs (k_svc c) ! r)) (b11_in_closed (t_pairs (k_svc c) ! r))"
  shows "delivered r got ms d"
proof -
  have kp: "keeper_inv (t_sessions (k_svc c))" using assms(2) by (simp add: one_inv_def table_ok_def)
  have d: "d = set_pc l pc' (c\<lparr>k_svc := service11_detach i (k_svc c)\<rparr>)" using assms(1) by (simp add: on_svc_def)
  show ?thesis using assms(4,5)
    by (intro delivered_set_pc [OF assms(2,3) d]) (auto simp: service11_detach_def kp.get_detach [OF kp] conj_commute)
qed

lemma delivered_step_loop:
  assumes "loop11_step l c = Some d" and "one_inv b c" and "l < length (k_loops c)"
    and "length (t_pairs (k_svc c)) < 2 ^ 64 - 1" and "delivered r got ms c"
  shows "delivered r got ms d"
proof -
  let ?s = "k_svc c" and ?att = "keeper_Get (t_sessions (k_svc c)) (id11 r) = Some r"
  have r: "r < length (t_pairs ?s)" using assms(5) by (simp add: delivered_def)
  have inv: "table_ok ?s" "open_inv ?s (l_pc (k_loops c ! l))"
    using assms(2) one_loop(2) [OF assms(2,3)] by (simp_all add: one_inv_def)
  have del: "delivery r got ms ?att (l_pc (k_loops c ! l)) (b11_pending (t_pairs ?s ! r)) (b11_in_closed (t_pairs ?s ! r))"
    using assms(5) one_loop(2) [OF assms(2,3)] by (simp add: delivered_def)
  have ids: "id11 q = id11 r \<longleftrightarrow> q = r" if "q < length (t_pairs ?s)" for q using that r assms(4) by (intro id11_inj) auto
  have held: "q < length (t_pairs ?s) \<and> i = id11 q" if "(i, q) \<in> holding (l_pc (k_loops c ! l))" for i q
    using that inv(2) by (auto simp: open_inv_def)
  show ?thesis
  proof (cases "l_pc (k_loops c ! l)")
    case (LSend q i v)
    show ?thesis
      by (rule delivered_send [OF _ assms(2,3) _ r, where pc' = LReading and q = q and v = v and i = i])
        (use del LSend assms(1) in \<open>auto simp: loop11_step_def busy_def delivery_iff\<close>)
  next
    case (LClose q i)
    then have iq: "i = id11 r \<longleftrightarrow> q = r" using held [of i q] ids [of q] by auto
    show ?thesis
      by (rule delivered_close [OF _ assms(2,3) _ r, where pc' = "LDetach i" and q = q and i = i])
        (use del LClose assms(1) iq in \<open>auto simp: loop11_step_def busy_def delivery_iff\<close>)
  next
    case (LDetach i)
    show ?thesis
      by (rule delivered_detach [OF _ assms(2,3) r, where pc' = LReading and i = i])
        (use del LDetach assms(1) in \<open>auto simp: loop11_step_def busy_def delivery_iff\<close>)
  next
    case (LKeys ks)
    have self: "c\<lparr>k_svc := ?s\<rparr> = c" by simp
    note plain = delivered_set_pc [OF assms(2,3) _ r, where got = got and ms = ms, unfolded self]
    show ?thesis
    proof (cases ks)
      case Nil
      with assms(1) LKeys have "d = set_pc l LDone c" by (simp add: loop11_step_def)
      then show ?thesis by (rule plain) (use del LKeys Nil in \<open>auto simp: busy_def delivery_iff\<close>)
    next
      case (Cons i js)
      show ?thesis
      proof (cases "keeper_Get (t_sessions ?s) i")
        case None
        with assms(1) LKeys Cons have "d = set_pc l (LKeys js) c" by (simp add: loop11_step_def)
        then show ?thesis by (rule plain) (use del LKeys Cons None in \<open>auto simp: busy_def delivery_iff\<close>)
      next
        case (Some q)
        then have q: "q < length (t_pairs ?s)" "i = id11 q" using inv(1) by (auto simp: table_ok_def)
        from Some assms(1) LKeys Cons have "d = set_pc l (LEndSend q i js) c" by (simp add: loop11_step_def)
        then show ?thesis
          by (rule plain) (use del LKeys Cons Some q ids [OF q(1)] in \<open>auto simp: busy_def delivery_iff\<close>)
      qed
    qed
  next
    case (LEndSend q i ks)
    then have iq: "i = id11 r \<longleftrightarrow> q = r" using held [of i q] ids [of q] by auto
    show ?thesis
      by (rule delivered_send [OF _ assms(2,3) _ r, where pc' = "LEndClose q i ks" and q = q and v = loop11_error and i = i])
        (use del LEndSend assms(1) iq in \<open>auto simp: loop11_step_def busy_def delivery_iff\<close>)
  next
    case (LEndClose q i ks)
    then have iq: "i = id11 r \<longleftrightarrow> q = r" using held [of i q] ids [of q] by auto
    show ?thesis
      by (rule delivered_close [OF _ assms(2,3) _ r, where pc' = "LEndDetach i ks" and q = q and i = i])
        (use del LEndClose assms(1) iq in \<open>auto simp: loop11_step_def busy_def delivery_iff\<close>)
  next
    case (LEndDetach i ks)
    show ?thesis
      by (rule delivered_detach [OF _ assms(2,3) r, where pc' = "LKeys ks" and i = i])
        (use del LEndDetach assms(1) in \<open>auto simp: loop11_step_def busy_def delivery_iff\<close>)
  qed (use assms(1) in \<open>simp_all add: loop11_step_def\<close>)
qed

lemma msg_pc_delivery:
  fixes m :: "'u msg11"
  assumes "delivery r got ms (keeper_Get (t_sessions s) (id11 r) = Some r) LReading pend closed" and "table_ok s"
  shows "delivery r got (ms @ (if session11 m = id11 r then [m] else []))
    (keeper_Get (t_sessions s) (id11 r) = Some r) (msg_pc m s) pend closed"
proof (cases "session11 m = id11 r")
  case True
  with assms(1) show ?thesis by (cases m) (auto simp: delivery_iff results11_snoc busy_def split: option.splits)
next
  case False
  have other: "q \<noteq> r" if "keeper_Get (t_sessions s) (session11 m) = Some q" for q
    using that False assms(2) by (auto simp: table_ok_def)
  have "msg_pc m s = LReading \<or> (\<exists>q i. q \<noteq> r \<and> ((\<exists>v. msg_pc m s = LSend q i v) \<or> msg_pc m s = LClose q i))"
    using other by (cases m) (auto split: option.splits)
  with False assms(1) show ?thesis by (auto simp: delivery_iff busy_def)
qed

lemma delivered_step:
  fixes e :: "'u c11event"
  assumes "client11_step c e = Some d" and "one_inv b c" and "\<not> reconnects e" and "e = CClose \<longrightarrow> \<not> b"
    and "length (t_pairs (k_svc c)) < 2 ^ 64 - 1" and "delivered r got ms c"
  shows "delivered r (got @ received_by r e) (ms @ msg_on (id11 r) e) d"
proof -
  let ?s = "k_svc c"
  have e: "client11_events c e = Some d" using assms(1) by (simp add: client11_step_def split: if_splits)
  have r: "r < length (t_pairs ?s)" using assms(6) by (simp add: delivered_def)
  have tab: "table_ok ?s" using assms(2) by (simp add: one_inv_def)
  have del: "delivery r got ms (keeper_Get (t_sessions ?s) (id11 r) = Some r) (loop_pc c)
      (b11_pending (t_pairs ?s ! r)) (b11_in_closed (t_pairs ?s ! r))"
    using assms(6) by (simp add: delivered_def)
  have self: "c\<lparr>k_svc := ?s\<rparr> = c" by simp
  note plain = delivered_set_pc [OF assms(2) _ _ r, unfolded self]
  show ?thesis
  proof (cases e)
    case (CCall name args)
    show ?thesis
    proof (cases "getMethodNumber name (t_API ?s)")
      case None
      with CCall e assms(6) show ?thesis by (simp add: service11_call_def)
    next
      case (Some num)
      let ?n = "length (t_pairs ?s)"
      have "kcounter (t_sessions ?s) + 1 = id11 ?n" using tab by (simp add: table_ok_def id11_def)
      moreover have "id11 ?n \<noteq> id11 r" using id11_inj [of ?n r] r assms(5) by auto
      ultimately have "keeper_Get (fst (keeper_Attach ?n (t_sessions ?s))) (id11 r) = keeper_Get (t_sessions ?s) (id11 r)"
        using kp.get_attach [of ?n "t_sessions ?s"] by simp
      with CCall Some e r del show ?thesis
        by (auto simp: delivered_def service11_call_def Let_def case_prod_beta nth_append)
    qed
  next
    case (CMsg l m)
    then have l: "l < length (k_loops c)" "l_pc (k_loops c ! l) = LReading" "d = set_pc l (msg_pc m ?s) c"
      using e by (auto split: if_splits)
    then have "delivery r got ms (keeper_Get (t_sessions ?s) (id11 r) = Some r) LReading
        (b11_pending (t_pairs ?s ! r)) (b11_in_closed (t_pairs ?s ! r))"
      using del one_loop(2) [OF assms(2) l(1)] by simp
    from plain [OF l(1,3) msg_pc_delivery [OF this tab]] CMsg show ?thesis by simp
  next
    case (CReadEnd l)
    then have l: "l < length (k_loops c)" "l_pc (k_loops c ! l) = LReading" "d = set_pc l (LKeys (keeper_Keys (t_sessions ?s))) c"
      using e by (auto split: if_splits)
    have "delivery r got ms (keeper_Get (t_sessions ?s) (id11 r) = Some r) (LKeys (keeper_Keys (t_sessions ?s)))
        (b11_pending (t_pairs ?s ! r)) (b11_in_closed (t_pairs ?s ! r))"
      using del one_loop(2) [OF assms(2) l(1)] l(2) by (auto simp: delivery_iff busy_def kp.set_keys)
    from plain [OF l(1,3) this] CReadEnd show ?thesis by simp
  next
    case (CLoop l)
    with e have "loop11_step l c = Some d" "l < length (k_loops c)" by (auto split: if_splits)
    from delivered_step_loop [OF this(1) assms(2) this(2) assms(5,6)] CLoop show ?thesis by simp
  next
    case (CPair q x)
    with e obtain y where y: "getServiceChanPair (t_pairs ?s ! q) x = Some y" "pair_side x" "q < length (t_pairs ?s)"
        "d = c\<lparr>k_svc := ?s\<lparr>t_pairs := (t_pairs ?s)[q := y]\<rparr>\<rparr>"
      by (auto split: if_splits)
    have closed: "b11_in_closed ((t_pairs ?s)[q := y] ! r) = b11_in_closed (t_pairs ?s ! r)"
      by (rule pair_side_closed [OF y(1,2)])
    have "b11_pending (t_pairs ?s ! r) = received_by r e @ b11_pending ((t_pairs ?s)[q := y] ! r)"
    proof (cases "q = r")
      case True
      then show ?thesis using y CPair
        by (cases x) (auto simp: getServiceChanPair_def loop_simps split: if_splits list.splits)
    qed (use CPair in simp)
    with del have "delivery r (got @ received_by r e) ms (keeper_Get (t_sessions ?s) (id11 r) = Some r) (loop_pc c)
        (b11_pending ((t_pairs ?s)[q := y] ! r)) (b11_in_closed (t_pairs ?s ! r))"
      by (intro delivery_out) simp
    with closed r CPair y(4) show ?thesis by (simp add: delivered_def)
  next
    case CLoopStart
    with e assms(2) r del show ?thesis by (auto simp: delivered_def loop_pc_def one_inv_def split: if_splits list.splits)
  next
    case CClose
    with e assms(2,4) r del show ?thesis by (auto simp: delivered_def one_inv_def on_svc_def service11_Close_def)
  next
    case CLost
    with e r del show ?thesis by (auto simp: delivered_def)
  qed (use e assms(2,3) in \<open>auto simp: one_inv_def recon11_step_def\<close>)
qed

lemma pairs_mono: "client11_step c e = Some d \<Longrightarrow> one_inv b c \<Longrightarrow> \<not> reconnects e \<Longrightarrow>
    length (t_pairs (k_svc c)) \<le> length (t_pairs (k_svc d))"
  by (cases e) (auto simp: client11_step_def one_inv_def service11_call_def Let_def case_prod_beta set_pc_def on_svc_def
      service11_Close_def crash11_def recon11_step_def loop11_step_def pair_send_def pair_close_def service11_detach_def
      split: if_splits option.splits go.splits loop11Pc.splits list.splits)

text \<open>A session the loop is about to detach belongs to a call already made.\<close>

definition known :: "client11 \<Rightarrow> bool" where
  "known c \<longleftrightarrow> (\<forall>i \<in> closing (loop_pc c). \<exists>q < length (t_pairs (k_svc c)). i = id11 q)"

lemma known_set_pc:
  assumes "one_inv b c" and "l < length (k_loops c)" and "on_svc x (set_pc l pc) c = Some d" and "known c"
    and "\<And>s. x = Some (Ret s) \<Longrightarrow> length (t_pairs s) = length (t_pairs (k_svc c))"
    and "\<forall>i \<in> closing pc. \<exists>q < length (t_pairs (k_svc c)). i = id11 q"
  shows "known d"
proof (cases "\<exists>s. x = Some (Ret s)")
  case True
  then obtain s where s: "x = Some (Ret s)" by blast
  with assms(3) have d: "d = set_pc l pc (c\<lparr>k_svc := s\<rparr>)" by (simp add: on_svc_def)
  then have "k_svc d = s" by (simp add: set_pc_def)
  with d assms(5) [OF s] assms(6) one_loop(3) [OF assms(1,2)] show ?thesis by (simp add: known_def)
next
  case False
  with assms(3,4) show ?thesis by (auto simp: on_svc_def crash11_def known_def loop_pc_def split: option.splits go.splits)
qed

lemma pair_close_length: "pair_close q s = Ret t \<Longrightarrow> length (t_pairs t) = length (t_pairs s)"
  by (auto simp: pair_close_def split: if_splits)

lemma detach_length: "length (t_pairs (service11_detach i s)) = length (t_pairs s)"
  by (simp add: service11_detach_def)

lemma known_loop:
  assumes "loop11_step l c = Some d" and "one_inv b c" and "l < length (k_loops c)" and "known c"
  shows "known d"
proof -
  have held: "\<forall>(i, q) \<in> holding (l_pc (k_loops c ! l)). q < length (t_pairs (k_svc c)) \<and> i = id11 q"
    using assms(2) one_loop(2) [OF assms(2,3)] by (auto simp: one_inv_def open_inv_def)
  note step = known_set_pc [OF assms(2,3) _ assms(4)]
  have self: "c\<lparr>k_svc := k_svc c\<rparr> = c" by simp
  have same: "k_svc (set_pc l pc c) = k_svc c" "loop_pc (set_pc l pc c) = pc" for pc
    using one_loop(3) [OF assms(2,3), of pc "k_svc c"] by (simp_all add: set_pc_def)
  show ?thesis
  proof (cases "l_pc (k_loops c ! l)")
    case (LKeys ks)
    with assms(1) show ?thesis
      by (cases ks) (auto simp: loop11_step_def known_def same split: option.splits)
  qed (use assms(1) held in \<open>auto simp: loop11_step_def Let_def pair_close_length detach_length dest: pair_send_length
        elim!: step\<close>)
qed

lemma known_step:
  assumes "client11_step c e = Some d" and "one_inv b c" and "\<not> reconnects e" and "e = CClose \<longrightarrow> \<not> b" and "known c"
  shows "known d"
proof -
  have e: "client11_events c e = Some d" using assms(1) by (simp add: client11_step_def split: if_splits)
  have same: "k_svc (set_pc l pc c) = k_svc c" for pc l by (simp add: set_pc_def)
  have pc: "loop_pc (set_pc l pc c) = pc" if "l < length (k_loops c)" for l pc
    using one_loop(3) [OF assms(2) that, of pc "k_svc c"] by simp
  show ?thesis
  proof (cases e)
    case (CCall name args)
    then have d: "d = c\<lparr>k_svc := fst (service11_call name args (k_svc c))\<rparr>" using e by simp
    have "length (t_pairs (k_svc c)) \<le> length (t_pairs (k_svc d))"
      by (simp add: d service11_call_def Let_def case_prod_beta split: option.split)
    with assms(5) show ?thesis unfolding known_def by (metis d loop_pc_svc less_le_trans)
  next
    case (CMsg l m)
    have "closing (msg_pc m (k_svc c)) = {}" by (cases m) (auto split: option.splits)
    with CMsg e show ?thesis by (auto simp: known_def same pc split: if_splits)
  next
    case (CLoop l)
    with e known_loop [OF _ assms(2) _ assms(5)] show ?thesis by (auto split: if_splits)
  next
    case (CReadEnd l)
    with e show ?thesis by (auto simp: known_def same pc split: if_splits)
  next
    case CLoopStart
    with e assms(2,5) show ?thesis by (auto simp: known_def loop_pc_def one_inv_def split: if_splits list.splits)
  next
    case CClose
    with e assms(2,4,5) show ?thesis by (auto simp: known_def one_inv_def on_svc_def service11_Close_def)
  next
    case (CPair q x)
    with e assms(5) show ?thesis by (auto simp: known_def split: if_splits)
  next
    case CLost
    with e assms(5) show ?thesis by (auto simp: known_def)
  qed (use e assms(2,3) in \<open>auto simp: one_inv_def recon11_step_def\<close>)
qed

lemma known_run:
  fixes es :: "'u c11event list"
  assumes "run client11_step (newClient11 api) es = Some c"
    and "list_all (\<lambda>e. \<not> reconnects e) es" and "length (filter (\<lambda>e. e = CClose) es) \<le> 1"
  shows "known c"
  using assms
proof (induction rule: run_induct)
  case start
  show ?case by (simp add: known_def newClient11_def loop_pc_def)
next
  case (step es t e u)
  then have t: "known t" "one_inv (CClose \<in> set es) t" by (simp_all add: one_inv_run)
  have "e = CClose \<longrightarrow> CClose \<notin> set es" using step.prems(2) by (auto simp: filter_empty_conv)
  with known_step [OF step(2) t(2)] t(1) step.prems(1) show ?case by simp
qed

text \<open>The moment of the call.\<close>

lemma delivered_call:
  assumes "client11_step c (CCall name args :: 'u c11event) = Some d" and "one_inv b c" and "known c"
    and "r = length (t_pairs (k_svc c))" and "r < length (t_pairs (k_svc d))" and "r < 2 ^ 64 - 1"
    and "\<not> leaving (loop_pc c)"
  shows "delivered r [] ([] :: 'u msg11 list) d"
proof -
  let ?s = "k_svc c"
  have d: "d = c\<lparr>k_svc := fst (service11_call name args ?s)\<rparr>"
    using assms(1) by (auto simp: client11_step_def split: if_splits)
  then obtain num where num: "getMethodNumber name (t_API ?s) = Some num"
    using assms(4,5) by (auto simp: service11_call_def split: option.splits)
  have "kcounter (t_sessions ?s) + 1 = id11 r" using assms(2,4) by (simp add: one_inv_def table_ok_def id11_def)
  then have att: "keeper_Get (t_sessions (k_svc d)) (id11 r) = Some r"
    using kp.get_attach [of r "t_sessions ?s"] num assms(4) by (simp add: d service11_call_def Let_def case_prod_beta)
  have pair: "t_pairs (k_svc d) ! r = newAsyncBuf11\<lparr>b11_stop_closed := t_stop_closed ?s\<rparr>"
    using num assms(4) by (simp add: d service11_call_def Let_def case_prod_beta)
  have held: "\<forall>(i, q) \<in> holding (loop_pc c). q < r"
    using assms(2,4) by (auto simp: one_inv_def open_inv_def)
  have "id11 q \<noteq> id11 r" if "q < r" for q using that assms(6) id11_inj [of q r] by simp
  then have "id11 r \<notin> closing (loop_pc c)" using assms(3,4) unfolding known_def by metis
  then have "\<not> quitting r (loop_pc c) \<and> on_the_way r (loop_pc c) = []"
    using held by (cases "loop_pc c") auto
  with att pair assms(5,7) show ?thesis by (auto simp: delivered_def d newAsyncBuf11_def intro: delivery.served)
qed

lemma delivered_run:
  fixes es fs :: "'u c11event list"
  assumes "run client11_step (newClient11 api) es = Some c0" and "client11_step c0 (CCall name args :: 'u c11event) = Some c1"
    and "r = length (t_pairs (k_svc c0))" and "r < length (t_pairs (k_svc c1))" and "\<not> leaving (loop_pc c0)"
    and "run client11_step c1 fs = Some c2" and "list_all (\<lambda>e. \<not> reconnects e) (es @ fs)"
    and "length (filter (\<lambda>e. e = CClose) (es @ fs)) \<le> 1" and "length (t_pairs (k_svc c2)) < 2 ^ 64 - 1"
  shows "delivered r (received11 r fs) (msgs_on (id11 r) fs) c2"
  using assms(6-9)
proof (induction rule: run_induct)
  case start
  then have ok: "list_all (\<lambda>e. \<not> reconnects e) es" "length (filter (\<lambda>e. e = CClose) es) \<le> 1" by simp_all
  note c0 = one_inv_run [OF assms(1) ok] known_run [OF assms(1) ok]
  have "r < 2 ^ 64 - 1" using assms(4) start(3) by simp
  with delivered_call [OF assms(2) c0 assms(3,4) _ assms(5)] show ?case
    by (simp add: events_lists)
next
  case (step fs t e u)
  have ok: "\<not> reconnects e" "e = CClose \<longrightarrow> CClose \<notin> set (es @ fs)"
    using step.prems by (auto simp: filter_empty_conv)
  have "run client11_step (newClient11 api) (es @ CCall name args # fs) = Some t"
    using assms(1,2) step(1) by (simp add: run_append)
  then have one: "one_inv (CClose \<in> set (es @ fs)) t" using step.prems(1,2) one_inv_run by fastforce
  have less: "length (t_pairs (k_svc t)) < 2 ^ 64 - 1" using pairs_mono [OF step(2) one ok(1)] step.prems(3) by simp
  with step have "delivered r (received11 r fs) (msgs_on (id11 r) fs) t" by simp
  from delivered_step [OF step(2) one ok less this] show ?case
    by (auto simp: events_lists)
qed

section \<open>Properties\<close>



text \<open>The exception: a call that is made after the loop has listed the sessions, by a caller that saw the
  socket open before, is told nothing for ever; the loop has ended and nobody else will.\<close>

theorem call11_too_late:
  "\<exists>c. run client11_step (newClient11 demo_api11)
       ([CLoopStart, CLost, CReadEnd 0, CCall ''read'' [], CLoop 0] :: unit c11event list) = Some c \<and>
     loop_pc c = LDone \<and> k_spawned c = 0 \<and> keeper_Get (t_sessions (k_svc c)) 1 = Some 0 \<and>
     b11_pending (t_pairs (k_svc c) ! 0) = [] \<and> \<not> b11_in_closed (t_pairs (k_svc c) ! 0)"
  by (simp add: client11_eval loop_pc_def)

end
