(* ===== verification/V11Reconnect.thy ===== *)
theory V11Reconnect
  imports V11Client
begin

text \<open>
  Any number of goroutines that call \<open>Reconnect\<close> of one v0.11 service at the same time
  (\<open>cocaine/service.go\<close>; \<open>Logger.Reconnect\<close> in \<open>cocaine/logger.go\<close> has the same frame). The method is cut
  at its accesses to the flag \<open>is_reconnecting\<close>, the mutex and the socket; what it does to the
  sessions in between is the program of \<open>V11Client\<close>, which has one position for it because, as is
  shown here, only one goroutine at a time is ever there. A call of \<open>Close\<close> is one step.
\<close>

section \<open>The goroutines\<close>

text \<open>Where a goroutine is in \<open>Reconnect(force)\<close>.\<close>

datatype rcPc =
    RcOut
  | RcCheck bool \<comment> \<open>\<open>if !service.is_reconnecting\<close>, without the mutex\<close>
  | RcLock bool
  | RcHeld bool \<comment> \<open>\<open>if service.is_reconnecting\<close>, with the mutex\<close>
  | RcTest bool \<comment> \<open>the flag is set; the socket is looked at unless forced\<close>
  | RcWork bool \<comment> \<open>sessions are told, the name is resolved, a socket connected\<close>
  | RcReset reconnect11 \<comment> \<open>the deferred function\<close>
  | RcUnlock reconnect11
  | RcRet reconnect11

record rcState =
  rc_flag :: bool
  rc_owner :: "nat option"
  rc_closed :: bool
  rc_stop_closed :: bool \<comment> \<open>the channel \<open>stop\<close> of the service\<close>
  rc_crash :: "panic option"
  rc_replaced :: nat \<comment> \<open>how often the socket has been replaced\<close>
  rc_pc :: "nat \<Rightarrow> rcPc"

definition newRc :: rcState where
  "newRc = \<lparr>rc_flag = False, rc_owner = None, rc_closed = False, rc_stop_closed = False, rc_crash = None, rc_replaced = 0, rc_pc = (\<lambda>_. RcOut)\<rparr>"

definition rc_goto :: "nat \<Rightarrow> rcPc \<Rightarrow> rcState \<Rightarrow> rcState" where
  "rc_goto n pc s = s\<lparr>rc_pc := (rc_pc s)(n := pc)\<rparr>"

datatype rcEvent =
    RcCall nat bool
  | RcStep nat
  | RcConnect nat "goerr option"
  | RcLost \<comment> \<open>the network closes the socket\<close>
  | RcClose \<comment> \<open>the program calls \<open>Close\<close>\<close>

text \<open>\<open>Close\<close> closes the channel \<open>stop\<close>, once, and the socket; the end of \<open>Reconnect\<close> calls it and makes new ones.\<close>

definition rc_Close :: "rcState \<Rightarrow> rcState" where
  "rc_Close s = (if rc_stop_closed s then s\<lparr>rc_crash := Some CloseOfClosed\<rparr> else s\<lparr>rc_stop_closed := True, rc_closed := True\<rparr>)"

definition rc_renew :: "rcState \<Rightarrow> rcState" where
  "rc_renew s = (let t = rc_Close s in
     if rc_crash t \<noteq> None then t else t\<lparr>rc_stop_closed := False, rc_closed := False, rc_replaced := rc_replaced t + 1\<rparr>)"

fun rc_move :: "rcState \<Rightarrow> rcEvent \<Rightarrow> rcState option" where
  "rc_move s (RcCall n force) =
     (case rc_pc s n of
        RcOut \<Rightarrow> Some (rc_goto n (RcCheck force) s)
      | RcRet r \<Rightarrow> Some (rc_goto n (RcCheck force) s)
      | _ \<Rightarrow> None)"
| "rc_move s (RcStep n) =
     (case rc_pc s n of
        RcCheck force \<Rightarrow> Some (rc_goto n (if rc_flag s then RcRet AlreadyReconnecting else RcLock force) s)
      | RcLock force \<Rightarrow>
          (if rc_owner s = None then Some (rc_goto n (RcHeld force) (s\<lparr>rc_owner := Some n\<rparr>)) else None)
      | RcHeld force \<Rightarrow>
          Some (if rc_flag s then rc_goto n (RcUnlock AlreadyReconnecting) s
                else rc_goto n (RcTest force) (s\<lparr>rc_flag := True\<rparr>))
      | RcTest force \<Rightarrow>
          Some (rc_goto n (if \<not> force \<and> \<not> rc_closed s then RcReset AlreadyConnected else RcWork force) s)
      | RcReset r \<Rightarrow> Some (rc_goto n (RcUnlock r) (s\<lparr>rc_flag := False\<rparr>))
      | RcUnlock r \<Rightarrow> Some (rc_goto n (RcRet r) (s\<lparr>rc_owner := None\<rparr>))
      | _ \<Rightarrow> None)"
| "rc_move s (RcConnect n err) =
     (case rc_pc s n of
        RcWork force \<Rightarrow>
          Some (case err of
                  Some e \<Rightarrow> rc_goto n (RcReset (ReconnectFailed e)) s
                | None \<Rightarrow> rc_goto n (RcReset Reconnected) (rc_renew s))
      | _ \<Rightarrow> None)"
| "rc_move s RcLost = Some (s\<lparr>rc_closed := True\<rparr>)"
| "rc_move s RcClose = Some (rc_Close s)"

definition rc_step :: "rcState \<Rightarrow> rcEvent \<Rightarrow> rcState option" where
  "rc_step s e = (if rc_crash s \<noteq> None then None else rc_move s e)"

section \<open>The invariant\<close>

fun holds_lock :: "rcPc \<Rightarrow> bool" where
  "holds_lock (RcHeld f) = True"
| "holds_lock (RcTest f) = True"
| "holds_lock (RcWork f) = True"
| "holds_lock (RcReset r) = True"
| "holds_lock (RcUnlock r) = True"
| "holds_lock _ = False"

fun holds_flag :: "rcPc \<Rightarrow> bool" where
  "holds_flag (RcTest f) = True"
| "holds_flag (RcWork f) = True"
| "holds_flag (RcReset r) = True"
| "holds_flag _ = False"

definition rc_inv :: "rcState \<Rightarrow> bool" where
  "rc_inv s \<longleftrightarrow> (\<forall>n. holds_lock (rc_pc s n) \<longleftrightarrow> rc_owner s = Some n) \<and>
     (rc_flag s \<longleftrightarrow> (\<exists>n. holds_flag (rc_pc s n))) \<and>
     (\<forall>n. rc_pc s n = RcWork False \<longrightarrow> rc_closed s)"

lemma holds_flag_lock: "holds_flag pc \<Longrightarrow> holds_lock pc"
  by (cases pc) simp_all

lemma rc_owner_unique: "rc_inv s \<Longrightarrow> holds_lock (rc_pc s m) \<Longrightarrow> holds_lock (rc_pc s n) \<Longrightarrow> m = n"
  by (auto simp: rc_inv_def)

lemma rc_holder: "rc_inv s \<Longrightarrow> holds_lock (rc_pc s n) \<Longrightarrow> rc_owner s = Some n"
  by (auto simp: rc_inv_def)

lemma rc_flagged: "rc_inv s \<Longrightarrow> holds_flag (rc_pc s n) \<Longrightarrow> rc_flag s"
  unfolding rc_inv_def by blast

lemma rc_unflagged:
  assumes "rc_inv s" and "holds_lock (rc_pc s n)" and "\<not> holds_flag (rc_pc s n)"
  shows "\<not> rc_flag s"
  using assms rc_owner_unique holds_flag_lock unfolding rc_inv_def by metis

lemma rc_goto_simps [simp]:
  "rc_pc (rc_goto n pc s) = (rc_pc s)(n := pc)" "rc_flag (rc_goto n pc s) = rc_flag s" "rc_owner (rc_goto n pc s) = rc_owner s"
  "rc_closed (rc_goto n pc s) = rc_closed s" "rc_replaced (rc_goto n pc s) = rc_replaced s"
  "rc_stop_closed (rc_goto n pc s) = rc_stop_closed s" "rc_crash (rc_goto n pc s) = rc_crash s"
  by (simp_all add: rc_goto_def)

lemma rc_Close_simps [simp]:
  "rc_pc (rc_Close s) = rc_pc s" "rc_flag (rc_Close s) = rc_flag s" "rc_owner (rc_Close s) = rc_owner s"
  "rc_pc (rc_renew s) = rc_pc s" "rc_flag (rc_renew s) = rc_flag s" "rc_owner (rc_renew s) = rc_owner s"
  by (simp_all add: rc_Close_def rc_renew_def Let_def)

lemma rc_step_move: "rc_step s e = Some t \<longleftrightarrow> rc_crash s = None \<and> rc_move s e = Some t"
  by (simp add: rc_step_def)

text \<open>A step of the goroutine that holds the lock: the others hold neither the lock nor the flag.\<close>

lemma rc_inv_owner:
  assumes "rc_inv s" and "holds_lock (rc_pc s n)"
    and "rc_pc t = (rc_pc s)(n := pc)" and "rc_owner t = (if holds_lock pc then Some n else None)"
    and "rc_flag t = holds_flag pc" and "pc = RcWork False \<longrightarrow> rc_closed t"
  shows "rc_inv t"
proof -
  have others: "\<not> holds_lock (rc_pc s m)" if "m \<noteq> n" for m using that rc_owner_unique [OF assms(1,2)] by blast
  then have "\<not> holds_flag (rc_pc s m)" "rc_pc s m \<noteq> RcWork f" if "m \<noteq> n" for m f using that holds_flag_lock by force+
  with others assms(3-6) show ?thesis by (auto simp: rc_inv_def)
qed

lemma rc_inv_outside:
  assumes "rc_inv s" and "\<not> holds_lock (rc_pc s n)" and "\<not> holds_lock pc"
  shows "rc_inv (rc_goto n pc s)"
proof -
  have "\<not> holds_flag (rc_pc s n)" "\<not> holds_flag pc" using assms(2,3) holds_flag_lock by blast+
  then have flag: "(\<exists>m. holds_flag (((rc_pc s)(n := pc)) m)) \<longleftrightarrow> (\<exists>m. holds_flag (rc_pc s m))" by (metis fun_upd_apply)
  have lock: "holds_lock (((rc_pc s)(n := pc)) m) \<longleftrightarrow> holds_lock (rc_pc s m)" for m using assms(2,3) by simp
  have "((rc_pc s)(n := pc)) m = RcWork False \<Longrightarrow> rc_pc s m = RcWork False" for m using assms(3) by (cases "m = n") auto
  with assms(1) show ?thesis unfolding rc_inv_def rc_goto_simps lock flag by blast
qed

lemma rc_inv_move:
  assumes "rc_move s e = Some t" and "rc_inv s"
  shows "rc_inv t"
proof (cases e)
  case (RcCall n force)
  with assms rc_inv_outside [OF assms(2), of n "RcCheck force"] show ?thesis by (auto split: rcPc.splits)
next
  case (RcStep n)
  show ?thesis
  proof (cases "rc_pc s n")
    case (RcCheck force)
    with RcStep assms rc_inv_outside [OF assms(2), of n] show ?thesis by (auto split: if_splits)
  next
    case (RcLock force)
    with RcStep assms(1) have t: "rc_owner s = None" "t = rc_goto n (RcHeld force) (s\<lparr>rc_owner := Some n\<rparr>)"
      by (auto split: if_splits)
    then have "\<not> holds_lock (rc_pc s m)" for m using assms(2) by (simp add: rc_inv_def)
    moreover from this have "\<not> holds_flag (rc_pc s m)" for m using holds_flag_lock by blast
    moreover from calculation(1) have "rc_pc s m \<noteq> RcWork f" for m f by (metis holds_lock.simps(3))
    ultimately show ?thesis using assms(2) by (auto simp: rc_inv_def t(2))
  next
    case (RcHeld force)
    with rc_unflagged [OF assms(2), of n] have "\<not> rc_flag s" by simp
    with RcHeld RcStep assms(1) rc_holder [OF assms(2), of n] show ?thesis
      by (intro rc_inv_owner [OF assms(2), of n _ "RcTest force"]) auto
  next
    case (RcTest force)
    with RcStep assms(1) rc_flagged [OF assms(2), of n] rc_holder [OF assms(2), of n] show ?thesis
      by (intro rc_inv_owner [OF assms(2), of n _ "if \<not> force \<and> \<not> rc_closed s then RcReset AlreadyConnected else RcWork force"]) auto
  next
    case (RcReset r)
    with RcStep assms(1) rc_holder [OF assms(2), of n] show ?thesis
      by (intro rc_inv_owner [OF assms(2), of n _ "RcUnlock r"]) auto
  next
    case (RcUnlock r)
    with RcStep assms(1) rc_unflagged [OF assms(2), of n] show ?thesis
      by (intro rc_inv_owner [OF assms(2), of n _ "RcRet r"]) auto
  qed (use RcStep assms(1) in simp_all)
next
  case (RcConnect n err)
  with assms(1) obtain force where pc: "rc_pc s n = RcWork force" by (auto split: rcPc.splits)
  moreover have "rc_flag s" "rc_owner s = Some n" using pc rc_flagged [OF assms(2), of n] rc_holder [OF assms(2), of n] by simp_all
  ultimately show ?thesis using RcConnect assms
    by (intro rc_inv_owner [OF assms(2), of n _ "RcReset (case err of Some e \<Rightarrow> ReconnectFailed e | None \<Rightarrow> Reconnected)"])
      (auto split: option.splits)
next
  case RcLost
  with assms show ?thesis by (auto simp: rc_inv_def)
next
  case RcClose
  then have "t = rc_Close s" using assms(1) by simp
  moreover have "rc_closed s \<longrightarrow> rc_closed (rc_Close s)" by (simp add: rc_Close_def)
  ultimately show ?thesis using assms(2) by (auto simp: rc_inv_def)
qed

lemma rc_inv_step: "rc_step s e = Some t \<Longrightarrow> rc_inv s \<Longrightarrow> rc_inv t"
  by (auto simp: rc_step_move intro: rc_inv_move)

lemma rc_inv_new: "rc_inv newRc"
  by (simp add: rc_inv_def newRc_def)

lemma rc_inv_run: "run rc_step newRc es = Some s \<Longrightarrow> rc_inv s"
  using run_invariant [of rc_inv rc_step] rc_inv_step rc_inv_new by blast

section \<open>Replacing the socket\<close>

text \<open>A call that is not forced replaces a socket only after it has been lost, and once.\<close>

fun unforced :: "rcPc \<Rightarrow> bool" where
  "unforced (RcCheck f) = (\<not> f)"
| "unforced (RcLock f) = (\<not> f)"
| "unforced (RcHeld f) = (\<not> f)"
| "unforced (RcTest f) = (\<not> f)"
| "unforced (RcWork f) = (\<not> f)"
| "unforced _ = True"

lemma unforced_move:
  assumes "rc_move s e = Some t" and "\<forall>n. unforced (rc_pc s n)" and "\<forall>n. e \<noteq> RcCall n True"
  shows "\<forall>n. unforced (rc_pc t n)"
proof (cases e)
  case (RcStep n)
  with assms(1) spec [OF assms(2), of n] show ?thesis using assms(2) by (cases "rc_pc s n") (auto split: if_splits)
qed (use assms in \<open>auto split: rcPc.splits option.splits\<close>)

definition losses :: "rcEvent list \<Rightarrow> nat" where
  "losses es = length (filter (\<lambda>e. e = RcLost \<or> e = RcClose) es)"

definition to_replace :: "rcState \<Rightarrow> nat" where
  "to_replace s = (if rc_closed s then 1 else 0)"

lemma replaced_move:
  assumes "rc_move s e = Some t" and "rc_inv s" and "\<forall>n. unforced (rc_pc s n)"
  shows "rc_replaced t + to_replace t \<le> rc_replaced s + to_replace s + losses [e]"
proof (cases e)
  case (RcConnect n err)
  with assms(1) obtain force where pc: "rc_pc s n = RcWork force" by (auto split: rcPc.splits)
  then have "rc_closed s" using assms(2) spec [OF assms(3), of n] by (cases force) (auto simp: rc_inv_def)
  with RcConnect pc assms(1) show ?thesis by (auto simp: to_replace_def rc_renew_def rc_Close_def Let_def split: option.splits)
qed (use assms(1) in \<open>auto simp: to_replace_def losses_def rc_Close_def split: rcPc.splits if_splits\<close>)

lemma replaced_run:
  assumes "run rc_step newRc es = Some s" and "\<forall>n. RcCall n True \<notin> set es"
  shows "(\<forall>n. unforced (rc_pc s n)) \<and> rc_replaced s + to_replace s \<le> losses es"
  using assms
proof (induction rule: run_induct)
  case start
  show ?case by (simp add: newRc_def to_replace_def)
next
  case (step es t e u)
  then have IH: "\<forall>n. unforced (rc_pc t n)" "rc_replaced t + to_replace t \<le> losses es" and e: "\<forall>n. e \<noteq> RcCall n True" by auto
  have "losses (es @ [e]) = losses es + losses [e]" by (simp add: losses_def)
  moreover have move: "rc_move t e = Some u" using step(2) by (simp add: rc_step_move)
  ultimately show ?case
    using IH replaced_move [OF move rc_inv_run [OF step(1)] IH(1)] unforced_move [OF move IH(1) e] by simp
qed

text \<open>Only a program that calls \<open>Close\<close> can see its service panic.\<close>

lemma open_move:
  assumes "rc_move s e = Some t" and "e \<noteq> RcClose" and "\<not> rc_stop_closed s" and "rc_crash s = None"
  shows "\<not> rc_stop_closed t \<and> rc_crash t = None"
proof (cases e)
  case (RcStep n)
  with assms show ?thesis by (cases "rc_pc s n") (auto split: if_splits)
qed (use assms in \<open>auto simp: rc_renew_def rc_Close_def Let_def split: rcPc.splits option.splits\<close>)

lemma open_run:
  assumes "run rc_step newRc es = Some s" and "RcClose \<notin> set es"
  shows "\<not> rc_stop_closed s \<and> rc_crash s = None"
  using assms
proof (induction rule: run_induct)
  case start
  show ?case by (simp add: newRc_def)
next
  case (step es t e u)
  then have "e \<noteq> RcClose" "\<not> rc_stop_closed t \<and> rc_crash t = None" "rc_move t e = Some u" by (auto simp: rc_step_move)
  with open_move show ?case by blast
qed

section \<open>Getting out of the lock\<close>

text \<open>Whoever waits for the mutex waits for a goroutine that can move.\<close>

definition at_rest :: "rcPc \<Rightarrow> bool" where
  "at_rest pc \<longleftrightarrow> pc = RcOut \<or> (\<exists>r. pc = RcRet r)"

lemma holder_moves:
  assumes "holds_lock (rc_pc s n)" and "rc_crash s = None"
  shows "rc_step s (RcStep n) \<noteq> None \<or> (\<forall>err. rc_step s (RcConnect n err) \<noteq> None)"
  using assms by (cases "rc_pc s n") (auto simp: rc_step_def)

lemma someone_moves:
  assumes "rc_inv s" and "\<not> at_rest (rc_pc s n)" and "rc_crash s = None"
  shows "\<exists>m. rc_step s (RcStep m) \<noteq> None \<or> (\<forall>err. rc_step s (RcConnect m err) \<noteq> None)"
proof (cases "rc_owner s")
  case None
  then have "\<not> holds_lock (rc_pc s n)" using assms(1) by (simp add: rc_inv_def)
  with None assms(2,3) have "rc_step s (RcStep n) \<noteq> None" by (cases "rc_pc s n") (auto simp: at_rest_def rc_step_def)
  then show ?thesis by blast
next
  case (Some m)
  then have "holds_lock (rc_pc s m)" using assms(1) by (simp add: rc_inv_def)
  with holder_moves assms(3) show ?thesis by blast
qed

lemma rest_quiet:
  assumes "rc_inv s" and "\<forall>n. at_rest (rc_pc s n)"
  shows "\<not> rc_flag s \<and> rc_owner s = None"
proof -
  have out: "\<not> holds_lock (rc_pc s n)" for n using spec [OF assms(2), of n] by (auto simp: at_rest_def)
  then have "\<not> rc_flag s" using assms(1) holds_flag_lock unfolding rc_inv_def by blast
  moreover have "rc_owner s = None" using out assms(1) by (cases "rc_owner s") (auto simp: rc_inv_def)
  ultimately show ?thesis by simp
qed


text \<open>Two goroutines pass the first check before either has the mutex; the socket is lost once and replaced once.\<close>

definition rc_race :: "rcEvent list" where
  "rc_race = [RcLost, RcCall 1 False, RcCall 2 False, RcStep 1, RcStep 2, RcStep 1, RcStep 1, RcStep 1, RcConnect 1 None,
     RcStep 1, RcStep 1, RcStep 2, RcStep 2, RcStep 2, RcStep 2, RcStep 2]"


end
