(* ===== verification/V11Socket.thy ===== *)
theory V11Socket
  imports V11Buf V11Message
begin

text \<open>
  The sockets of the v0.11 package (\<open>cocaine/asocket.go\<close>): \<open>asyncRWSocket\<close> of workers and services
  and \<open>asyncWSocket\<close> of the logger, each with its buffers and its reading and writing goroutine. They
  move raw bytes; the stream unpacker of \<open>cocaine/message.go\<close> sits behind the reading side. The
  connection is outside the model: an event says what \<open>Conn.Read\<close> or \<open>Conn.Write\<close> returned.
  \<open>rw_wire\<close> and \<open>ws_wire\<close> are the bytes the connection took.
\<close>

section \<open>\<open>asyncRWSocket\<close>\<close>

datatype writer11 = Writing11 | Blackholing11 | WriterDone11

text \<open>\<open>Pushing11 chunk err\<close>: the reader sends the chunk to \<open>socketToClient.in\<close>; \<open>err\<close>: the read also
  returned an error, which is looked at afterwards.\<close>

datatype reader11 = Reading11 | Pushing11 bytes bool | ReaderDone11

text \<open>Where the user's \<open>Close\<close> is: its three statements.\<close>

datatype closer11 = NotClosed | StoppedWrite | StoppedBoth | CloseReturned

record asyncRWSocket11 =
  clientToSock :: "bytes buf11"
  socketToClient :: "bytes buf11"
  rw_closed :: bool
  rw_conn_closes :: nat
  rw_writer :: writer11
  rw_reader :: reader11
  rw_closer :: closer11
  rw_wire :: bytes
  rw_logged :: nat \<comment> \<open>error lines given to the logger\<close>

definition newAsyncRWSocket11 :: asyncRWSocket11 where
  "newAsyncRWSocket11 = \<lparr>clientToSock = newAsyncBuf11, socketToClient = newAsyncBuf11, rw_closed = False,
     rw_conn_closes = 0, rw_writer = Writing11, rw_reader = Reading11, rw_closer = NotClosed, rw_wire = [],
     rw_logged = 0\<rparr>"

definition rw_close11 :: "asyncRWSocket11 \<Rightarrow> asyncRWSocket11 \<times> bool" where
  "rw_close11 s = (if rw_closed s then (s, False)
     else (s\<lparr>rw_closed := True, rw_conn_closes := Suc (rw_conn_closes s)\<rparr>, True))"

text \<open>
  \<open>Close\<close>, one statement at a time. The wait inside \<open>Stop\<close> is not a guard: \<open>wg.Add\<close> runs in the
  buffer's goroutine, so the wait may be over before that goroutine has started.
\<close>

definition rw_Close11 :: "asyncRWSocket11 \<Rightarrow> asyncRWSocket11 go" where
  "rw_Close11 s =
     (case rw_closer s of
        StoppedWrite \<Rightarrow>
          go_bind (asyncBuff11_Stop (socketToClient s)) (\<lambda>b. Ret (s\<lparr>socketToClient := b, rw_closer := StoppedBoth\<rparr>))
      | StoppedBoth \<Rightarrow> Ret ((fst (rw_close11 s))\<lparr>rw_closer := CloseReturned\<rparr>)
      | _ \<Rightarrow> go_bind (asyncBuff11_Stop (clientToSock s)) (\<lambda>b. Ret (s\<lparr>clientToSock := b, rw_closer := StoppedWrite\<rparr>)))"

definition rw_up :: "asyncRWSocket11 \<Rightarrow> bytes b11event \<Rightarrow> asyncRWSocket11 option" where
  "rw_up s e = map_option (\<lambda>b. s\<lparr>clientToSock := b\<rparr>) (asyncBuff11_loop (clientToSock s) e)"

definition rw_down :: "asyncRWSocket11 \<Rightarrow> bytes b11event \<Rightarrow> asyncRWSocket11 option" where
  "rw_down s e = map_option (\<lambda>b. s\<lparr>socketToClient := b\<rparr>) (asyncBuff11_loop (socketToClient s) e)"

text \<open>
  \<open>writeloop\<close>: one message \<open>m\<close> taken from the buffer and written; \<open>wrote = Some n\<close>: the write failed
  after \<open>n\<close> bytes, the socket is closed and the rest is thrown away.
\<close>

definition rw_writeloop :: "nat option \<Rightarrow> bytes \<Rightarrow> asyncRWSocket11 \<Rightarrow> asyncRWSocket11 option" where
  "rw_writeloop failed m s =
     (case rw_writer s of
        Writing11 \<Rightarrow>
          (case failed of
             None \<Rightarrow> map_option (\<lambda>t. t\<lparr>rw_wire := rw_wire t @ m\<rparr>) (rw_up s (Out11 m))
           | Some n \<Rightarrow>
               map_option (\<lambda>t. (fst (rw_close11 t))\<lparr>rw_wire := rw_wire t @ take n m, rw_writer := Blackholing11,
                   rw_logged := Suc (rw_logged t)\<rparr>) (rw_up s (Out11 m)))
      | Blackholing11 \<Rightarrow> rw_up s (Out11 m)
      | WriterDone11 \<Rightarrow> None)"

definition rw_writeloop_end :: "asyncRWSocket11 \<Rightarrow> asyncRWSocket11 option" where
  "rw_writeloop_end s =
     (if rw_writer s \<noteq> WriterDone11 \<and> b11_returned (clientToSock s) then Some (s\<lparr>rw_writer := WriterDone11\<rparr>) else None)"

definition readBuf :: nat where "readBuf = 65536"

text \<open>The end of \<open>readloop\<close>: close the buffer's input, then the socket.\<close>

definition rw_read_error :: "asyncRWSocket11 \<Rightarrow> asyncRWSocket11" where
  "rw_read_error s =
     (case rw_close11 (s\<lparr>rw_reader := ReaderDone11, socketToClient := (socketToClient s)\<lparr>b11_in_closed := True\<rparr>\<rparr>) of
        (t, closed) \<Rightarrow> if closed then t\<lparr>rw_logged := Suc (rw_logged t)\<rparr> else t)"

text \<open>\<open>readloop\<close>: what \<open>Conn.Read\<close> put into the buffer of 65536 bytes, and whether it returned an error.\<close>

definition rw_readloop :: "bytes \<Rightarrow> bool \<Rightarrow> asyncRWSocket11 \<Rightarrow> asyncRWSocket11 option" where
  "rw_readloop data err s =
     (if rw_reader s = Reading11 \<and> length data \<le> readBuf
      then Some (if data \<noteq> [] then s\<lparr>rw_reader := Pushing11 data err\<rparr> else if err then rw_read_error s else s)
      else None)"

definition rw_readloop_push :: "asyncRWSocket11 \<Rightarrow> asyncRWSocket11 option" where
  "rw_readloop_push s =
     (case rw_reader s of
        Pushing11 data err \<Rightarrow>
          map_option (\<lambda>t. if err then rw_read_error t else t\<lparr>rw_reader := Reading11\<rparr>) (rw_down s (In11 data))
      | _ \<Rightarrow> None)"

datatype rw11event =
    RWWrite bytes \<comment> \<open>the user sends on \<open>Write()\<close>\<close>
  | RWWriteOut "nat option" bytes
  | RWWriterEnds
  | RWRead bytes bool
  | RWPush
  | RWTake bytes \<comment> \<open>the user receives from \<open>Read()\<close>\<close>
  | RWClose
  | RWUpStop
  | RWDownStop
  | RWDownInClosed

fun rw_step :: "asyncRWSocket11 \<Rightarrow> rw11event \<Rightarrow> asyncRWSocket11 option" where
  "rw_step s (RWWrite m) = rw_up s (In11 m)"
| "rw_step s (RWWriteOut failed m) = rw_writeloop failed m s"
| "rw_step s RWWriterEnds = rw_writeloop_end s"
| "rw_step s (RWRead data err) = rw_readloop data err s"
| "rw_step s RWPush = rw_readloop_push s"
| "rw_step s (RWTake m) = rw_down s (Out11 m)"
| "rw_step s RWClose = (case rw_Close11 s of Ret t \<Rightarrow> Some t | Panic _ \<Rightarrow> None)"
| "rw_step s RWUpStop = rw_up s Stop11"
| "rw_step s RWDownStop = rw_down s Stop11"
| "rw_step s RWDownInClosed = rw_down s InClosed11"

fun rw_accepted :: "rw11event \<Rightarrow> bytes list" where
  "rw_accepted (RWWrite m) = [m]"
| "rw_accepted _ = []"

fun rw_taken :: "rw11event \<Rightarrow> bytes list" where
  "rw_taken (RWWriteOut _ m) = [m]"
| "rw_taken _ = []"

fun rw_arrived :: "rw11event \<Rightarrow> bytes list" where
  "rw_arrived (RWRead data _) = (if data = [] then [] else [data])"
| "rw_arrived _ = []"

fun rw_received :: "rw11event \<Rightarrow> bytes list" where
  "rw_received (RWTake m) = [m]"
| "rw_received _ = []"

definition rw_incoming :: "asyncRWSocket11 \<Rightarrow> bytes list" where
  "rw_incoming s = b11_pending (socketToClient s) @ (case rw_reader s of Pushing11 data _ \<Rightarrow> [data] | _ \<Rightarrow> [])"

section \<open>\<open>asyncWSocket\<close>\<close>

record asyncWSocket11 =
  ws_buf :: "bytes buf11"
  ws_closed :: bool
  ws_conn_closes :: nat
  ws_writer_done :: bool
  ws_reader_done :: bool
  ws_closing :: bool \<comment> \<open>\<open>Close\<close> is between its two statements\<close>
  ws_wire :: bytes
  ws_logged :: nat

definition newWSocket11 :: asyncWSocket11 where
  "newWSocket11 = \<lparr>ws_buf = newAsyncBuf11, ws_closed = False, ws_conn_closes = 0, ws_writer_done = False,
     ws_reader_done = False, ws_closing = False, ws_wire = [], ws_logged = 0\<rparr>"

definition ws_close :: "asyncWSocket11 \<Rightarrow> asyncWSocket11 \<times> bool" where
  "ws_close s = (if ws_closed s then (s, False)
     else (s\<lparr>ws_closed := True, ws_conn_closes := Suc (ws_conn_closes s)\<rparr>, True))"

text \<open>\<open>Close\<close>, one statement at a time: first the connection, then the buffer.\<close>

definition ws_Close :: "asyncWSocket11 \<Rightarrow> asyncWSocket11 go" where
  "ws_Close s =
     (if ws_closing s
      then go_bind (asyncBuff11_Stop (ws_buf s)) (\<lambda>b. Ret (s\<lparr>ws_buf := b, ws_closing := False\<rparr>))
      else Ret ((fst (ws_close s))\<lparr>ws_closing := True\<rparr>))"
definition ws_up :: "asyncWSocket11 \<Rightarrow> bytes b11event \<Rightarrow> asyncWSocket11 option" where
  "ws_up s e = map_option (\<lambda>b. s\<lparr>ws_buf := b\<rparr>) (asyncBuff11_loop (ws_buf s) e)"

text \<open>After a failed write the goroutine returns: nobody receives from the buffer any more.\<close>

definition ws_writeloop :: "nat option \<Rightarrow> bytes \<Rightarrow> asyncWSocket11 \<Rightarrow> asyncWSocket11 option" where
  "ws_writeloop failed m s =
     (if ws_writer_done s then None
      else (case failed of
              None \<Rightarrow> map_option (\<lambda>t. t\<lparr>ws_wire := ws_wire t @ m\<rparr>) (ws_up s (Out11 m))
            | Some n \<Rightarrow>
                map_option (\<lambda>t. (fst (ws_close t))\<lparr>ws_wire := ws_wire t @ take n m, ws_writer_done := True,
                    ws_logged := Suc (ws_logged t)\<rparr>) (ws_up s (Out11 m))))"

definition ws_writeloop_end :: "asyncWSocket11 \<Rightarrow> asyncWSocket11 option" where
  "ws_writeloop_end s =
     (if \<not> ws_writer_done s \<and> b11_returned (ws_buf s) then Some (s\<lparr>ws_writer_done := True\<rparr>) else None)"

text \<open>\<open>readloop\<close> throws away what it reads; an error closes the socket.\<close>

definition ws_readloop :: "bool \<Rightarrow> asyncWSocket11 \<Rightarrow> asyncWSocket11 option" where
  "ws_readloop err s =
     (if ws_reader_done s then None
      else if err then
        (case ws_close (s\<lparr>ws_reader_done := True\<rparr>) of
           (t, closed) \<Rightarrow> Some (if closed then t\<lparr>ws_logged := Suc (ws_logged t)\<rparr> else t))
      else Some s)"

datatype ws11event = WSWrite bytes | WSWriteOut "nat option" bytes | WSWriterEnds | WSRead bool | WSClose | WSStop

fun ws_step :: "asyncWSocket11 \<Rightarrow> ws11event \<Rightarrow> asyncWSocket11 option" where
  "ws_step s (WSWrite m) = ws_up s (In11 m)"
| "ws_step s (WSWriteOut failed m) = ws_writeloop failed m s"
| "ws_step s WSWriterEnds = ws_writeloop_end s"
| "ws_step s (WSRead err) = ws_readloop err s"
| "ws_step s WSClose = (case ws_Close s of Ret t \<Rightarrow> Some t | Panic _ \<Rightarrow> None)"
| "ws_step s WSStop = ws_up s Stop11"

fun ws_accepted :: "ws11event \<Rightarrow> bytes list" where
  "ws_accepted (WSWrite m) = [m]"
| "ws_accepted _ = []"

fun ws_taken :: "ws11event \<Rightarrow> bytes list" where
  "ws_taken (WSWriteOut _ m) = [m]"
| "ws_taken _ = []"

section \<open>Both writing sides\<close>

text \<open>
  What the two writing goroutines share: they take messages from a relay, the connection gets the
  bytes of the messages taken, and from the first failure on at most a part of one more.
\<close>

locale byte_writer = relay step pend recv taken
  for step :: "'s \<Rightarrow> 'e \<Rightarrow> 's option"
    and pend :: "'s \<Rightarrow> bytes list"
    and recv :: "'e \<Rightarrow> bytes list"
    and taken :: "'e \<Rightarrow> bytes list" +
  fixes wire :: "'s \<Rightarrow> bytes"
    and writing :: "'s \<Rightarrow> bool"
    and init :: 's
  assumes init_empty: "pend init = []" "wire init = []"
    and write_ok: "step s e = Some t \<Longrightarrow> writing t \<Longrightarrow> wire t = wire s @ concat (taken e) \<and> writing s"
    and write_part: "step s e = Some t \<Longrightarrow> writing s \<Longrightarrow> \<exists>p. prefix p (concat (taken e)) \<and> wire t = wire s @ p"
    and write_stop: "step s e = Some t \<Longrightarrow> \<not> writing s \<Longrightarrow> wire t = wire s"
begin

lemma wire_taken:
  "run step init es = Some s \<Longrightarrow>
     prefix (wire s) (concat (concat (map taken es))) \<and>
     (writing s \<longrightarrow> wire s = concat (concat (map taken es)))"
proof (induction rule: run_induct)
  case start
  then show ?case by (simp add: init_empty)
next
  case (step es t e u)
  show ?case
  proof (cases "writing t")
    case True
    obtain p where "prefix p (concat (taken e))" "wire u = wire t @ p"
      using write_part [OF step(2) True] by blast
    with step(3) True write_ok [OF step(2)] show ?thesis by auto
  next
    case False
    with step(3) write_stop [OF step(2)] write_ok [OF step(2)] show ?thesis
      by (auto intro: prefix_prefix)
  qed
qed

lemma wire_accepted:
  assumes "run step init es = Some s"
  shows "prefix (wire s) (concat (concat (map recv es)))"
proof -
  have "concat (concat (map recv es)) = concat (concat (map taken es)) @ concat (pend s)"
    using fifo [OF assms] by (simp add: init_empty)
  with wire_taken [OF assms] show ?thesis by (auto intro: prefix_prefix)
qed

end

lemma rw_close11_simps [simp]:
  "clientToSock (fst (rw_close11 s)) = clientToSock s" "socketToClient (fst (rw_close11 s)) = socketToClient s"
  "rw_closed (fst (rw_close11 s))" "rw_writer (fst (rw_close11 s)) = rw_writer s"
  "rw_reader (fst (rw_close11 s)) = rw_reader s" "rw_wire (fst (rw_close11 s)) = rw_wire s"
  "rw_closer (fst (rw_close11 s)) = rw_closer s"
  by (simp_all add: rw_close11_def)

lemma rw_read_error_simps [simp]:
  "clientToSock (rw_read_error s) = clientToSock s"
  "socketToClient (rw_read_error s) = (socketToClient s)\<lparr>b11_in_closed := True\<rparr>"
  "rw_closed (rw_read_error s)" "rw_writer (rw_read_error s) = rw_writer s"
  "rw_reader (rw_read_error s) = ReaderDone11" "rw_wire (rw_read_error s) = rw_wire s"
  "rw_closer (rw_read_error s) = rw_closer s"
  by (simp_all add: rw_read_error_def rw_close11_def)

lemma ws_close_simps [simp]:
  "ws_buf (fst (ws_close s)) = ws_buf s" "ws_closed (fst (ws_close s))"
  "ws_writer_done (fst (ws_close s)) = ws_writer_done s" "ws_wire (fst (ws_close s)) = ws_wire s"
  by (simp_all add: ws_close_def)

lemma asyncBuff11_Stop_Ret [simp]:
  "asyncBuff11_Stop b = Ret c \<longleftrightarrow> \<not> b11_stop_closed b \<and> c = b\<lparr>b11_stop_closed := True\<rparr>"
  by (auto simp: asyncBuff11_Stop_def)

lemmas rw_defs = rw_writeloop_def rw_writeloop_end_def rw_readloop_def rw_readloop_push_def rw_up_def rw_down_def
  rw_Close11_def
lemmas ws_defs = ws_writeloop_def ws_writeloop_end_def ws_readloop_def ws_up_def ws_Close_def
lemmas sock11_splits = option.splits if_splits list.splits writer11.splits reader11.splits closer11.splits go.splits
  prod.splits

interpretation rwup: relay rw_step "\<lambda>s. b11_pending (clientToSock s)" rw_accepted rw_taken
proof unfold_locales
  show "b11_pending (clientToSock s) @ rw_accepted e = rw_taken e @ b11_pending (clientToSock t)"
    if "rw_step s e = Some t" for s t e
    using that by (cases e) (auto simp: rw_defs loop_simps split: sock11_splits)
qed

interpretation rwdown: relay rw_step rw_incoming rw_arrived rw_received
proof unfold_locales
  show "rw_incoming s @ rw_arrived e = rw_received e @ rw_incoming t" if "rw_step s e = Some t" for s t e
    using that by (cases e) (auto simp: rw_defs loop_simps rw_incoming_def split: sock11_splits)
qed

interpretation rww: byte_writer rw_step "\<lambda>s. b11_pending (clientToSock s)" rw_accepted rw_taken rw_wire
  "\<lambda>s. rw_writer s = Writing11" newAsyncRWSocket11
proof unfold_locales
  show "rw_wire t = rw_wire s @ concat (rw_taken e) \<and> rw_writer s = Writing11"
    if "rw_step s e = Some t" "rw_writer t = Writing11" for s t e
    using that by (cases e) (auto simp: rw_defs loop_simps split: sock11_splits)
  show "\<exists>p. prefix p (concat (rw_taken e)) \<and> rw_wire t = rw_wire s @ p"
    if "rw_step s e = Some t" "rw_writer s = Writing11" for s t e
    using that by (cases e) (auto simp: rw_defs loop_simps take_is_prefix split: sock11_splits)
  show "rw_wire t = rw_wire s" if "rw_step s e = Some t" "rw_writer s \<noteq> Writing11" for s t e
    using that by (cases e) (auto simp: rw_defs loop_simps split: sock11_splits)
qed (simp_all add: newAsyncRWSocket11_def newAsyncBuf11_def)

interpretation wsw: byte_writer ws_step "\<lambda>s. b11_pending (ws_buf s)" ws_accepted ws_taken ws_wire
  "\<lambda>s. \<not> ws_writer_done s" newWSocket11
proof unfold_locales
  show "b11_pending (ws_buf s) @ ws_accepted e = ws_taken e @ b11_pending (ws_buf t)"
    if "ws_step s e = Some t" for s t e
    using that by (cases e) (auto simp: ws_defs ws_close_def loop_simps split: sock11_splits)
  show "ws_wire t = ws_wire s @ concat (ws_taken e) \<and> \<not> ws_writer_done s"
    if "ws_step s e = Some t" "\<not> ws_writer_done t" for s t e
    using that by (cases e) (auto simp: ws_defs ws_close_def loop_simps split: sock11_splits)
  show "\<exists>p. prefix p (concat (ws_taken e)) \<and> ws_wire t = ws_wire s @ p"
    if "ws_step s e = Some t" "\<not> ws_writer_done s" for s t e
    using that by (cases e) (auto simp: ws_defs ws_close_def loop_simps take_is_prefix split: sock11_splits)
  show "ws_wire t = ws_wire s" if "ws_step s e = Some t" "\<not> \<not> ws_writer_done s" for s t e
    using that by (cases e) (auto simp: ws_defs ws_close_def loop_simps split: sock11_splits)
qed (simp_all add: newWSocket11_def newAsyncBuf11_def)

section \<open>Properties\<close>

text \<open>The sockets are faithful to the byte stream. On both sockets the connection gets a prefix of
  the bytes handed to \<open>Write\<close>, in order, whatever the interleaving and the failures.\<close>

theorem socket11_wire:
  "(run rw_step newAsyncRWSocket11 es = Some s \<longrightarrow> prefix (rw_wire s) (concat (concat (map rw_accepted es)))) \<and>
   (run ws_step newWSocket11 fs = Some w \<longrightarrow> prefix (ws_wire w) (concat (concat (map ws_accepted fs))))"
  using rww.wire_accepted wsw.wire_accepted by blast

text \<open>C27: the reading side feeds the stream unpacker. With a decoder that reads a value from the front
  of its input and never beyond it, the chunks the user receives unpack to the same messages, and
  leave the same buffer, as the bytes that arrived on the connection and are not still queued, however
  the network cut them and the goroutines interleaved; no chunk is empty or longer than the read
  buffer.\<close>

theorem socket11_messages:
  assumes "prefix_decoder decode" and "run rw_step newAsyncRWSocket11 es = Some s"
  shows "Feeds decode unpack [] (concat (map rw_received es)) =
      Feed decode unpack [] (concat (concat (map rw_received es))) \<and>
    concat (concat (map rw_arrived es)) = concat (concat (map rw_received es)) @ concat (rw_incoming s) \<and>
    (\<forall>chunk \<in> set (concat (map rw_received es)). chunk \<noteq> [] \<and> length chunk \<le> readBuf)"
proof -
  have arr: "concat (map rw_arrived es) = concat (map rw_received es) @ rw_incoming s"
    using rwdown.fifo [OF assms(2)] by (simp add: rw_incoming_def newAsyncRWSocket11_def newAsyncBuf11_def)
  have sizes: "\<forall>chunk \<in> set (concat (map rw_arrived es)). chunk \<noteq> [] \<and> length chunk \<le> readBuf"
    using assms(2)
  proof (induction rule: run_induct)
    case (step es t e u)
    from step(2,3) show ?case by (cases e) (auto simp: rw_readloop_def split: if_splits)
  qed simp
  from arr sizes Feeds_concat [OF assms(1) quiet_empty [OF assms(1)], of unpack "concat (map rw_received es)"]
  show ?thesis by simp
qed

lemmas sock11_eval = rw_defs ws_defs rw_close11_def rw_read_error_def ws_close_def asyncBuff11_loop_def buf11_head_def
  asyncBuff11_Stop_def newAsyncRWSocket11_def newWSocket11_def newAsyncBuf11_def readBuf_def rw_incoming_def

theorem socket11_wire_witness:
  "prefix [1, 2] (concat (concat (map rw_accepted [RWWrite [1, 2, 3], RWWriteOut (Some 2) [1, 2, 3]]))) \<and>
   prefix [5, 6] (concat (concat (map ws_accepted [WSWrite [5, 6], WSWriteOut None [5, 6]])))"
proof -
  obtain s where s: "run rw_step newAsyncRWSocket11 [RWWrite [1, 2, 3], RWWriteOut (Some 2) [1, 2, 3]] = Some s"
      "rw_wire s = [1, 2]"
    by (simp add: sock11_eval)
  obtain w where w: "run ws_step newWSocket11 [WSWrite [5, 6], WSWriteOut None [5, 6]] = Some w" "ws_wire w = [5, 6]"
    by (simp add: sock11_eval)
  from socket11_wire [of _ s _ w] s w show ?thesis by metis
qed

theorem socket11_messages_witness:
  "Feeds demo_decode demo_unpack [] [[2, 5], [6, 1]] = Feed demo_decode demo_unpack [] [2, 5, 6, 1]"
proof -
  let ?es = "[RWRead [2, 5] False, RWPush, RWRead [6, 1] True, RWTake [2, 5], RWPush, RWTake [6, 1]]"
  obtain s where s: "run rw_step newAsyncRWSocket11 ?es = Some s" by (simp add: sock11_eval)
  from socket11_messages [OF demo_decode_prefix s, of demo_unpack] show ?thesis by simp
qed

definition rw_inv :: "asyncRWSocket11 \<Rightarrow> bool" where
  "rw_inv s \<longleftrightarrow> rw_conn_closes s = (if rw_closed s then 1 else 0) \<and>
     (b11_in_closed (socketToClient s) \<longleftrightarrow> rw_reader s = ReaderDone11) \<and>
     (b11_finished (socketToClient s) \<longrightarrow> rw_reader s = ReaderDone11) \<and>
     (b11_stop_closed (socketToClient s) \<longrightarrow> rw_closer s \<in> {StoppedBoth, CloseReturned}) \<and>
     (rw_closer s \<noteq> NotClosed \<longrightarrow> b11_stop_closed (clientToSock s)) \<and>
     (b11_returned (socketToClient s) \<and> \<not> b11_stop_closed (socketToClient s) \<longrightarrow>
        b11_finished (socketToClient s) \<and> b11_pending (socketToClient s) = [])"

lemma b11_frame:
  "asyncBuff11_loop b e = Some c \<Longrightarrow> e \<noteq> CloseIn11 \<Longrightarrow> e \<noteq> CloseStop11 \<Longrightarrow>
     b11_in_closed c = b11_in_closed b \<and> b11_stop_closed c = b11_stop_closed b \<and>
     (b11_finished c \<longrightarrow> b11_finished b \<or> b11_in_closed b) \<and>
     (b11_returned c \<and> \<not> b11_stop_closed b \<longrightarrow> b11_finished c \<and> b11_pending c = [])"
  by (cases e) (auto simp: asyncBuff11_loop_def buf11_head_def split: if_splits list.splits)

lemma rw_inv_down:
  assumes "rw_inv s" and "rw_down s e = Some t" and "e \<noteq> CloseIn11" and "e \<noteq> CloseStop11"
  shows "rw_inv t"
proof -
  obtain b where b: "asyncBuff11_loop (socketToClient s) e = Some b" "t = s\<lparr>socketToClient := b\<rparr>"
    using assms(2) by (auto simp: rw_down_def)
  from b11_frame [OF b(1) assms(3,4)] assms(1) show ?thesis unfolding b(2) rw_inv_def by simp blast
qed

lemma rw_inv_up:
  assumes "rw_inv s" and "rw_up s e = Some t" and "e \<noteq> CloseIn11" and "e \<noteq> CloseStop11"
  shows "rw_inv t"
proof -
  obtain b where b: "asyncBuff11_loop (clientToSock s) e = Some b" "t = s\<lparr>clientToSock := b\<rparr>"
    using assms(2) by (auto simp: rw_up_def)
  from b11_frame [OF b(1) assms(3,4)] assms(1) show ?thesis unfolding b(2) rw_inv_def by simp
qed
lemma rw_inv_close: "rw_inv s \<Longrightarrow> rw_inv (fst (rw_close11 s))"
  by (simp add: rw_inv_def rw_close11_def)

lemma rw_inv_frame [simp]:
  "rw_inv (s\<lparr>rw_wire := w\<rparr>) = rw_inv s" "rw_inv (s\<lparr>rw_writer := x\<rparr>) = rw_inv s"
  "rw_inv (s\<lparr>rw_logged := n\<rparr>) = rw_inv s"
  by (simp_all add: rw_inv_def)

lemma rw_inv_read_error: "rw_inv s \<Longrightarrow> rw_inv (rw_read_error s)"
  by (auto simp: rw_inv_def rw_read_error_def rw_close11_def)

lemma rw_inv_writeloop: "rw_inv s \<Longrightarrow> rw_writeloop failed m s = Some t \<Longrightarrow> rw_inv t"
  by (auto simp: rw_writeloop_def split: writer11.splits option.splits intro: rw_inv_up rw_inv_close [OF rw_inv_up])

lemma rw_inv_push: "rw_inv s \<Longrightarrow> rw_readloop_push s = Some t \<Longrightarrow> rw_inv t"
proof -
  assume s: "rw_inv s" and "rw_readloop_push s = Some t"
  then obtain d err u where r: "rw_reader s = Pushing11 d err" and u: "rw_down s (In11 d) = Some u"
      "t = (if err then rw_read_error u else u\<lparr>rw_reader := Reading11\<rparr>)"
    by (auto simp: rw_readloop_push_def split: reader11.splits)
  have "rw_inv u" by (rule rw_inv_down [OF s u(1)]) simp_all
  moreover have "rw_reader u = rw_reader s" using u(1) by (auto simp: rw_down_def)
  ultimately show ?thesis using r u(2) rw_inv_read_error [of u] by (auto simp: rw_inv_def)
qed

lemma rw_inv_step: "rw_inv s \<Longrightarrow> rw_step s e = Some t \<Longrightarrow> rw_inv t"
proof (cases e)
  case (RWRead d err)
  then show "rw_inv s \<Longrightarrow> rw_step s e = Some t \<Longrightarrow> rw_inv t"
    by (auto simp: rw_readloop_def split: if_splits intro: rw_inv_read_error) (auto simp: rw_inv_def)
next
  case RWClose
  then show "rw_inv s \<Longrightarrow> rw_step s e = Some t \<Longrightarrow> rw_inv t"
    by (auto simp: rw_Close11_def rw_inv_def asyncBuff11_Stop_def rw_close11_def split: closer11.splits if_splits)
qed (auto simp: rw_writeloop_end_def split: if_splits
      dest: rw_inv_up rw_inv_down rw_inv_writeloop rw_inv_push)

lemma rw_inv_run: "run rw_step newAsyncRWSocket11 es = Some s \<Longrightarrow> rw_inv s"
  by (rule run_invariant [where P = rw_inv, OF rw_inv_step])
    (auto simp: rw_inv_def newAsyncRWSocket11_def newAsyncBuf11_def)

text \<open>Ending the socket. The connection is closed exactly once, whoever of the reader, the writer and
  the user closes the socket. When the connection fails and nobody calls \<open>Close\<close>, the channel of
  \<open>Read()\<close> is closed only after everything that arrived has been received.\<close>

theorem socket11_end:
  assumes "run rw_step newAsyncRWSocket11 es = Some s"
  shows "rw_conn_closes s = (if rw_closed s then 1 else 0) \<and>
    (rw_closer s = NotClosed \<and> b11_returned (socketToClient s) \<longrightarrow>
       rw_closed s \<and> concat (map rw_received es) = concat (map rw_arrived es))"
proof -
  have inv: "rw_inv s" by (rule rw_inv_run [OF assms])
  have "rw_reader s = ReaderDone11 \<longrightarrow> rw_closed s"
    using assms
  proof (induction rule: run_induct)
    case (step es t e u)
    have "rw_closed t \<longrightarrow> rw_closed u"
      using step(2) by (cases e) (auto simp: rw_defs rw_close11_def split: sock11_splits)
    with step(2,3) show ?case by (cases e) (auto simp: rw_defs split: sock11_splits)
  qed (simp add: newAsyncRWSocket11_def)
  moreover have "concat (map rw_arrived es) = concat (map rw_received es) @ rw_incoming s"
    using rwdown.fifo [OF assms] by (simp add: rw_incoming_def newAsyncRWSocket11_def newAsyncBuf11_def)
  ultimately show ?thesis using inv by (auto simp: rw_inv_def rw_incoming_def)
qed

theorem socket11_end_witness:
  "\<exists>s. run rw_step newAsyncRWSocket11 [RWRead [7] True, RWPush, RWDownInClosed, RWTake [7]] = Some s \<and>
     rw_conn_closes s = 1 \<and> b11_returned (socketToClient s)"
proof -
  obtain s where s: "run rw_step newAsyncRWSocket11 [RWRead [7] True, RWPush, RWDownInClosed, RWTake [7]] = Some s"
      "b11_returned (socketToClient s)" "rw_closer s = NotClosed"
    by (simp add: sock11_eval)
  from socket11_end [OF s(1)] s show ?thesis by auto
qed

text \<open>A message written after the buffer has stopped blocks its sender for good: \<open>Write()\<close> hands out
  the bare channel, and nothing receives from it any more.\<close>

lemma socket11_write_blocks:
  assumes "b11_returned (clientToSock s)" and "run rw_step s es = Some t"
  shows "rw_step t (RWWrite m) = None"
proof -
  have "b11_returned (clientToSock t)"
    using assms(2,1)
    by (rule run_invariant [where P = "\<lambda>s. b11_returned (clientToSock s)", rotated])
      (rename_tac b e c, case_tac e, auto simp: rw_defs loop_simps split: sock11_splits)
  then show ?thesis by (simp add: rw_up_def asyncBuff11_loop_def)
qed

end
