(* ===== verification/V11Logger.thy ===== *)
theory V11Logger
  imports V11Socket
begin

text \<open>
  The logger of the v0.11 package (\<open>cocaine/logger.go\<close>) over its write-only socket. Resolving the
  logging service, asking it for its verbosity and connecting to it (\<open>createIO\<close>) has an outcome that is
  a parameter: an error, or the verbosity, with a fresh socket. \<open>pack\<close> is the packing of the method call and
  \<open>Sprint\<close> the formatting. A send that blocks for ever is None.
\<close>

section \<open>State and operations\<close>

definition LOGERROR :: i64 where "LOGERROR = 1"
definition LOGWARN :: i64 where "LOGWARN = 2"
definition LOGINFO :: i64 where "LOGINFO = 3"
definition LOGDEBUG :: i64 where "LOGDEBUG = 4"

record logger11 =
  lg_sock :: asyncWSocket11
  lg_verbosity :: i64
  lg_reconnecting :: bool \<comment> \<open>set by another goroutine's \<open>Reconnect\<close>\<close>

text \<open>\<open>createIO\<close> after \<open>createTempService\<close>: the steps that can fail, in order.\<close>

definition createIO :: "goerr option \<Rightarrow> bool \<Rightarrow> goerr + i64 \<Rightarrow> goerr option \<Rightarrow> goerr + i64" where
  "createIO newServiceErr callFailed extracted dialErr =
     (case newServiceErr of
        Some err \<Rightarrow> Inl err
      | None \<Rightarrow>
          if callFailed then Inl (ErrDial ''cocaine: unable to receive verbosity'')
          else (case extracted of
                  Inl err \<Rightarrow> Inl err
                | Inr v \<Rightarrow> (case dialErr of Some err \<Rightarrow> Inl err | None \<Rightarrow> Inr v)))"

definition NewLoggerWithName11 :: "goerr + i64 \<Rightarrow> goerr + logger11" where
  "NewLoggerWithName11 io =
     (case io of
        Inl err \<Rightarrow> Inl err
      | Inr v \<Rightarrow> Inr \<lparr>lg_sock = newWSocket11, lg_verbosity = v, lg_reconnecting = False\<rparr>)"

text \<open>Both statements of the socket's \<open>Close\<close>.\<close>

definition ws_Close_all :: "asyncWSocket11 \<Rightarrow> asyncWSocket11 go" where
  "ws_Close_all s = go_bind (ws_Close (s\<lparr>ws_closing := False\<rparr>)) ws_Close"

datatype reconnected11 = RcReconnecting | RcConnected | RcFailed goerr | RcOk

definition logger11_Reconnect :: "bool \<Rightarrow> goerr + i64 \<Rightarrow> logger11 \<Rightarrow> (logger11 \<times> reconnected11) go" where
  "logger11_Reconnect force io l =
     (if lg_reconnecting l then Ret (l, RcReconnecting)
      else if \<not> force \<and> \<not> ws_closed (lg_sock l) then Ret (l, RcConnected)
      else
        (case io of
           Inl err \<Rightarrow> Ret (l, RcFailed err)
         | Inr v \<Rightarrow>
             go_bind (ws_Close_all (lg_sock l)) (\<lambda>_. Ret (l\<lparr>lg_sock := newWSocket11, lg_verbosity := v\<rparr>, RcOk))))"

text \<open>
  \<open>log\<close>: while the socket is closed, reconnect; then send. One outcome of \<open>createIO\<close> per
  reconnection, with what happens to the new socket before it is looked at; the result of the call.
\<close>

fun logger11_log :: "(i64 \<Rightarrow> string \<Rightarrow> bytes) \<Rightarrow> ((goerr + i64) \<times> ws11event list) list \<Rightarrow> i64 \<Rightarrow> string \<Rightarrow> logger11
    \<Rightarrow> (logger11 \<times> bool) go option" where
  "logger11_log pack ios level msg l =
     (if ws_closed (lg_sock l) then
        (case ios of
           [] \<Rightarrow> None
         | (io, es) # rest \<Rightarrow>
             (case logger11_Reconnect False io l of
                Panic p \<Rightarrow> Some (Panic p)
              | Ret (l', RcOk) \<Rightarrow>
                  (case run ws_step (lg_sock l') es of
                     None \<Rightarrow> None
                   | Some s \<Rightarrow> logger11_log pack rest level msg (l'\<lparr>lg_sock := s\<rparr>))
              | Ret (l', _) \<Rightarrow> Some (Ret (l', False))))
      else map_option (\<lambda>s. Ret (l\<lparr>lg_sock := s\<rparr>, True)) (ws_step (lg_sock l) (WSWrite (pack level msg))))"

definition logger11_at :: "i64 \<Rightarrow> (i64 \<Rightarrow> string \<Rightarrow> bytes) \<Rightarrow> ((goerr + i64) \<times> ws11event list) list \<Rightarrow> string \<Rightarrow> logger11
    \<Rightarrow> logger11 go option" where
  "logger11_at level pack ios msg l =
     (if level \<le>s lg_verbosity l
      then map_option (\<lambda>r. go_bind r (\<lambda>(l', _). Ret l')) (logger11_log pack ios level msg l) else Some (Ret l))"

definition logger11_Err where "logger11_Err = logger11_at LOGERROR"
definition logger11_Warn where "logger11_Warn = logger11_at LOGWARN"
definition logger11_Info where "logger11_Info = logger11_at LOGINFO"
definition logger11_Debug where "logger11_Debug = logger11_at LOGDEBUG"
definition logger11_Errf where "logger11_Errf pack ios sprintf format args = logger11_at LOGERROR pack ios (sprintf format args)"
definition logger11_Warnf where "logger11_Warnf pack ios sprintf format args = logger11_at LOGWARN pack ios (sprintf format args)"
definition logger11_Infof where "logger11_Infof pack ios sprintf format args = logger11_at LOGINFO pack ios (sprintf format args)"
definition logger11_Debugf where "logger11_Debugf pack ios sprintf format args = logger11_at LOGDEBUG pack ios (sprintf format args)"

definition logger11_Close :: "logger11 \<Rightarrow> logger11 go" where
  "logger11_Close l = go_bind (ws_Close_all (lg_sock l)) (\<lambda>s. Ret (l\<lparr>lg_sock := s\<rparr>))"

section \<open>The logger at work\<close>

text \<open>Calls of the logger's methods between the steps of its socket, as long as no reconnection happens.\<close>

datatype lg11event = LgAt i64 string | LgSock ws11event

fun lg_step :: "(i64 \<Rightarrow> string \<Rightarrow> bytes) \<Rightarrow> logger11 \<Rightarrow> lg11event \<Rightarrow> logger11 option" where
  "lg_step pack l (LgAt level msg) =
     (case logger11_at level pack [] msg l of Some (Ret l') \<Rightarrow> Some l' | _ \<Rightarrow> None)"
| "lg_step pack l (LgSock e) =
     (case e of
        WSWrite _ \<Rightarrow> None
      | _ \<Rightarrow> map_option (\<lambda>s. l\<lparr>lg_sock := s\<rparr>) (ws_step (lg_sock l) e))"

definition lg_visible :: "(i64 \<Rightarrow> string \<Rightarrow> bytes) \<Rightarrow> i64 \<Rightarrow> lg11event \<Rightarrow> bytes list" where
  "lg_visible pack v e = (case e of LgAt level msg \<Rightarrow> if level \<le>s v then [pack level msg] else [] | LgSock _ \<Rightarrow> [])"

text \<open>The logger's step is a step of its socket, or none.\<close>

definition lg_events :: "(i64 \<Rightarrow> string \<Rightarrow> bytes) \<Rightarrow> i64 \<Rightarrow> lg11event \<Rightarrow> ws11event list" where
  "lg_events pack v e =
     (case e of LgAt level msg \<Rightarrow> if level \<le>s v then [WSWrite (pack level msg)] else [] | LgSock e \<Rightarrow> [e])"

lemma lg_step_socket:
  assumes "lg_step pack l e = Some l'"
  shows "lg_verbosity l' = lg_verbosity l \<and>
    run ws_step (lg_sock l) (lg_events pack (lg_verbosity l) e) = Some (lg_sock l') \<and>
    concat (map ws_accepted (lg_events pack (lg_verbosity l) e)) = lg_visible pack (lg_verbosity l) e"
proof (cases e)
  case (LgAt level msg)
  with assms show ?thesis
    by (auto simp: logger11_at_def lg_events_def lg_visible_def split: if_splits option.splits go.splits)
next
  case (LgSock x)
  with assms show ?thesis
    by (cases x) (auto simp: lg_events_def lg_visible_def split: if_splits)
qed

lemma lg_run_socket:
  "run (lg_step pack) l es = Some l' \<Longrightarrow>
     lg_verbosity l' = lg_verbosity l \<and>
     run ws_step (lg_sock l) (concat (map (lg_events pack (lg_verbosity l)) es)) = Some (lg_sock l') \<and>
     concat (map ws_accepted (concat (map (lg_events pack (lg_verbosity l)) es))) =
       concat (map (lg_visible pack (lg_verbosity l)) es)"
proof (induction es arbitrary: l)
  case (Cons e es)
  then obtain u where u: "lg_step pack l e = Some u" "run (lg_step pack) u es = Some l'"
    by (auto split: option.splits)
  note s = lg_step_socket [OF u(1)]
  from Cons.IH [OF u(2)] s show ?case by (auto simp: run_append)
qed simp

section \<open>Properties\<close>

text \<open>What reaches the logging service is a prefix of the messages at or below the verbosity it asked
  for, packed, in the order of the calls, whatever the socket's goroutines do in between.\<close>

theorem logger11_wire:
  assumes "NewLoggerWithName11 (Inr v) = Inr l" and "run (lg_step pack) l es = Some l'"
  shows "prefix (ws_wire (lg_sock l')) (concat (concat (map (lg_visible pack v) es)))"
proof -
  have l: "lg_sock l = newWSocket11" "lg_verbosity l = v"
    using assms(1) by (auto simp: NewLoggerWithName11_def)
  note r = lg_run_socket [OF assms(2)]
  have "run ws_step newWSocket11 (concat (map (lg_events pack v) es)) = Some (lg_sock l')"
    using r l by simp
  from wsw.wire_accepted [OF this] r l show ?thesis by simp
qed

theorem logger11_wire_witness:
  "prefix [1, 9] (concat (concat (map (lg_visible (\<lambda>level m. [ucast level, 9]) 2)
     [LgAt 1 ''a'', LgAt 4 ''b'', LgSock (WSWriteOut None [1, 9]), LgAt 2 ''c''])))"
proof -
  have le: "(1::i64) \<le>s 2" "\<not> (4::i64) \<le>s 2" "(2::i64) \<le>s 2" by code_simp+
  let ?pack = "\<lambda>level m. [ucast level, 9]"
  obtain l where l: "NewLoggerWithName11 (Inr 2) = Inr l" by (simp add: NewLoggerWithName11_def)
  then obtain l' where "run (lg_step ?pack) l [LgAt 1 ''a'', LgAt 4 ''b'', LgSock (WSWriteOut None [1, 9]), LgAt 2 ''c''] = Some l'"
      "ws_wire (lg_sock l') = [1, 9]"
    by (auto simp: NewLoggerWithName11_def logger11_at_def le sock11_eval)
  with logger11_wire [OF l] show ?thesis by metis
qed

text \<open>A logger cannot be used after \<open>Close\<close>: if the logging service is still there, the next message
  panics, as the reconnection closes the socket's buffer a second time.\<close>

theorem logger11_log_after_close:
  assumes "logger11_Close l = Ret l'" and "\<not> lg_reconnecting l"
  shows "logger11_log pack ((Inr v, es) # ios) level msg l' = Some (Panic CloseOfClosed)"
proof -
  have "ws_closed (lg_sock l')" "b11_stop_closed (ws_buf (lg_sock l'))" "\<not> lg_reconnecting l'"
    using assms by (auto simp: logger11_Close_def ws_Close_all_def ws_Close_def)
  then show ?thesis
    by (simp add: logger11_Reconnect_def ws_Close_all_def ws_Close_def ws_close_def asyncBuff11_Stop_def)
qed

theorem logger11_log_after_close_witness:
  "\<exists>l'. logger11_Close \<lparr>lg_sock = newWSocket11, lg_verbosity = 2, lg_reconnecting = False\<rparr> = Ret l' \<and>
     logger11_log (\<lambda>_ _. []) [(Inr 2, [])] 1 ''x'' l' = Some (Panic CloseOfClosed)"
proof -
  let ?l = "\<lparr>lg_sock = newWSocket11, lg_verbosity = 2, lg_reconnecting = False\<rparr>"
  obtain l' where l': "logger11_Close ?l = Ret l'"
    by (simp add: logger11_Close_def ws_Close_all_def sock11_eval)
  have "\<not> lg_reconnecting ?l" by simp
  from logger11_log_after_close [OF l' this] l' show ?thesis by blast
qed

end
