(* ===== verification/V11Http.thy ===== *)
theory V11Http
  imports Http V11Worker
begin

text \<open>
  HTTP applications of the v0.11 package: \<open>ResponseWriter\<close> (\<open>cocaine/response_writer.go\<close>) and the
  wrapper of \<open>cocaine/httpreq.go\<close>. Unlike its successor the writer packs what it sends with the
  msgpack codec inside \<open>Response.Write\<close> (the parameter \<open>enc\<close>), and the wrapper does not defer the
  closing of the response. What a handler does to its response is the list of the sends it makes.
\<close>

section \<open>The response writer\<close>

record responseWriter11 =
  h11_out :: "resp11 list"
  h11_header :: http_header
  h11_written :: i64
  h11_contentLength :: i64
  h11_status :: i64
  h11_wroteHeader :: bool
  h11_multipart :: bool
  h11_logged :: "string list"

definition newResponseWriter11 :: responseWriter11 where
  "newResponseWriter11 = \<lparr>h11_out = [], h11_header = [], h11_written = 0, h11_contentLength = - 1, h11_status = 0,
     h11_wroteHeader = False, h11_multipart = False, h11_logged = []\<rparr>"

definition headers_val :: "headers \<Rightarrow> gval" where
  "headers_val hs = GSlice (map (\<lambda>(k, v). GSlice [GString k, GString v]) hs)"

definition WriteHead11 :: "i64 \<Rightarrow> headers \<Rightarrow> gval" where
  "WriteHead11 code headers = GSlice [GInt code, headers_val headers]"

definition HttpHeaderToCocaineHeader :: "http_header \<Rightarrow> headers" where
  "HttpHeaderToCocaineHeader h = concat (map (\<lambda>(name, vs). map (\<lambda>v. (name, v)) vs) h)"

definition CocaineHeaderToHttpHeader :: "headers \<Rightarrow> http_header" where
  "CocaineHeaderToHttpHeader hdr = fold (\<lambda>(k, v). Header_Add k v) hdr []"

text \<open>\<open>Response.Write\<close> encodes its argument.\<close>

definition w11_send :: "(gval \<Rightarrow> bytes) \<Rightarrow> gval \<Rightarrow> responseWriter11 \<Rightarrow> responseWriter11" where
  "w11_send enc x w = w\<lparr>h11_out := h11_out w @ [Write11 (Some (enc x))]\<rparr>"

definition WriteHeader11 :: "(gval \<Rightarrow> bytes) \<Rightarrow> i64 \<Rightarrow> responseWriter11 \<Rightarrow> responseWriter11" where
  "WriteHeader11 enc code w =
     (if h11_wroteHeader w then w\<lparr>h11_logged := h11_logged w @ [''http: multiple response.WriteHeader calls'']\<rparr>
      else
        (let w1 = w\<lparr>h11_wroteHeader := True, h11_status := code\<rparr>;
             cl = Header_Get ''Content-Length'' (h11_header w1);
             bad = w1\<lparr>h11_logged := h11_logged w1 @ [''http: invalid Content-Length of '' @ [quote] @ cl @ [quote]],
                      h11_header := Header_Del ''Content-Length'' (h11_header w1)\<rparr>;
             w2 = (if cl = '''' then w1
                   else (case ParseInt cl of
                           Some v \<Rightarrow> if v \<ge> 0 then w1\<lparr>h11_contentLength := word_of_int v\<rparr> else bad
                         | None \<Rightarrow> bad)) in
         w11_send enc (WriteHead11 code (HttpHeaderToCocaineHeader (h11_header w2))) w2))"

definition finishRequest11 :: "(gval \<Rightarrow> bytes) \<Rightarrow> responseWriter11 \<Rightarrow> responseWriter11" where
  "finishRequest11 enc w =
     (let w1 = (if h11_wroteHeader w then w else WriteHeader11 enc StatusOK w) in w1\<lparr>h11_multipart := False\<rparr>)"

definition bodyAllowed11 :: "responseWriter11 \<Rightarrow> bool go" where
  "bodyAllowed11 w =
     (if h11_wroteHeader w then Ret (h11_status w \<noteq> StatusNotModified) else Panic (UserPanic ''''))"

definition write11 :: "(gval \<Rightarrow> bytes) \<Rightarrow> nat \<Rightarrow> slice \<Rightarrow> string \<Rightarrow> responseWriter11
    \<Rightarrow> (responseWriter11 \<times> nat \<times> goerr option) go" where
  "write11 enc lenData dataB dataS w =
     (let w1 = (if h11_wroteHeader w then w else WriteHeader11 enc StatusOK w) in
      if lenData = 0 then Ret (w1, 0, None)
      else go_bind (bodyAllowed11 w1) (\<lambda>allowed.
        if \<not> allowed then Ret (w1, 0, Some ErrBodyNotAllowed)
        else
          (let w2 = w1\<lparr>h11_written := h11_written w1 + word_of_nat lenData\<rparr> in
           if h11_contentLength w2 \<noteq> - 1 \<and> h11_contentLength w2 <s h11_written w2
           then Ret (w2, 0, Some ErrContentLength)
           else (case dataB of
                   Some b \<Rightarrow> Ret (w11_send enc (GBytes dataB) w2, length b, None)
                 | None \<Rightarrow> Ret (w11_send enc (GString dataS) w2, length dataS, None)))))"

definition Write_11 where "Write_11 enc d = write11 enc (length (slice_bytes d)) d ''''"
definition WriteString_11 where "WriteString_11 enc s = write11 enc (length s) None s"

definition w11_op :: "(gval \<Rightarrow> bytes) \<Rightarrow> httpOp \<Rightarrow> responseWriter11 \<Rightarrow> responseWriter11 go" where
  "w11_op enc op w =
     (case op of
        HAdd k v \<Rightarrow> Ret (w\<lparr>h11_header := Header_Add k v (h11_header w)\<rparr>)
      | HSet k v \<Rightarrow> Ret (w\<lparr>h11_header := Header_Set k v (h11_header w)\<rparr>)
      | HDel k \<Rightarrow> Ret (w\<lparr>h11_header := Header_Del k (h11_header w)\<rparr>)
      | HWriteHeader code \<Rightarrow> Ret (WriteHeader11 enc code w)
      | HWrite d \<Rightarrow> go_bind (Write_11 enc d w) (\<lambda>(w', _). Ret w')
      | HWriteString s \<Rightarrow> go_bind (WriteString_11 enc s w) (\<lambda>(w', _). Ret w')
      | HParseMultipart \<Rightarrow> Ret (w\<lparr>h11_multipart := True\<rparr>))"

fun ServeHTTP11 :: "(gval \<Rightarrow> bytes) \<Rightarrow> httpOp list \<Rightarrow> responseWriter11 \<Rightarrow> responseWriter11 go" where
  "ServeHTTP11 enc [] w = Ret w"
| "ServeHTTP11 enc (op # ops) w = go_bind (w11_op enc op w) (ServeHTTP11 enc ops)"

section \<open>The request\<close>

text \<open>
  The elements of the decoded request: the handle decodes nested slices as \<open>Headers\<close>. The error of
  \<open>Decode\<close> is dropped, so the list is whatever was decoded before it, perhaps nothing.
\<close>

datatype h11val = HBytes slice | HHeaders headers | HOtherVal

fun h11_bytes :: "h11val list \<Rightarrow> nat \<Rightarrow> slice go" where
  "h11_bytes v i =
     (if i < length v then (case v ! i of HBytes b \<Rightarrow> Ret b | _ \<Rightarrow> Panic TypeAssertion) else Panic IndexOutOfRange)"

fun h11_headers :: "h11val list \<Rightarrow> nat \<Rightarrow> headers go" where
  "h11_headers v i =
     (if i < length v then (case v ! i of HHeaders hs \<Rightarrow> Ret hs | _ \<Rightarrow> Panic TypeAssertion) else Panic IndexOutOfRange)"

text \<open>\<open>decompressBody\<close>; \<open>gzipHeader\<close>: the error \<open>gzip.NewReader\<close> finds in the body's first bytes, if any.\<close>

definition decompressBody :: "(bytes \<Rightarrow> goerr option) \<Rightarrow> 'url httpRequest \<Rightarrow> goerr + 'url httpRequest" where
  "decompressBody gzipHeader req =
     (if 0 <s hr_ContentLength req \<and> Header_Get ''Content-Encoding'' (hr_Header req) = ''gzip''
      then
        (let b = (case hr_Body req of PlainBody b \<Rightarrow> b | GzipBody b \<Rightarrow> b) in
         case gzipHeader b of
           Some err \<Rightarrow> Inl (ErrBadRequest ''Could not decompress gzip body'')
         | None \<Rightarrow> Inr (req\<lparr>hr_Header := Header_Del ''Content-Length'' (Header_Del ''Content-Encoding'' (hr_Header req)),
                             hr_ContentLength := - 1, hr_Body := GzipBody b\<rparr>))
      else Inr req)"

text \<open>
  Closing a decompressed body closes the decompressor and the body below it, in this order and
  whatever the first returns, and reports the first error. \<open>closeDec\<close> and \<open>closeBody\<close> act on the
  state of the two.
\<close>

definition decompressReaderCloser_Close :: "('s \<Rightarrow> 's \<times> goerr option) \<Rightarrow> ('s \<Rightarrow> 's \<times> goerr option) \<Rightarrow> 's \<Rightarrow> 's \<times> goerr option" where
  "decompressReaderCloser_Close closeDec closeBody s =
     (case closeDec s of (s1, errDec) \<Rightarrow>
        (case closeBody s1 of (s2, errBody) \<Rightarrow> (s2, if errDec \<noteq> None then errDec else errBody)))"

lemma decompressReaderCloser_both:
  "fst (decompressReaderCloser_Close closeDec closeBody s) = fst (closeBody (fst (closeDec s))) \<and>
   (snd (decompressReaderCloser_Close closeDec closeBody s) = None \<longleftrightarrow>
      snd (closeDec s) = None \<and> snd (closeBody (fst (closeDec s))) = None)"
  by (auto simp: decompressReaderCloser_Close_def split: prod.splits)

definition UnpackProxyRequest11 ::
  "(slice \<Rightarrow> h11val list) \<Rightarrow> (string \<Rightarrow> goerr + 'url) \<Rightarrow> (bytes \<Rightarrow> goerr option) \<Rightarrow> slice
     \<Rightarrow> (goerr + 'url httpRequest) go" where
  "UnpackProxyRequest11 decode parseURL gzipHeader raw =
     (let v = decode raw in
      go_bind (h11_bytes v 0) (\<lambda>meth. go_bind (h11_bytes v 1) (\<lambda>uri. go_bind (h11_bytes v 4) (\<lambda>body.
        case NewRequest parseURL (string_of_bytes (slice_bytes meth)) (string_of_bytes (slice_bytes uri)) (slice_bytes body) of
          Inl err \<Rightarrow> Ret (Inl err)
        | Inr r \<Rightarrow>
            go_bind (h11_headers v 3) (\<lambda>hs.
              let h = CocaineHeaderToHttpHeader hs;
                  r1 = r\<lparr>hr_Header := h, hr_Host := Header_Get ''Host'' h\<rparr>;
                  ip = Header_Get ''X-Real-IP'' h;
                  r2 = (if ip \<noteq> '''' then r1\<lparr>hr_RemoteAddr := ip\<rparr> else r1) in
              Ret (decompressBody gzipHeader r2))))))"

section \<open>The wrapped handler\<close>

text \<open>What the wrapper sends, and the panic it ends with, if any.\<close>

definition WrapHandler11 ::
  "(gval \<Rightarrow> bytes) \<Rightarrow> (slice \<Rightarrow> h11val list) \<Rightarrow> (string \<Rightarrow> goerr + 'url) \<Rightarrow> (bytes \<Rightarrow> goerr option)
     \<Rightarrow> ('url httpRequest \<Rightarrow> httpOp list \<times> string option) \<Rightarrow> slice \<Rightarrow> resp11 list \<times> panic option" where
  "WrapHandler11 enc decode parseURL gzipHeader app raw =
     (case UnpackProxyRequest11 decode parseURL gzipHeader raw of
        Panic p \<Rightarrow> ([], Some p)
      | Ret (Inl err) \<Rightarrow> ([Write11 (Some (enc (WriteHead11 400 [])))] @ Response11_Close, None)
      | Ret (Inr req) \<Rightarrow>
          (case app req of (ops, panics) \<Rightarrow>
             (case ServeHTTP11 enc ops newResponseWriter11 of
                Panic p \<Rightarrow> ([], Some p)
              | Ret w \<Rightarrow>
                  (case panics of
                     None \<Rightarrow> (h11_out (finishRequest11 enc w) @ Response11_Close, None)
                   | Some t \<Rightarrow> (h11_out w, Some (UserPanic t))))))"

text \<open>\<open>WrapHandleFuncs\<close> wraps every entry of a map.\<close>

definition WrapHandlerFunc11 where
  "WrapHandlerFunc11 enc decode parseURL gzipHeader hf = WrapHandler11 enc decode parseURL gzipHeader hf"

definition WrapHandleFuncs11 where
  "WrapHandleFuncs11 enc decode parseURL gzipHeader hfs =
     map (\<lambda>(key, hf). (key, WrapHandlerFunc11 enc decode parseURL gzipHeader hf)) hfs"

text \<open>The run of an invocation: the wrapper under the worker's recovery; \<open>show\<close> prints a panic.\<close>

definition http11_session where
  "http11_session show enc decode parseURL gzipHeader app event raw =
     (case WrapHandler11 enc decode parseURL gzipHeader app raw of
        (ops, None) \<Rightarrow> ops
      | (ops, Some p) \<Rightarrow> ops @ recover11 True event (show p))"

section \<open>The two writers agree\<close>

text \<open>One piece of an answer in both frameworks: the head, or a piece of the body.\<close>

definition same_piece :: "(i64 \<Rightarrow> headers \<Rightarrow> bytes) \<Rightarrow> (gval \<Rightarrow> bytes) \<Rightarrow> u64 \<Rightarrow> message \<Rightarrow> resp11 \<Rightarrow> bool" where
  "same_piece encode enc s m op \<longleftrightarrow>
     (\<exists>code hs. m = newChunkV1 s (Some (encode code hs)) \<and> op = Write11 (Some (enc (WriteHead11 code hs)))) \<or>
     (\<exists>b. b \<noteq> [] \<and> m = newChunkV1 s (Some b) \<and>
        op \<in> {Write11 (Some (enc (GBytes (Some b)))), Write11 (Some (enc (GString (string_of_bytes b))))})"

definition same_writer :: "(i64 \<Rightarrow> headers \<Rightarrow> bytes) \<Rightarrow> (gval \<Rightarrow> bytes) \<Rightarrow> u64 \<Rightarrow> responseWriter \<Rightarrow> responseWriter11 \<Rightarrow> bool" where
  "same_writer encode enc s w v \<longleftrightarrow>
     rw_header w = h11_header v \<and> rw_written w = h11_written v \<and> rw_contentLength w = h11_contentLength v \<and>
     rw_status w = h11_status v \<and> rw_wroteHeader w = h11_wroteHeader v \<and> \<not> rs_closed (rw_cRes w) \<and>
     rs_session (rw_cRes w) = s \<and> list_all2 (same_piece encode enc s) (rs_out (rw_cRes w)) (h11_out v)"

lemma same_headers: "HttpHeaderToCocaineHeader h = HeadersHTTPtoCocaine h" "CocaineHeaderToHttpHeader hs = HeadersCocaineToHTTP hs"
  by (simp_all add: HttpHeaderToCocaineHeader_def HeadersHTTPtoCocaine_def CocaineHeaderToHttpHeader_def HeadersCocaineToHTTP_def)

lemma same_head: "same_piece encode enc s (newChunkV1 s (Some (encode code hs))) (Write11 (Some (enc (WriteHead11 code hs))))"
  by (auto simp: same_piece_def)

lemma same_WriteHeader:
  "same_writer encode enc s w v \<Longrightarrow> same_writer encode enc s (WriteHeader encode code w) (WriteHeader11 enc code v)"
  by (auto simp: same_writer_def WriteHeader_def WriteHeader11_def declareLength_def WriteHead_def w11_send_def
      same_headers same_head response_defs Let_def list_all2_appendI split: option.splits)

lemma same_write:
  assumes "same_writer encode enc s w v" and "slice_bytes d \<noteq> []" and "n = length (slice_bytes d)"
    and "dataB = d \<or> dataB = None \<and> dataS = string_of_bytes (slice_bytes d)"
  shows "\<exists>w' v' r q. rw_write encode d c w = Ret (w', r) \<and> write11 enc n dataB dataS v = Ret (v', q) \<and>
    same_writer encode enc s w' v' \<and> snd r = snd q"
proof -
  define w1 where "w1 = (if rw_wroteHeader w then w else WriteHeader encode StatusOK w)"
  define v1 where "v1 = (if h11_wroteHeader v then v else WriteHeader11 enc StatusOK v)"
  have same: "same_writer encode enc s w1 v1"
    using same_WriteHeader [OF assms(1)] assms(1) by (auto simp: w1_def v1_def same_writer_def)
  have wrote: "rw_wroteHeader w1"
    by (auto simp: w1_def WriteHeader_def declareLength_def Let_def split: option.splits)
  obtain b where b: "d = Some b" "b \<noteq> []" using assms(2) by (cases d) auto
  have bytes: "same_piece encode enc s (newChunkV1 s (Some b)) (Write11 (Some (enc (GBytes (Some b)))))"
      "same_piece encode enc s (newChunkV1 s (Some b)) (Write11 (Some (enc (GString (string_of_bytes b)))))"
    using b(2) by (auto simp: same_piece_def)
  show ?thesis
    using same wrote b assms(3,4) bytes unfolding rw_write_def write11_def w1_def [symmetric] v1_def [symmetric]
    by (cases dataB) (auto simp: same_writer_def bodyAllowed_def bodyAllowed11_def w11_send_def response_defs Let_def
        list_all2_appendI)
qed

lemma same_write_empty:
  assumes "same_writer encode enc s w v" and "slice_bytes d = []"
  shows "\<exists>w' v' r q. rw_write encode d c w = Ret (w', r) \<and> write11 enc 0 dataB dataS v = Ret (v', q) \<and>
    same_writer encode enc s w' v' \<and> snd r = snd q"
  using assms same_WriteHeader [OF assms(1)] by (auto simp: rw_write_def write11_def same_writer_def Let_def)

lemma same_op:
  assumes "same_writer encode enc s w v"
  shows "\<exists>w' v'. rw_op encode op w = Ret w' \<and> w11_op enc op v = Ret v' \<and> same_writer encode enc s w' v'"
proof (cases op)
  case (HWrite d)
  with same_write [OF assms, of d "length (slice_bytes d)" d "''''" True] same_write_empty [OF assms, of d True d "''''"]
  show ?thesis
    by (cases "slice_bytes d = []") (force simp: rw_op_def w11_op_def rw_Write_def Write_11_def)+
next
  case (HWriteString t)
  have len: "length t = length (slice_bytes (Some (bytes_of_string t)))" by simp
  have "\<exists>w' v' r q. rw_write encode (Some (bytes_of_string t)) False w = Ret (w', r) \<and>
      write11 enc (length t) None t v = Ret (v', q) \<and> same_writer encode enc s w' v' \<and> snd r = snd q"
  proof (cases "t = ''''")
    case True
    then show ?thesis
      using same_write_empty [OF assms, of "Some (bytes_of_string t)" False None t] by (simp add: bytes_of_string_def)
  next
    case False
    then have "slice_bytes (Some (bytes_of_string t)) \<noteq> []" by (simp add: bytes_of_string_def)
    from same_write [OF assms this len, of None t False] show ?thesis by simp
  qed
  with HWriteString show ?thesis by (force simp: rw_op_def w11_op_def rw_WriteString_def WriteString_11_def)
next
  case (HWriteHeader code)
  with same_WriteHeader [OF assms] show ?thesis by (simp add: rw_op_def w11_op_def)
qed (use assms in \<open>auto simp: rw_op_def w11_op_def same_writer_def\<close>)

lemma same_ops:
  "same_writer encode enc s w v \<Longrightarrow>
     \<exists>w' v'. ServeHTTP encode ops w = Ret w' \<and> ServeHTTP11 enc ops v = Ret v' \<and> same_writer encode enc s w' v'"
proof (induction ops arbitrary: w v)
  case (Cons op ops)
  from same_op [OF Cons.prems, of op] Cons.IH show ?case by fastforce
qed auto

lemma same_finish:
  "same_writer encode enc s w v \<Longrightarrow> same_writer encode enc s (finishRequest encode w) (finishRequest11 enc v)"
  using same_WriteHeader [of encode enc s w v StatusOK]
  by (auto simp: finishRequest_def finishRequest11_def same_writer_def Let_def)

lemma same_new: "same_writer encode enc s (newResponseWriter (newResponse s)) newResponseWriter11"
  by (simp add: same_writer_def newResponseWriter_def newResponse_def newResponseWriter11_def)

text \<open>The head is the first thing sent.\<close>

definition headed :: "responseWriter11 \<Rightarrow> bool" where
  "headed w \<longleftrightarrow> (h11_wroteHeader w \<longrightarrow> h11_out w \<noteq> [])"

lemma headed_op: "headed w \<Longrightarrow> w11_op enc op w = Ret u \<Longrightarrow> headed u"
  by (cases op) (auto simp: headed_def w11_op_def Write_11_def WriteString_11_def write11_def WriteHeader11_def
      bodyAllowed11_def w11_send_def Let_def split: option.splits if_splits)

lemma headed_serve: "headed w \<Longrightarrow> ServeHTTP11 enc ops w = Ret u \<Longrightarrow> headed u"
  by (induction ops arbitrary: w) (auto dest: headed_op)

lemma headed_finish: "headed w \<Longrightarrow> h11_out (finishRequest11 enc w) \<noteq> []"
  by (auto simp: headed_def finishRequest11_def WriteHeader11_def w11_send_def Let_def)

section \<open>Properties\<close>

text \<open>C35: the response writers of the two frameworks are equivalent. Whatever an application does with
  its response writer, neither writer panics, and when the request is finished both have sent the
  same answer piece by piece: the same status and headers in the head, then the same pieces of the
  body, each in its framework's encoding.\<close>

theorem writers_equivalent:
  "\<exists>w v. ServeHTTP encode ops (newResponseWriter (newResponse s)) = Ret w \<and>
     ServeHTTP11 enc ops newResponseWriter11 = Ret v \<and>
     list_all2 (same_piece encode enc s) (rs_out (rw_cRes (finishRequest encode w))) (h11_out (finishRequest11 enc v))"
  using same_ops [OF same_new] same_finish unfolding same_writer_def by metis

text \<open>What an HTTP invocation of the v0.11 worker sends. A request that cannot be used is answered
  with status 400; an application that returns is answered with its head, its body and the closing
  sequence; and when the request is malformed beyond decoding or the application panics, the client
  is told the error: nothing is closed before the recovery runs.\<close>

theorem http11_session_cases:
  "(\<forall>err. UnpackProxyRequest11 decode parseURL gz raw = Ret (Inl err) \<longrightarrow>
      http11_session shw enc decode parseURL gz app event raw = Write11 (Some (enc (WriteHead11 400 []))) # Response11_Close) \<and>
   (\<forall>req ops. UnpackProxyRequest11 decode parseURL gz raw = Ret (Inr req) \<and> app req = (ops, None) \<longrightarrow>
      (\<exists>v. ServeHTTP11 enc ops newResponseWriter11 = Ret v \<and> h11_out (finishRequest11 enc v) \<noteq> [] \<and>
         http11_session shw enc decode parseURL gz app event raw = h11_out (finishRequest11 enc v) @ Response11_Close)) \<and>
   (\<forall>req ops t. UnpackProxyRequest11 decode parseURL gz raw = Ret (Inr req) \<and> app req = (ops, Some t) \<longrightarrow>
      (\<exists>v. ServeHTTP11 enc ops newResponseWriter11 = Ret v \<and>
         http11_session shw enc decode parseURL gz app event raw = h11_out v @ recover11 True event (shw (UserPanic t)))) \<and>
   (\<forall>p. UnpackProxyRequest11 decode parseURL gz raw = Panic p \<longrightarrow>
      http11_session shw enc decode parseURL gz app event raw = recover11 True event (shw p))"
proof -
  have "h11_out (finishRequest11 enc v) \<noteq> []" if "ServeHTTP11 enc ops newResponseWriter11 = Ret v" for ops v
    using headed_serve [OF _ that] by (rule headed_finish) (simp add: headed_def newResponseWriter11_def)  moreover have "\<exists>v. ServeHTTP11 enc ops newResponseWriter11 = Ret v" for ops
    using same_ops [OF same_new [of "\<lambda>_ _. []" enc 0], of ops] by blast
  ultimately show ?thesis by (force simp: http11_session_def WrapHandler11_def)
qed

theorem http11_session_cases_witness:
  "http11_session (\<lambda>_. ''index out of range'') (\<lambda>_. []) (\<lambda>_. []) (Inr :: string \<Rightarrow> goerr + string) (\<lambda>_. None)
     (\<lambda>_. ([HWriteHeader 201], None)) ''http'' None =
     recover11 True ''http'' ''index out of range'' \<and>
   http11_session (\<lambda>_. '''') (\<lambda>_. [7]) (\<lambda>_. [HBytes None, HBytes None, HOtherVal, HHeaders [], HBytes None])
     (Inr :: string \<Rightarrow> goerr + string) (\<lambda>_. None) (\<lambda>_. ([HWriteHeader 201], None)) ''http'' None =
     Write11 (Some [7]) # Response11_Close"
proof
  have "UnpackProxyRequest11 (\<lambda>_. []) (Inr :: string \<Rightarrow> goerr + string) (\<lambda>_. None) None = Panic IndexOutOfRange"
    by (simp add: UnpackProxyRequest11_def)
  with http11_session_cases [of "\<lambda>_. []" "Inr :: string \<Rightarrow> goerr + string" "\<lambda>_. None" None "\<lambda>_. ''index out of range''"
      "\<lambda>_. []" "\<lambda>_. ([HWriteHeader 201], None)" "''http''"]
  show "http11_session (\<lambda>_. ''index out of range'') (\<lambda>_. []) (\<lambda>_. []) (Inr :: string \<Rightarrow> goerr + string) (\<lambda>_. None)
     (\<lambda>_. ([HWriteHeader 201], None)) ''http'' None = recover11 True ''http'' ''index out of range''"
    by blast
next
  let ?decode = "\<lambda>_. [HBytes None, HBytes None, HOtherVal, HHeaders [], HBytes None]"
  let ?parse = "Inr :: string \<Rightarrow> goerr + string"
  obtain req where req: "UnpackProxyRequest11 ?decode ?parse (\<lambda>_. None) None = Ret (Inr req)"
    by (simp add: UnpackProxyRequest11_def NewRequest_def validHeaderFieldByte_def decompressBody_def
        CocaineHeaderToHttpHeader_def Header_Get_def string_of_bytes_def Let_def)
  have "\<exists>v. ServeHTTP11 (\<lambda>_. [7]) [HWriteHeader 201] newResponseWriter11 = Ret v \<and>
      h11_out (finishRequest11 (\<lambda>_. [7]) v) \<noteq> [] \<and>
      http11_session (\<lambda>_. '''') (\<lambda>_. [7]) ?decode ?parse (\<lambda>_. None) (\<lambda>_. ([HWriteHeader 201], None)) ''http'' None =
        h11_out (finishRequest11 (\<lambda>_. [7]) v) @ Response11_Close"
    using http11_session_cases [of ?decode ?parse "\<lambda>_. None" None "\<lambda>_. ''''" "\<lambda>_. [7]" "\<lambda>_. ([HWriteHeader 201], None)"
        "''http''"] req
    by blast
  then show "http11_session (\<lambda>_. '''') (\<lambda>_. [7]) ?decode ?parse (\<lambda>_. None) (\<lambda>_. ([HWriteHeader 201], None)) ''http'' None =
     Write11 (Some [7]) # Response11_Close"
    by (auto simp: w11_op_def WriteHeader11_def newResponseWriter11_def finishRequest11_def w11_send_def Header_Get_def Let_def)
qed

end
