(* ===== verification/Spec2Isabelle.thy ===== *)
theory Spec2Isabelle
  imports System EchoExample Startup WorkerStop Locator Locks ProxyServer BridgeMain Reader
    V11Worker V11Delivery V11Reconnect V11Socket V11Logger V11Http
begin

text \<open>
  Verification of cocaine-framework-go, the Go framework for applications ("workers") and clients of
  the Cocaine cloud. The repository holds two generations of it: \<open>cocaine12\<close> (protocol v12) and \<open>cocaine\<close>
  (v0.11), a proxy and a bridge built on the first, and a token manager.

  \<^bold>\<open>The program.\<close> A worker is started by the runtime, connects to it over a socket, announces itself and
  then serves sessions: an \<open>Invoke\<close> message opens one, chunks feed the handler's request, and what the
  handler writes to its response goes back as chunks ended by a choke or an error; heartbeats keep the
  worker owned. A client resolves a service by name at a locator, connects to an endpoint and calls
  methods; each call is a session with a receiving and a sending half that follow a tree describing
  the conversation. HTTP applications, the proxy and the bridge put HTTP requests and answers on top of
  sessions. Every connection and every stream has a goroutine with an unbounded buffer between its two
  ends.

  \<^bold>\<open>Conventions.\<close> A goroutine around a \<open>select\<close> is a partial step function \<open>state \<Rightarrow> event \<Rightarrow> state option\<close>:
  the event names the ready case, None says that the case is not ready, and the scheduler, the network
  and the user are the event list of \<open>run\<close>. Theorems about \<open>run\<close> therefore hold under every interleaving.
  Errors are values of \<open>goerr\<close>, run-time panics the constructor \<open>Panic\<close> of \<open>go\<close>. Session and message
  numbers, sizes and counters are words of their width. Go maps are association lists whose order is
  that of the iteration. Channels, requests and connections that are shared by reference live in
  stores and are referred to by position. Third-party code is a parameter: the msgpack codec, URL
  parsing, \<open>fmt\<close>, gzip, dialling; a theorem that needs something of it says so in a hypothesis.

  \<^bold>\<open>Theories.\<close>
  \<^item> \<open>Prelude\<close>: words, byte slices, dynamic values, errors, panics, runs and their inductions. \<open>Relay\<close>:
    the contract of the buffering goroutines as three locales (conservation, loss only on abort, draining).
  \<^item> \<open>AsyncBuf\<close>, \<open>Socket\<close> (\<open>cocaine12/asocket.go\<close>): the buffer and the socket with its reading and writing
    goroutine; both are interpretations of the relay. Shown: order and completeness of what is
    delivered, progress, closing exactly once.
  \<^item> \<open>Sessions\<close> (\<open>sessions.go\<close>, \<open>cocaine/sessionkeeper.go\<close>): both session tables as interpretations of one
    interface, refining a finite map. \<open>Dispatch\<close> (\<open>dispatch.go\<close>, \<open>apilocator.go\<close>): protocol trees.
  \<^item> \<open>Protocol\<close> (\<open>protocol.go\<close>), \<open>TraceCtx\<close> (\<open>trace.go\<close>): trace headers, the collection loop against its
    specification, round trip; contexts and spans, and a trace crossing from client to worker.
  \<^item> \<open>Wproto\<close> (\<open>wprotov1.go\<close>, \<open>worker_protocol.go\<close>), \<open>Handler\<close> (\<open>handler.go\<close>, the response of \<open>cocainetest\<close>),
    \<open>EventHandlers\<close> (\<open>worker_handlers.go\<close>), \<open>Worker\<close> (\<open>workerng.go\<close>), \<open>Adapter\<close> (\<open>worker.go\<close>): the worker from the
    dispatch of a message to the whole event loop with timers, sessions and handler goroutines. Shown:
    sessions are opened once, every session is answered by data and exactly one end, messages make
    progress, disowning and termination; the adapter refines the worker. \<open>WorkerTypes\<close>: a typing
    judgement for the messages of the protocol, with a checker, and that a worker sends nothing else.
    \<open>Startup\<close> (\<open>NewWorkerNG\<close>, \<open>GetDefaults\<close>, the connections of \<open>asocket.go\<close>): from the command line to the
    first message. \<open>WorkerStop\<close>: calls of \<open>Stop\<close> by several goroutines, cut at each access, over the socket;
    exactly when they panic, and that they otherwise leave everything closed.
  \<^item> \<open>Channel\<close> (\<open>channel.go\<close>), \<open>Service\<close> (\<open>service.go\<close>), \<open>Locks\<close> (its mutex), \<open>Endpoints\<close> (\<open>serviceinfo.go\<close>, the
    dial loops), \<open>Locator\<close> (\<open>locator.go\<close>, \<open>NewService\<close>): the client. Shown: order and routing of results,
    order of sessions, what callers learn of a disconnection, the conversation a sender may hold,
    connecting by name, where the lock discipline is safe and where it deadlocks. \<open>Calls\<close>: the run of a
    client as the channel of one call sees it. \<open>System\<close>: a worker and a client with the runtime relaying
    between them; what the handler of a call writes is what its caller reads. \<open>EchoExample\<close>
    (\<open>example/echo.go\<close>): the example program on top of all this, from \<open>main\<close> to what its caller reads.
  \<^item> \<open>HttpHeader\<close>, \<open>Http\<close> (\<open>httphandler.go\<close>, \<open>httpresponse.go\<close>), \<open>Proxy\<close> and \<open>ProxyServer\<close> (\<open>proxy/proxy.go\<close>,
    \<open>cmd/proxy/main.go\<close>), \<open>Bridge\<close> and \<open>BridgeMain\<close> (\<open>bridge/bridge.go\<close>, \<open>bridge/ping.go\<close>,
    \<open>cmd/bridge_main.go\<close>): header maps and their round trip; what an application's calls put on the
    session; what the proxy makes of it; that its server answers every request and redirects at most
    once; an HTTP server behind the bridge, what is logged of it and how the bridge ends. The theorems
    on \<open>proxy_answer\<close> compose the worker's side, the channel and the proxy.
  \<^item> \<open>Reader\<close> (\<open>utils.go\<close>, the request of \<open>cocainetest\<close>), \<open>Loggers\<close> (\<open>logger.go\<close>, \<open>clogger.go\<close>, \<open>entry.go\<close>,
    \<open>fallbacklogger.go\<close>, \<open>severity.go\<close>), \<open>Tokens\<close> (\<open>token.go\<close>, \<open>auth/tvm/tvm.go\<close>), \<open>Defaults\<close> (\<open>defaults.go\<close>),
    \<open>Stack\<close> (\<open>stack.go\<close>): the request as a byte stream, levels, fresh tickets, configuration from the
    command line, the complete stack dump. Loggers, chunk sources and token managers are locales with
    the program's implementations as interpretations.
  \<^item> \<open>V11Buf\<close>, \<open>V11Socket\<close> (\<open>cocaine/asocket.go\<close>), \<open>V11Message\<close> (\<open>message.go\<close>), \<open>V11Worker\<close> (\<open>worker.go\<close>),
    \<open>V11Service\<close> and \<open>V11Client\<close> (\<open>service.go\<close>, \<open>locator.go\<close>), \<open>V11Logger\<close> (\<open>logger.go\<close>), \<open>V11Http\<close> (\<open>httpreq.go\<close>,
    \<open>response_writer.go\<close>): the first generation. Its buffers are further interpretations of the relay;
    the stream unpacker does not depend on how the network cuts the stream, also behind the socket, and
    gives back what was packed; callers of the client, whose goroutines interleave freely, never see each
    other's results, and without a reconnection nothing panics (with one it can). \<open>V11Delivery\<close>: a call
    made before the loop leaves gets its whole answer and its end. \<open>V11Reconnect\<close>: any number of
    goroutines in \<open>Reconnect\<close>, with its flag and mutex; one at a time works, once per lost connection;
    its response writer is equivalent to the one of the second generation.

  \<^bold>\<open>Termination and bounds.\<close> Loops that may not end are \<open>partial_function (option)\<close> (the stream unpacker, the
  stack dump) and are proved to return; no fuel is used. The parsing of flags and the line scanner are
  \<open>function\<close>s with their measures. Bounds in statements are those of the widths: \<open>2 ^ 64 - 2\<close> sessions before numbers repeat,
  \<open>2 ^ 63\<close> bytes in one HTTP body, \<open>2 ^ 62\<close> bytes in a stack dump.

  \<^bold>\<open>Not modelled.\<close> The vendored codec and the standard library behind the parameters; what operating
  system calls do (dialling, signals, processes), whose outcomes are arguments; connections and HTTP
  parsing of the server of \<open>cmd/proxy\<close>; printing of messages for people; accessors that only return a
  field; package metadata and tests; the top-level function \<open>getServiceChanPair\<close> of \<open>cocaine/service.go\<close>, which nothing
  calls and which repeats the method of that name. In \<open>Worker\<close> a call of \<open>Stop\<close> is one step; \<open>WorkerStop\<close> has
  the finer view.
\<close>

end
